(* ===== verification/Prelude.thy ===== *)
theory Prelude
  imports Main "HOL-Library.Word"
begin

text \<open>
  What every component shares: the C integer types as machine words, the faults a C program
  can run into, the monadic sequencing of fallible steps, byte ranges of the 64-bit address
  space, and the collections of simplification rules the component proofs use.
\<close>

unbundle bit_operations_syntax

section \<open>Machine integers\<close>

type_synonym u8 = "8 word"
type_synonym u16 = "16 word"
type_synonym u32 = "32 word"
type_synonym u64 = "64 word"

text \<open>A C \<open>int\<close> is kept as a 32-bit word, read with \<open>sint\<close> where its sign matters.\<close>

type_synonym s32 = "32 word"

text \<open>Converting a C \<open>int\<close> to \<open>uint64_t\<close> sign-extends it.\<close>

definition int_to_u64 :: "s32 \<Rightarrow> u64" where
  "int_to_u64 i = scast i"

section \<open>Faults and sequencing\<close>

text \<open>
  Where the C code has no defined result (an array index outside its array, a division by
  zero) the model stops with a fault; the remaining operations return \<open>Inr\<close> of a value.
\<close>

datatype fault = Out_Of_Bounds | Div_By_Zero | Signed_Overflow

type_synonym 'a res = "fault + 'a"

definition seq :: "'a res \<Rightarrow> ('a \<Rightarrow> 'b res) \<Rightarrow> 'b res" where
  "seq r f = (case r of Inl e \<Rightarrow> Inl e | Inr x \<Rightarrow> f x)"

named_theorems res_simps
named_theorems mem_simps
named_theorems mem_eval

lemma seq_Inl [simp, res_simps]: "seq (Inl e) f = Inl e"
  by (simp add: seq_def)

lemma seq_Inr [simp, res_simps]: "seq (Inr x) f = f x"
  by (simp add: seq_def)

lemma seq_eq_Inr: "seq r f = Inr y \<longleftrightarrow> (\<exists>x. r = Inr x \<and> f x = Inr y)"
  by (cases r) (simp_all add: seq_def)

lemma seq_InrE:
  assumes "seq r f = Inr y"
  obtains x where "r = Inr x" and "f x = Inr y"
  using assms by (auto simp: seq_eq_Inr)

text \<open>The same where the first step may also run for ever, the result \<open>None\<close>.\<close>

definition oseq :: "'a res option \<Rightarrow> ('a \<Rightarrow> 'b res option) \<Rightarrow> 'b res option" where
  "oseq r f = (case r of None \<Rightarrow> None | Some (Inl e) \<Rightarrow> Some (Inl e) | Some (Inr x) \<Rightarrow> f x)"

lemma oseq_simps [simp, res_simps]:
  "oseq None f = None" "oseq (Some (Inl e)) f = Some (Inl e)" "oseq (Some (Inr x)) f = f x"
  by (simp_all add: oseq_def)

lemma seq_assoc: "seq (seq r f) g = seq r (\<lambda>x. seq (f x) g)"
  by (cases r) (simp_all add: seq_def)

section \<open>Byte ranges\<close>

text \<open>
  \<open>in_range x a n\<close>: the address \<open>x\<close> is one of the \<open>n\<close> bytes from \<open>a\<close> on, where
  addresses wrap around at the end of the address space. \<open>separate a n b k\<close>: the \<open>n\<close>
  bytes from \<open>a\<close> and the \<open>k\<close> bytes from \<open>b\<close> share no byte.
\<close>

definition in_range :: "u64 \<Rightarrow> u64 \<Rightarrow> nat \<Rightarrow> bool" where
  "in_range x a n \<longleftrightarrow> unat (x - a) < n"

definition separate :: "u64 \<Rightarrow> nat \<Rightarrow> u64 \<Rightarrow> nat \<Rightarrow> bool" where
  "separate a n b k \<longleftrightarrow> n \<le> unat (b - a) \<and> k \<le> unat (a - b)"

lemma unat_less_2p64: "unat (x :: u64) < 18446744073709551616"
  using unsigned_less [of x] by simp

lemma unat_minus_one: "x \<noteq> 0 \<Longrightarrow> unat (x - 1 :: 'a :: len word) = unat x - 1"
  by (metis unat_minus_one)

lemma in_range_0 [simp]: "\<not> in_range x a 0"
  by (simp add: in_range_def)

lemma in_range_self [simp]: "in_range a a n \<longleftrightarrow> 0 < n"
  by (simp add: in_range_def)

lemma in_range_Suc: "in_range x a (Suc n) \<longleftrightarrow> x = a \<or> in_range x (a + 1) n"
proof (cases "x = a")
  case True
  then show ?thesis by (simp add: in_range_def)
next
  case False
  then have "unat (x - a - 1) = unat (x - a) - 1" and "unat (x - a) \<noteq> 0"
    by (auto simp: unat_minus_one unat_eq_zero)
  moreover have e: "x - (a + 1) = x - a - 1" by (rule diff_diff_eq [symmetric])
  ultimately show ?thesis
    using False unfolding in_range_def e by auto
qed

lemma in_range_next: "n < 2 ^ 64 \<Longrightarrow> \<not> in_range a (a + 1) n"
  by (simp add: in_range_def unsigned_minus_1_eq_mask mask_eq_exp_minus_1)

lemma in_range_offset: "unat k < n \<Longrightarrow> in_range (a + k) a n"
  by (simp add: in_range_def)

lemma in_range_mono: "in_range x a n \<Longrightarrow> n \<le> k \<Longrightarrow> in_range x a k"
  by (simp add: in_range_def)

lemma unat_of_nat_u64: "i < 2 ^ 64 \<Longrightarrow> unat (of_nat i :: u64) = i"
  by (simp add: unsigned_of_nat take_bit_nat_eq_self)

lemma offset_eq_iff:
  assumes "i < 2 ^ 64"
  shows "x = a + of_nat i \<longleftrightarrow> unat (x - a :: u64) = i"
proof
  assume "x = a + of_nat i"
  then show "unat (x - a) = i" using assms by (simp add: unat_of_nat_u64)
next
  assume "unat (x - a) = i"
  then have "of_nat i = x - a" by (metis of_nat_unat ucast_id)
  then show "x = a + of_nat i" by simp
qed

lemma unat_add_no_wrap:
  "unat a + k < 2 ^ 64 \<Longrightarrow> unat (a + of_nat k :: u64) = unat a + k"
  by (simp add: unat_word_ariths unat_of_nat_u64)

lemma unat_add_no_wrap_word:
  "unat a + unat k < 2 ^ 64 \<Longrightarrow> unat (a + k :: u64) = unat a + unat k"
  by (simp add: unat_word_ariths)

lemma separate_sym: "separate a n b k \<longleftrightarrow> separate b k a n"
  by (auto simp: separate_def)

lemma separate_disjoint:
  assumes "separate a n b k" and "in_range x a n"
  shows "\<not> in_range x b k"
proof
  assume "in_range x b k"
  with assms have "unat (x - a) < unat (b - a)" and "unat (x - b) < unat (a - b)"
    by (auto simp: separate_def in_range_def)
  then show False
    using unat_less_2p64 [of a] unat_less_2p64 [of b] unat_less_2p64 [of x]
    by (auto simp: unat_sub_if' split: if_splits)
qed

lemma separate_mono:
  "separate a n b k \<Longrightarrow> n' \<le> n \<Longrightarrow> k' \<le> k \<Longrightarrow> separate a n' b k'"
  by (auto simp: separate_def)

section \<open>Page arithmetic\<close>

text \<open>Clearing the low 12 bits rounds down to a page boundary.\<close>

lemma page_split: "(x :: u64) = (x AND NOT 0xFFF) + take_bit 12 x"
proof -
  have m: "(0xFFF :: u64) = mask 12" by (simp add: mask_eq_exp_minus_1)
  have "(x AND NOT (mask 12)) AND take_bit 12 x = 0"
    by (rule bit_word_eqI) (auto simp: bit_and_iff bit_not_iff bit_mask_iff bit_take_bit_iff)
  then have "(x AND NOT (mask 12)) + take_bit 12 x = (x AND NOT (mask 12)) OR take_bit 12 x"
    by (rule disjunctive_add_eq_or)
  also have "\<dots> = x"
    by (rule bit_word_eqI) (auto simp: bit_and_iff bit_or_iff bit_not_iff bit_mask_iff bit_take_bit_iff)
  finally show ?thesis unfolding m by simp
qed
lemma unat_take_bit_12: "unat (take_bit 12 (x :: u64)) = unat x mod 4096"
proof -
  have "unat (take_bit 12 x) = take_bit 12 (unat x)" by (rule unsigned_take_bit_eq)
  then show ?thesis by (simp add: take_bit_eq_mod)
qed
lemma unat_page_down: "unat ((x :: u64) AND NOT 0xFFF) = unat x - unat x mod 4096"
proof -
  have "take_bit 12 x \<le> x"
    by (simp add: word_le_nat_alt unat_take_bit_12)
  then have "unat (x - take_bit 12 x) = unat x - unat (take_bit 12 x)"
    by (simp add: unat_sub)
  moreover have "x AND NOT 0xFFF = x - take_bit 12 x"
    using page_split [of x] by (metis add_diff_cancel_right')
  ultimately show ?thesis by (simp add: unat_take_bit_12)
qed
lemma unat_drop_bit_u64: "unat (drop_bit n (x :: u64)) = unat x div 2 ^ n"
proof -
  have "unat (drop_bit n x) = drop_bit n (unat x)" by (rule unat_drop_bit_eq)
  then show ?thesis by (simp add: drop_bit_eq_div)
qed

lemma unat_take_bit_u64: "unat (take_bit n (x :: u64)) = unat x mod 2 ^ n"
proof -
  have "unat (take_bit n x) = take_bit n (unat x)" by (rule unsigned_take_bit_eq)
  then show ?thesis by (simp add: take_bit_eq_mod)
qed

lemma div_add_le: "0 < m \<Longrightarrow> (a + b) div m \<le> a div m + b div m + (1 :: nat)"
proof -
  assume m: "0 < m"
  then have "a mod m + b mod m < 2 * m"
    using mod_less_divisor [OF m, of a] mod_less_divisor [OF m, of b] by linarith
  then have "(a mod m + b mod m) div m < 2" by (rule less_mult_imp_div_less)
  moreover have "(a + b) div m = a div m + b div m + (a mod m + b mod m) div m"
    by (rule div_add1_eq)
  ultimately show ?thesis by linarith
qed

lemma unat_of_nat_u32: "n < 2 ^ 32 \<Longrightarrow> unat (of_nat n :: u32) = n"
  by (simp add: unsigned_of_nat take_bit_nat_eq_self)

lemma unat_ucast_u32: "unat (ucast (x :: u32) :: u64) = unat x"
proof -
  have "unat (ucast x :: u64) = take_bit 64 (unat x)" by (simp add: unsigned_ucast_eq)
  also have "unat x < 2 ^ 32" using unsigned_less [of x] by simp
  then have "take_bit 64 (unat x) = unat x" by (simp add: take_bit_nat_eq_self)
  finally show ?thesis .
qed

lemma unat_ucast_u8: "unat (ucast (x :: 'w :: len word) :: u8) = unat x mod 256"
proof -
  have "unat (ucast x :: u8) = take_bit 8 (unat x)" by (simp add: unsigned_ucast_eq)
  then show ?thesis by (simp add: take_bit_nat_def)
qed

lemma word_eq_of_unat: "unat (w :: 'w :: len word) = n \<Longrightarrow> w = of_nat n"
  by (drule sym) simp

lemma int_to_u64_of_nat: "n < 2 ^ 31 \<Longrightarrow> int_to_u64 (of_nat n) = of_nat n"
proof -
  assume n: "n < 2 ^ 31"
  have "sint (of_nat n :: s32) = signed_take_bit 31 (int n)"
    by (simp add: signed_of_nat)
  also have "\<dots> = int n"
    using n by (intro signed_take_bit_int_eq_self) simp_all
  finally have "sint (of_nat n :: s32) = int n" .
  then show ?thesis by (simp add: int_to_u64_def scast_eq)
qed

lemma find_SomeD: "find P xs = Some x \<Longrightarrow> x \<in> set xs \<and> P x"
  by (auto simp: find_Some_iff)

lemma find_ex: "\<exists>x\<in>set xs. P x \<Longrightarrow> \<exists>x. find P xs = Some x"
  by (metis find_None_iff not_None_eq)

section \<open>Sub-ranges\<close>

lemma unat_add_le: "unat (u + v :: 'w :: len word) \<le> unat u + unat v"
  by (simp add: unat_word_ariths)

lemma in_range_sub: "in_range x (a + d) n \<Longrightarrow> unat d + n \<le> k \<Longrightarrow> in_range x a k"
  using unat_add_le [of "x - (a + d)" d] by (simp add: in_range_def)

lemma separate_not_in_range: "separate a n b k \<Longrightarrow> in_range x b k \<Longrightarrow> \<not> in_range x a n"
  using separate_disjoint separate_sym by blast

text \<open>Ranges given by natural-number addresses below the end of the address space.\<close>

lemma separate_nat:
  assumes "A + n \<le> B" and "B + k \<le> 2 ^ 64" and "B < 2 ^ 64" and "A < B"
  shows "separate (of_nat A) n (of_nat B) k"
proof -
  have "A < 2 ^ 64" and "B < 2 ^ 64" using assms by simp_all
  then have "unat (of_nat A :: u64) = A" and "unat (of_nat B :: u64) = B"
    by (simp_all add: unat_of_nat_u64)
  then show ?thesis
    using assms by (auto simp: separate_def unat_sub_if')
qed

lemma in_range_iff:
  assumes "unat a + n \<le> 2 ^ 64"
  shows "in_range x a n \<longleftrightarrow> unat a \<le> unat x \<and> unat x < unat a + n"
proof (cases "unat a \<le> unat x")
  case True
  then have "unat (x - a) = unat x - unat a" by (simp add: unat_sub_if')
  then show ?thesis using True by (auto simp: in_range_def)
next
  case False
  then have "unat (x - a) = 2 ^ 64 + unat x - unat a"
    using unat_less_2p64 [of a] by (simp add: unat_sub_if')
  then show ?thesis using False assms by (auto simp: in_range_def)
qed

end
