(* ===== verification/ByteMemory.thy ===== *)
theory ByteMemory
  imports Prelude
begin

text \<open>
  The flat byte memory the kernel's raw pointers go through, the little-endian 16-, 32- and
  64-bit accesses the compiler emits for it, and the routines of \<open>kernel/utils/mem.c\<close>:
  \<open>strlen\<close>, \<open>strcmp\<close>, \<open>memmove\<close> and \<open>memset\<close>. The loops are the code's own loops;
  the lemmas give each one its closed form, which the other components use.
\<close>

type_synonym memory = "u64 \<Rightarrow> u8"

section \<open>Little-endian accesses\<close>

primrec load_le :: "nat \<Rightarrow> memory \<Rightarrow> u64 \<Rightarrow> 'w :: len word" where
  "load_le 0 m a = 0"
| "load_le (Suc n) m a = ucast (m a) OR push_bit 8 (load_le n m (a + 1))"

primrec store_le :: "nat \<Rightarrow> memory \<Rightarrow> u64 \<Rightarrow> 'w :: len word \<Rightarrow> memory" where
  "store_le 0 m a w = m"
| "store_le (Suc n) m a w = (store_le n m (a + 1) (drop_bit 8 w))(a := ucast w)"

text \<open>Unfolding an access of a literal size, for evaluation.\<close>

lemma load_le_numeral [mem_eval]:
  "load_le (numeral k) m a = ucast (m a) OR push_bit 8 (load_le (pred_numeral k) m (a + 1))"
  by (simp add: numeral_eq_Suc)

lemma store_le_numeral [mem_eval]:
  "store_le (numeral k) m a w = (store_le (pred_numeral k) m (a + 1) (drop_bit 8 w))(a := ucast w)"
  by (simp add: numeral_eq_Suc)

definition load16 :: "memory \<Rightarrow> u64 \<Rightarrow> u16" where
  "load16 m a = load_le 2 m a"

definition load32 :: "memory \<Rightarrow> u64 \<Rightarrow> u32" where
  "load32 m a = load_le 4 m a"

definition load64 :: "memory \<Rightarrow> u64 \<Rightarrow> u64" where
  "load64 m a = load_le 8 m a"

definition store32 :: "memory \<Rightarrow> u64 \<Rightarrow> u32 \<Rightarrow> memory" where
  "store32 m a w = store_le 4 m a w"

definition store64 :: "memory \<Rightarrow> u64 \<Rightarrow> u64 \<Rightarrow> memory" where
  "store64 m a w = store_le 8 m a w"

lemma load_le_cong:
  "(\<And>x. in_range x a n \<Longrightarrow> m x = m' x) \<Longrightarrow> load_le n m a = load_le n m' a"
  by (induction n arbitrary: a) (simp_all add: in_range_Suc)

lemma store_le_outside: "\<not> in_range x a n \<Longrightarrow> store_le n m a w x = m x"
  by (induction n arbitrary: a w) (simp_all add: in_range_Suc)

lemma take_bit_8_Suc:
  "take_bit (8 * Suc n) (w :: 'w :: len word) =
     (take_bit 8 w) OR push_bit 8 (take_bit (8 * n) (drop_bit 8 w))"
  by (rule bit_word_eqI)
    (auto simp: bit_take_bit_iff bit_or_iff bit_push_bit_iff bit_drop_bit_eq)

lemma ucast_u8: "ucast (ucast (w :: 'w :: len word) :: u8) = take_bit 8 w"
  by (rule bit_word_eqI) (auto simp: bit_ucast_iff bit_take_bit_iff dest: bit_imp_le_length)

lemma load_store_le:
  "n < 2 ^ 64 \<Longrightarrow>
     load_le n (store_le n m a (w :: 'w :: len word)) a = take_bit (8 * n) w"
proof (induction n arbitrary: a w)
  case 0
  then show ?case by simp
next
  case (Suc n)
  have "load_le n ((store_le n m (a + 1) (drop_bit 8 w))(a := ucast w)) (a + 1) =
      load_le n (store_le n m (a + 1) (drop_bit 8 w)) (a + 1)"
    using Suc.prems by (intro load_le_cong) (auto simp: in_range_next)
  also have "\<dots> = take_bit (8 * n) (drop_bit 8 w)"
    using Suc by simp
  finally show ?case
    by (simp only: load_le.simps store_le.simps fun_upd_same ucast_u8 take_bit_8_Suc)
qed

lemma load_store_le_full:
  fixes w :: "'w :: len word"
  assumes "LENGTH('w) \<le> 8 * n" and "n < 2 ^ 64"
  shows "load_le n (store_le n m a w) a = w"
  using assms by (simp add: load_store_le take_bit_word_eq_self)

lemma load_store_le_separate:
  assumes "separate b k a n"
  shows "load_le n (store_le k m b v) a = load_le n m a"
  using assms separate_disjoint [of a n b k]
  by (intro load_le_cong) (auto simp: store_le_outside separate_sym)

section \<open>The contract of a word access\<close>

text \<open>
  What the components rely on of an access of \<open>n\<close> bytes: what is stored is what is loaded,
  a load depends on its own bytes only, and a store changes its own bytes only.
\<close>

locale word_access =
  fixes ld :: "memory \<Rightarrow> u64 \<Rightarrow> 'w"
    and st :: "memory \<Rightarrow> u64 \<Rightarrow> 'w \<Rightarrow> memory"
    and nbytes :: nat
  assumes ld_st [simp]: "ld (st m a w) a = w"
    and ld_cong: "(\<And>x. in_range x a nbytes \<Longrightarrow> m x = m' x) \<Longrightarrow> ld m a = ld m' a"
    and st_outside: "\<not> in_range x a nbytes \<Longrightarrow> st m a w x = m x"
begin

lemma ld_st_separate:
  assumes "separate b nbytes a nbytes"
  shows "ld (st m b w) a = ld m a"
  using assms separate_disjoint [of a nbytes b nbytes]
  by (intro ld_cong) (auto simp: st_outside separate_sym)

lemma ld_upd_outside:
  assumes "\<And>x. in_range x a nbytes \<Longrightarrow> \<not> in_range x b k"
    and "\<And>x. \<not> in_range x b k \<Longrightarrow> m' x = m x"
  shows "ld m' a = ld m a"
  using assms by (intro ld_cong) simp

lemma st_separate_other:
  assumes "separate b nbytes a k" and "in_range x a k"
  shows "st m b w x = m x"
  using assms separate_disjoint [of a k b nbytes x]
  by (auto simp: st_outside separate_sym)

end

interpretation acc64: word_access load64 store64 8
  by unfold_locales
    (auto simp: load64_def store64_def load_store_le_full store_le_outside intro: load_le_cong)

interpretation acc32: word_access load32 store32 4
  by unfold_locales
    (auto simp: load32_def store32_def load_store_le_full store_le_outside intro: load_le_cong)

section \<open>memset\<close>

text \<open>\<open>dst\<close> walks up from \<open>str\<close>; every byte gets the low byte of \<open>c\<close>.\<close>

function memset_loop :: "memory \<Rightarrow> u64 \<Rightarrow> s32 \<Rightarrow> nat \<Rightarrow> nat \<Rightarrow> memory" where
  "memset_loop m dst c i n =
     (if i < n then memset_loop (m(dst + of_nat i := ucast c)) dst c (Suc i) n else m)"
  by pat_completeness auto
termination
  by (relation "measure (\<lambda>(m, dst, c, i, n). n - i)") auto

declare memset_loop.simps [simp del]

definition memset :: "memory \<Rightarrow> u64 \<Rightarrow> s32 \<Rightarrow> u64 \<Rightarrow> memory" where
  "memset m str c n = memset_loop m str c 0 (unat n)"

lemma in_range_unat: "in_range x a n \<Longrightarrow> x = a + of_nat (unat (x - a))"
  by simp

lemma memset_loop_eq:
  "n < 2 ^ 64 \<Longrightarrow> memset_loop m dst c i n =
     (\<lambda>x. if i \<le> unat (x - dst) \<and> unat (x - dst) < n then ucast c else m x)"
proof (induction m dst c i n rule: memset_loop.induct)
  case (1 m dst c i n)
  show ?case
  proof (cases "i < n")
    case True
    have eq: "x = dst + of_nat i \<longleftrightarrow> unat (x - dst) = i" for x
      using True "1.prems" by (intro offset_eq_iff) simp
    have "memset_loop m dst c i n = memset_loop (m(dst + of_nat i := ucast c)) dst c (Suc i) n"
      using True by (subst memset_loop.simps) simp
    also have "\<dots> = (\<lambda>x. if Suc i \<le> unat (x - dst) \<and> unat (x - dst) < n then ucast c
        else (m(dst + of_nat i := ucast c)) x)"
      by (rule "1.IH" [OF True "1.prems"])
    finally show ?thesis
      using True by (auto simp: fun_eq_iff eq)
  next
    case False
    then show ?thesis by (subst memset_loop.simps) (auto simp: fun_eq_iff)
  qed
qed

lemma memset_apply [mem_simps]:
  "memset m a c n x = (if in_range x a (unat n) then ucast c else m x)"
  using unat_less_2p64 [of n] by (simp add: memset_def memset_loop_eq in_range_def)

section \<open>memmove\<close>

text \<open>Ascending copy when the destination lies below the source, descending copy otherwise.\<close>

function memmove_up :: "memory \<Rightarrow> u64 \<Rightarrow> u64 \<Rightarrow> nat \<Rightarrow> nat \<Rightarrow> memory" where
  "memmove_up m dst src i n =
     (if i < n then memmove_up (m(dst + of_nat i := m (src + of_nat i))) dst src (Suc i) n
      else m)"
  by pat_completeness auto
termination
  by (relation "measure (\<lambda>(m, dst, src, i, n). n - i)") auto

declare memmove_up.simps [simp del]

primrec memmove_down :: "memory \<Rightarrow> u64 \<Rightarrow> u64 \<Rightarrow> nat \<Rightarrow> memory" where
  "memmove_down m dst src 0 = m"
| "memmove_down m dst src (Suc i) =
     memmove_down (m(dst + of_nat i := m (src + of_nat i))) dst src i"

definition memmove :: "memory \<Rightarrow> u64 \<Rightarrow> u64 \<Rightarrow> u64 \<Rightarrow> memory" where
  "memmove m dst src sz =
     (if dst < src then memmove_up m dst src 0 (unat sz)
      else memmove_down m dst src (unat sz))"

lemma memmove_up_eq:
  assumes "dst < src" and "unat src + n \<le> 2 ^ 64"
  shows "memmove_up m dst src i n =
    (\<lambda>x. if i \<le> unat (x - dst) \<and> unat (x - dst) < n then m (src + (x - dst)) else m x)"
  using assms
proof (induction m dst src i n rule: memmove_up.induct)
  case (1 m dst src i n)
  show ?case
  proof (cases "i < n")
    case True
    let ?m = "m(dst + of_nat i := m (src + of_nat i))"
    have lt: "unat dst < unat src" using "1.prems" by (simp add: word_less_nat_alt)
    have eq: "x = dst + of_nat i \<longleftrightarrow> unat (x - dst) = i" for x
      using True "1.prems" by (intro offset_eq_iff) simp
    have keep: "?m (src + (x - dst)) = m (src + (x - dst))"
      if "i < unat (x - dst)" and "unat (x - dst) < n" for x
    proof -
      have "unat (src + (x - dst)) = unat src + unat (x - dst)"
        and "unat (dst + of_nat i) = unat dst + i"
        using that True lt "1.prems"
        by (auto intro!: unat_add_no_wrap_word unat_add_no_wrap)
      with that lt have "src + (x - dst) \<noteq> dst + of_nat i"
        by (metis add_less_mono nat_neq_iff)
      then show ?thesis by simp
    qed
    have "memmove_up m dst src i n = memmove_up ?m dst src (Suc i) n"
      using True by (subst memmove_up.simps) simp
    also have "\<dots> = (\<lambda>x. if Suc i \<le> unat (x - dst) \<and> unat (x - dst) < n
        then ?m (src + (x - dst)) else ?m x)"
      by (rule "1.IH" [OF True "1.prems"])
    also have "\<dots> = (\<lambda>x. if i \<le> unat (x - dst) \<and> unat (x - dst) < n
        then m (src + (x - dst)) else m x)"
    proof
      fix x
      show "(if Suc i \<le> unat (x - dst) \<and> unat (x - dst) < n
          then ?m (src + (x - dst)) else ?m x) =
        (if i \<le> unat (x - dst) \<and> unat (x - dst) < n then m (src + (x - dst)) else m x)"
        using True keep [of x] eq [of x] by (cases "unat (x - dst) = i") auto
    qed
    finally show ?thesis .
  next
    case False
    then show ?thesis by (subst memmove_up.simps) (auto simp: fun_eq_iff)
  qed
qed

lemma memmove_down_eq:
  assumes "src \<le> dst" and "unat dst + n \<le> 2 ^ 64"
  shows "memmove_down m dst src n =
    (\<lambda>x. if unat (x - dst) < n then m (src + (x - dst)) else m x)"
  using assms(2)
proof (induction n arbitrary: m)
  case 0
  then show ?case by simp
next
  case (Suc n)
  let ?m = "m(dst + of_nat n := m (src + of_nat n))"
  have le: "unat src \<le> unat dst" using assms(1) by (simp add: word_le_nat_alt)
  have eq: "x = dst + of_nat n \<longleftrightarrow> unat (x - dst) = n" for x
    using Suc.prems by (intro offset_eq_iff) simp
  have keep: "?m (src + (x - dst)) = m (src + (x - dst))" if "unat (x - dst) < n" for x
  proof -
    have "unat (src + (x - dst)) = unat src + unat (x - dst)"
      and "unat (dst + of_nat n) = unat dst + n"
      using that le Suc.prems
      by (auto intro!: unat_add_no_wrap_word unat_add_no_wrap)
    with that le have "src + (x - dst) \<noteq> dst + of_nat n"
      by (metis add_le_less_mono nat_neq_iff)
    then show ?thesis by simp
  qed
  have "memmove_down m dst src (Suc n) =
      (\<lambda>x. if unat (x - dst) < n then ?m (src + (x - dst)) else ?m x)"
    using Suc by simp
  also have "\<dots> = (\<lambda>x. if unat (x - dst) < Suc n then m (src + (x - dst)) else m x)"
  proof
    fix x
    show "(if unat (x - dst) < n then ?m (src + (x - dst)) else ?m x) =
        (if unat (x - dst) < Suc n then m (src + (x - dst)) else m x)"
      using keep [of x] eq [of x] by (cases "unat (x - dst) = n") auto
  qed
  finally show ?case .
qed

lemma memmove_apply [mem_simps]:
  assumes "unat src + unat n \<le> 2 ^ 64" and "unat dst + unat n \<le> 2 ^ 64"
  shows "memmove m dst src n x =
    (if in_range x dst (unat n) then m (src + (x - dst)) else m x)"
  using assms by (simp add: memmove_def memmove_up_eq memmove_down_eq in_range_def)

section \<open>strcmp and strlen\<close>

text \<open>
  A \<open>char\<close> pointer is read through its index: a \<open>reader\<close> gives the byte at each offset,
  from memory (\<open>bytes_at\<close>) or from an array of the kernel image (\<open>bytes_of\<close>, zero past the
  array's end).
\<close>

type_synonym reader = "nat \<Rightarrow> u8"

definition bytes_at :: "memory \<Rightarrow> u64 \<Rightarrow> reader" where
  "bytes_at m a = (\<lambda>i. m (a + of_nat i))"

definition bytes_of :: "u8 list \<Rightarrow> reader" where
  "bytes_of bs = (\<lambda>i. if i < length bs then bs ! i else 0)"

definition chars :: "string \<Rightarrow> u8 list" where
  "chars s = map of_char s"

function strcmp_loop :: "reader \<Rightarrow> reader \<Rightarrow> nat \<Rightarrow> nat \<Rightarrow> u8" where
  "strcmp_loop str1 str2 n len =
     (if n < len then (if str1 n \<noteq> str2 n then 1 else strcmp_loop str1 str2 (Suc n) len)
      else 0)"
  by pat_completeness auto
termination
  by (relation "measure (\<lambda>(s1, s2, n, len). len - n)") auto

declare strcmp_loop.simps [simp del]

definition strcmp :: "reader \<Rightarrow> reader \<Rightarrow> u64 \<Rightarrow> u8" where
  "strcmp str1 str2 len = strcmp_loop str1 str2 0 (unat len)"

lemma strcmp_loop_eq:
  "strcmp_loop s1 s2 n len = (if \<forall>i. n \<le> i \<and> i < len \<longrightarrow> s1 i = s2 i then 0 else 1)"
proof (induction s1 s2 n len rule: strcmp_loop.induct)
  case (1 s1 s2 n len)
  have split: "(\<forall>i. n \<le> i \<and> i < len \<longrightarrow> s1 i = s2 i) \<longleftrightarrow>
      s1 n = s2 n \<and> (\<forall>i. Suc n \<le> i \<and> i < len \<longrightarrow> s1 i = s2 i)" if "n < len"
    using that by (auto simp: Suc_le_eq) (metis le_neq_implies_less)
  show ?case
  proof (cases "n < len \<and> s1 n = s2 n")
    case True
    then show ?thesis
      using "1.IH" split by (subst strcmp_loop.simps) simp
  next
    case False
    then show ?thesis by (subst strcmp_loop.simps) auto
  qed
qed

lemma strcmp_eq: "strcmp s1 s2 len = (if \<forall>i < unat len. s1 i = s2 i then 0 else 1)"
  by (simp add: strcmp_def strcmp_loop_eq)

text \<open>
  \<open>strlen\<close> runs until it meets a zero byte, which no bound enforces: \<open>None\<close> is a scan that
  never ends. Its counter is a C \<open>int\<close>.
\<close>

partial_function (option) strlen_loop :: "reader \<Rightarrow> nat \<Rightarrow> s32 \<Rightarrow> u32 option" where
  "strlen_loop str i n = (if str i = 0 then Some n else strlen_loop str (Suc i) (n + 1))"

definition strlen :: "reader \<Rightarrow> u32 option" where
  "strlen str = strlen_loop str 0 0"

text \<open>
  \<open>mem.h\<close> declares \<open>strlen\<close> with result \<open>uint8_t\<close>, while \<open>mem.c\<close> defines it with result
  \<open>uint32_t\<close>: every caller outside \<open>mem.c\<close> reads the low byte of the result only.
\<close>

definition strlen_declared :: "reader \<Rightarrow> u8 option" where
  "strlen_declared str = map_option ucast (strlen str)"

lemma strlen_loop_found:
  "(\<forall>j. i \<le> j \<and> j < i + k \<longrightarrow> str j \<noteq> 0) \<Longrightarrow> str (i + k) = 0 \<Longrightarrow>
     strlen_loop str i n = Some (n + of_nat k)"
proof (induction k arbitrary: i n)
  case 0
  then show ?case by (simp add: strlen_loop.simps)
next
  case (Suc k)
  then have "strlen_loop str (Suc i) (n + 1) = Some (n + 1 + of_nat k)"
    by (intro Suc.IH) auto
  moreover have "str i \<noteq> 0" using Suc.prems by auto
  ultimately show ?case by (subst strlen_loop.simps) (simp add: ac_simps)
qed

lemma strlen_loop_terminates_iff: "strlen_loop str i n = Some r \<Longrightarrow> \<exists>j\<ge>i. str j = 0"
proof -
  assume ret: "strlen_loop str i n = Some r"
  show ?thesis
  proof (rule strlen_loop.raw_induct [where P = "\<lambda>str i n r. \<exists>j\<ge>i. str j = 0", OF _ ret])
    fix f :: "reader \<Rightarrow> nat \<Rightarrow> s32 \<Rightarrow> u32 option" and str :: reader
      and i :: nat and n :: s32 and r :: u32
    assume IH: "\<And>str i n r. f str i n = Some r \<Longrightarrow> \<exists>j\<ge>i. str j = 0"
      and eq: "(if str i = 0 then Some n else f str (Suc i) (n + 1)) = Some r"
    show "\<exists>j\<ge>i. str j = 0"
    proof (cases "str i = 0")
      case True
      then show ?thesis by auto
    next
      case False
      with eq have "f str (Suc i) (n + 1) = Some r" by simp
      from IH [OF this] show ?thesis using Suc_leD by blast
    qed
  qed
qed

lemma strlen_found:
  "(\<forall>j<k. str j \<noteq> 0) \<Longrightarrow> str k = 0 \<Longrightarrow> strlen str = Some (of_nat k)"
  unfolding strlen_def using strlen_loop_found [of 0 k str 0] by simp

lemma strlen_None_iff: "strlen str = None \<longleftrightarrow> (\<forall>j. str j \<noteq> 0)"
proof
  assume none: "strlen str = None"
  show "\<forall>j. str j \<noteq> 0"
  proof (rule ccontr)
    assume "\<not> (\<forall>j. str j \<noteq> 0)"
    then have "\<exists>k. str k = 0" by simp
    then have "strlen str = Some (of_nat (LEAST k. str k = 0))"
      by (intro strlen_found) (auto intro: LeastI dest: not_less_Least)
    with none show False by simp
  qed
next
  assume "\<forall>j. str j \<noteq> 0"
  then show "strlen str = None"
    using strlen_loop_terminates_iff [of str 0 0] by (cases "strlen str") (auto simp: strlen_def)
qed

section \<open>Bits of an access\<close>

lemma bit_load_le:
  "bit (load_le n m a :: 'w :: len word) i \<longleftrightarrow>
     i < LENGTH('w) \<and> i div 8 < n \<and> bit (m (a + of_nat (i div 8))) (i mod 8)"
proof (induction n arbitrary: a i)
  case 0
  then show ?case by simp
next
  case (Suc n)
  show ?case
  proof (cases "i < 8")
    case True
    then show ?thesis by (auto simp: bit_or_iff bit_push_bit_iff bit_ucast_iff)
  next
    case False
    then obtain j where i: "i = j + 8" by (metis add.commute le_Suc_ex not_le)
    have "\<not> bit (m a) (j + 8)" by (auto dest: bit_imp_le_length)
    moreover have "(j + 8) div 8 = Suc (j div 8)" by simp
    ultimately show ?thesis
      using Suc [of "a + 1" j] unfolding i
      by (auto simp: bit_or_iff bit_push_bit_iff bit_ucast_iff add.assoc)
  qed
qed

lemma load64_halves:
  "load64 m a = ucast (load32 m a) OR push_bit 32 (ucast (load32 m (a + 4)))"
proof (rule bit_word_eqI)
  fix i assume i: "i < LENGTH(64)"
  show "bit (load64 m a) i = bit (ucast (load32 m a) OR push_bit 32 (ucast (load32 m (a + 4))) :: u64) i"
  proof (cases "i < 32")
    case True
    then show ?thesis
      by (simp add: load64_def load32_def bit_or_iff bit_push_bit_iff bit_ucast_iff bit_load_le
          less_mult_imp_div_less)
  next
    case False
    then obtain j where j: "i = j + 32" by (metis add.commute le_Suc_ex not_le)
    have d: "(j + 32) div 8 = j div 8 + 4" "(j + 32) mod 8 = j mod 8" by presburger+
    show ?thesis
      using i unfolding j load64_def load32_def
      by (simp add: bit_or_iff bit_push_bit_iff bit_ucast_iff bit_load_le d less_mult_imp_div_less
          add.commute [of 4] add.assoc)
  qed
qed

end
