(* ===== verification/PortIO.thy ===== *)
theory PortIO
  imports ByteMemory
begin

text \<open>
  Port input and output, \<open>kernel/utils/portio.c\<close>, and the serial log of
  \<open>kernel/interrupts/interrupts.c\<close>. The devices behind the ports are not part of the
  repository: a \<open>device\<close> is a parameter that answers a read of a port, given everything that
  was written to and read from the ports before, newest first.
\<close>

datatype port_event = Out u16 u8 | In8 u16 u8 | In16 u16 u16

type_synonym trace = "port_event list"
type_synonym device = "trace \<Rightarrow> u16 \<Rightarrow> u16"

definition outb :: "u16 \<Rightarrow> u8 \<Rightarrow> trace \<Rightarrow> trace" where
  "outb port val h = Out port val # h"

definition inb :: "device \<Rightarrow> u16 \<Rightarrow> trace \<Rightarrow> u8 \<times> trace" where
  "inb dev port h = (let val = ucast (dev h port) in (val, In8 port val # h))"

definition inw :: "device \<Rightarrow> u16 \<Rightarrow> trace \<Rightarrow> u16 \<times> trace" where
  "inw dev port h = (let val = dev h port in (val, In16 port val # h))"

text \<open>The loop \<open>while (test (inb (port)));\<close>: \<open>None\<close> when no answer ever ends it.\<close>

partial_function (option) poll_while ::
  "device \<Rightarrow> u16 \<Rightarrow> (u8 \<Rightarrow> bool) \<Rightarrow> trace \<Rightarrow> trace option" where
  "poll_while dev port test h =
     (let (v, h) = inb dev port h in if test v then poll_while dev port test h else Some h)"

text \<open>The message is sent byte by byte to the first serial port, up to its zero byte.\<close>

partial_function (option) log_loop :: "reader \<Rightarrow> nat \<Rightarrow> trace \<Rightarrow> trace option" where
  "log_loop msg i h = (if msg i = 0 then Some h else log_loop msg (Suc i) (outb 0x3F8 (msg i) h))"

definition log_message :: "reader \<Rightarrow> trace \<Rightarrow> trace option" where
  "log_message msg h = log_loop msg 0 h"

section \<open>Polling\<close>

definition poll :: "device \<Rightarrow> u16 \<Rightarrow> trace \<Rightarrow> trace" where
  "poll dev port h = snd (inb dev port h)"

lemma poll_while_step:
  "poll_while dev port test h =
     (if test (ucast (dev h port)) then poll_while dev port test (poll dev port h)
      else Some (poll dev port h))"
  by (subst poll_while.simps) (simp add: inb_def poll_def Let_def)

lemma poll_while_ends:
  "\<not> test (ucast (dev ((poll dev port ^^ n) h) port)) \<Longrightarrow>
     \<exists>k \<le> n. poll_while dev port test h = Some ((poll dev port ^^ Suc k) h)"
proof (induction n arbitrary: h)
  case 0
  then show ?case by (subst poll_while_step) simp
next
  case (Suc n)
  show ?case
  proof (cases "test (ucast (dev h port))")
    case True
    have "\<not> test (ucast (dev ((poll dev port ^^ n) (poll dev port h)) port))"
      using Suc.prems by (simp add: funpow_swap1)
    then obtain k where "k \<le> n"
      "poll_while dev port test (poll dev port h) = Some ((poll dev port ^^ Suc k) (poll dev port h))"
      using Suc.IH by blast
    then show ?thesis
      using True by (subst poll_while_step) (auto simp: funpow_swap1 intro!: exI [of _ "Suc k"])
  next
    case False
    then show ?thesis by (subst poll_while_step) auto
  qed
qed

lemma poll_while_never:
  assumes "\<And>h. test (ucast (dev h port))"
  shows "poll_while dev port test h = None"
proof -
  have "\<exists>g. \<not> test (ucast (dev g port))" if "poll_while dev port test h = Some r" for r
  proof (rule poll_while.raw_induct
      [where P = "\<lambda>dev port test h r. \<exists>g. \<not> test (ucast (dev g port))", OF _ that])
    fix f and dev :: device and port :: u16 and test :: "u8 \<Rightarrow> bool" and h r :: trace
    assume IH: "\<And>dev port test h r. f dev port test h = Some r \<Longrightarrow> \<exists>g. \<not> test (ucast (dev g port))"
      and eq: "(let (v, h) = inb dev port h in if test v then f dev port test h else Some h) = Some r"
    show "\<exists>g. \<not> test (ucast (dev g port))"
    proof (cases "test (ucast (dev h port))")
      case True
      with eq have "f dev port test (poll dev port h) = Some r"
        by (simp add: inb_def poll_def Let_def)
      then show ?thesis by (rule IH)
    qed auto
  qed
  then show ?thesis using assms by (cases "poll_while dev port test h") auto
qed

section \<open>The log\<close>

lemma log_loop_eq:
  "(\<forall>j<k. msg (i + j) \<noteq> 0) \<Longrightarrow> msg (i + k) = 0 \<Longrightarrow>
     log_loop msg i h = Some (rev (map (\<lambda>j. Out 0x3F8 (msg (i + j))) [0..<k]) @ h)"
proof (induction k arbitrary: i h)
  case 0
  then show ?case by (simp add: log_loop.simps)
next
  case (Suc k)
  have "log_loop msg (Suc i) (outb 0x3F8 (msg i) h) =
      Some (rev (map (\<lambda>j. Out 0x3F8 (msg (Suc i + j))) [0..<k]) @ outb 0x3F8 (msg i) h)"
    using Suc.prems by (intro Suc.IH) auto
  moreover have "msg i \<noteq> 0" using Suc.prems by auto
  moreover have "map (\<lambda>j. Out 0x3F8 (msg (i + j))) [0..<Suc k] =
      Out 0x3F8 (msg i) # map (\<lambda>j. Out 0x3F8 (msg (Suc i + j))) [0..<k]"
    by (subst upt_conv_Cons) (auto simp: map_Suc_upt [symmetric] simp del: upt_Suc)
  ultimately show ?case
    by (subst log_loop.simps) (simp add: outb_def del: upt_Suc)
qed

end
