(* ===== verification/Ata.thy ===== *)
theory Ata
  imports PortIO
begin

text \<open>
  Reading one sector from the disk with programmed input and output,
  \<open>kernel/storage/ata_pio.c\<close> and the port numbers of \<open>kernel/include/ata_pio.h\<close>. The drive is
  the \<open>device\<close> parameter; what the kernel relies on of it is the predicate \<open>ata_drive\<close>. The
  512 bytes the code stores behind its \<open>data\<close> pointer are the list in the result.
\<close>

definition DATA :: u16 where "DATA = 0x1F0"
definition FEATURES :: u16 where "FEATURES = 0x1F1"
definition SECTOR_COUNT :: u16 where "SECTOR_COUNT = 0x1F2"
definition LBALOW :: u16 where "LBALOW = 0x1F3"
definition LBAMID :: u16 where "LBAMID = 0x1F4"
definition LBAHIGH :: u16 where "LBAHIGH = 0x1F5"
definition HEAD :: u16 where "HEAD = 0x1F6"
definition STATUS :: u16 where "STATUS = 0x1F7"
definition COMMAND :: u16 where "COMMAND = 0x1F7"

lemmas port_defs = DATA_def FEATURES_def SECTOR_COUNT_def LBALOW_def LBAMID_def LBAHIGH_def
  HEAD_def STATUS_def COMMAND_def

section \<open>The driver\<close>

text \<open>Each 16-bit word becomes two bytes, low byte first.\<close>

primrec read_words :: "device \<Rightarrow> nat \<Rightarrow> trace \<Rightarrow> u8 list \<times> trace" where
  "read_words dev 0 h = ([], h)"
| "read_words dev (Suc k) h =
     (let (val, h) = inw dev DATA h;
          (bs, h) = read_words dev k h
      in (ucast (val AND 0xFF) # ucast (drop_bit 8 (val AND 0xFF00)) # bs, h))"

definition issue_read :: "u32 \<Rightarrow> trace \<Rightarrow> trace" where
  "issue_read lba h =
     (let h = outb HEAD (ucast (0xE0 OR (drop_bit 24 lba AND 0xF))) h;
          h = outb SECTOR_COUNT 1 h;
          h = outb LBALOW (ucast (lba AND 0xFF)) h;
          h = outb LBAMID (ucast (drop_bit 8 lba AND 0xFF)) h;
          h = outb LBAHIGH (ucast (drop_bit 16 lba AND 0xFF)) h
      in outb COMMAND 0x20 h)"

definition read_sector :: "device \<Rightarrow> u32 \<Rightarrow> trace \<Rightarrow> (u8 list \<times> trace) option" where
  "read_sector dev lba h =
     (case poll_while dev STATUS (\<lambda>v. v AND 0x80 \<noteq> 0) (issue_read lba h) of
        None \<Rightarrow> None
      | Some h \<Rightarrow>
          (case poll_while dev STATUS (\<lambda>v. v AND 0x08 = 0) h of
             None \<Rightarrow> None
           | Some h \<Rightarrow>
               (let (data, h) = read_words dev 256 h in Some (data, outb FEATURES 0 h))))"

section \<open>What a drive does\<close>

text \<open>The last value written to a register.\<close>

fun reg :: "u16 \<Rightarrow> trace \<Rightarrow> u8" where
  "reg p [] = 0"
| "reg p (Out q v # h) = (if p = q then v else reg p h)"
| "reg p (_ # h) = reg p h"

text \<open>The 28-bit sector address the registers select.\<close>

definition selected :: "trace \<Rightarrow> u32" where
  "selected h = ucast (reg LBALOW h) OR push_bit 8 (ucast (reg LBAMID h)) OR
     push_bit 16 (ucast (reg LBAHIGH h)) OR push_bit 24 (ucast (reg HEAD h) AND 0xF)"

text \<open>
  How many data words were read since the last command, if that was READ SECTORS for one
  sector and no register was written since.
\<close>

fun words_read :: "trace \<Rightarrow> nat option" where
  "words_read [] = None"
| "words_read (Out p v # h) =
     (if p = COMMAND \<and> v = 0x20 \<and> reg SECTOR_COUNT h = 1 then Some 0 else None)"
| "words_read (In8 p v # h) = words_read h"
| "words_read (In16 p v # h) = (if p = DATA then map_option Suc (words_read h) else words_read h)"

definition sector_word :: "u8 list \<Rightarrow> nat \<Rightarrow> u16" where
  "sector_word d k = ucast (d ! (2 * k)) OR push_bit 8 (ucast (d ! Suc (2 * k)))"

text \<open>
  A drive holding the sectors \<open>disk\<close>: after a read command it becomes ready, not busy and
  with data requested, after finitely many polls and stays so, and it then hands out the
  selected sector's 256 words in order.
\<close>

definition ata_drive :: "device \<Rightarrow> (u32 \<Rightarrow> u8 list) \<Rightarrow> bool" where
  "ata_drive dev disk \<longleftrightarrow>
     (\<forall>lba. length (disk lba) = 512) \<and>
     (\<forall>h k. words_read h = Some k \<longrightarrow> k < 256 \<longrightarrow>
        dev h DATA = sector_word (disk (selected h)) k) \<and>
     (\<forall>h. words_read h = Some 0 \<longrightarrow>
        (\<exists>n. \<forall>j\<ge>n. dev ((poll dev STATUS ^^ j) h) STATUS AND 0x88 = 0x08))"

text \<open>A drive that is ready at once, for any contents.\<close>

definition drive :: "(u32 \<Rightarrow> u8 list) \<Rightarrow> device" where
  "drive disk h port =
     (if port = DATA then
        (case words_read h of Some k \<Rightarrow> sector_word (disk (selected h)) k | None \<Rightarrow> 0)
      else if port = STATUS then 0x48 else 0)"

lemma drive_ok: "(\<And>lba. length (disk lba) = 512) \<Longrightarrow> ata_drive (drive disk) disk"
  by (auto simp: ata_drive_def drive_def port_defs)

section \<open>Reading a sector\<close>

lemma poll_trace:
  "words_read ((poll dev p ^^ n) h) = words_read h" "selected ((poll dev p ^^ n) h) = selected h"
  by (induction n) (simp_all add: poll_def inb_def Let_def selected_def)

lemma selected_In16 [simp]: "selected (In16 p v # h) = selected h"
  by (simp add: selected_def)

lemma issue_read_words: "words_read (issue_read lba h) = Some 0"
  by (simp add: issue_read_def outb_def port_defs)

lemma issue_read_selected: "selected (issue_read lba h) = lba AND 0xFFFFFFF"
proof -
  have m: "(0xFFFFFFF :: u32) = mask 28" "(0xF :: u32) = mask 4" "(0xFF :: u32) = mask 8"
    by (simp_all add: mask_eq_exp_minus_1)
  have 1: "(ucast (ucast (lba AND 0xFF) :: u8) :: u32) = take_bit 8 lba"
    unfolding m by (rule bit_word_eqI) (auto simp: bit_simps)
  have 2: "(ucast (ucast (drop_bit 8 lba AND 0xFF) :: u8) :: u32) = take_bit 8 (drop_bit 8 lba)"
    unfolding m by (rule bit_word_eqI) (auto simp: bit_simps)
  have 3: "(ucast (ucast (drop_bit 16 lba AND 0xFF) :: u8) :: u32) = take_bit 8 (drop_bit 16 lba)"
    unfolding m by (rule bit_word_eqI) (auto simp: bit_simps)
  have 4: "(ucast (ucast (0xE0 OR drop_bit 24 lba AND 0xF) :: u8) :: u32) AND 0xF =
      take_bit 4 (drop_bit 24 lba)"
  proof (rule bit_word_eqI)
    fix n assume n: "n < LENGTH(32)"
    have "\<not> bit (0xE0 :: u32) n" if "n < 4" for n
    proof -
      have "n = 0 \<or> n = 1 \<or> n = 2 \<or> n = 3" using that by auto
      then show ?thesis by auto
    qed
    then show "bit ((ucast (ucast (0xE0 OR drop_bit 24 lba AND 0xF) :: u8) :: u32) AND 0xF) n =
        bit (take_bit 4 (drop_bit 24 lba)) n"
      unfolding m by (auto simp: bit_simps)
  qed
  have "selected (issue_read lba h) =
      take_bit 8 lba OR push_bit 8 (take_bit 8 (drop_bit 8 lba)) OR
      push_bit 16 (take_bit 8 (drop_bit 16 lba)) OR push_bit 24 (take_bit 4 (drop_bit 24 lba))"
    unfolding 1 [symmetric] 2 [symmetric] 3 [symmetric] 4 [symmetric]
    by (simp add: selected_def issue_read_def outb_def port_defs)
  also have "\<dots> = take_bit 28 lba"
  proof (rule bit_word_eqI)
    fix n
    show "bit (take_bit 8 lba OR push_bit 8 (take_bit 8 (drop_bit 8 lba)) OR
        push_bit 16 (take_bit 8 (drop_bit 16 lba)) OR
        push_bit 24 (take_bit 4 (drop_bit 24 lba))) n = bit (take_bit 28 lba) n"
      if "n < LENGTH(32)"
      using that by (cases "24 \<le> n"; cases "16 \<le> n"; cases "8 \<le> n") (auto simp: bit_simps)
  qed
  finally show ?thesis by (simp add: m take_bit_eq_mask)
qed

lemma word_bytes:
  "ucast ((ucast (a :: u8) OR push_bit 8 (ucast (b :: u8)) :: u16) AND 0xFF) = a"
  "ucast (drop_bit 8 ((ucast (a :: u8) OR push_bit 8 (ucast (b :: u8)) :: u16) AND 0xFF00)) = b"
  "ucast (drop_bit 8 (ucast (a :: u8) OR push_bit 8 (ucast (b :: u8)) :: u16) AND 0xFF) = b"
proof -
  have m: "(0xFF :: u16) = mask 8" "(0xFF00 :: u16) = push_bit 8 (mask 8)"
    by (simp_all add: mask_eq_exp_minus_1)
  show "ucast ((ucast (a :: u8) OR push_bit 8 (ucast (b :: u8)) :: u16) AND 0xFF) = a"
    unfolding m by (rule bit_word_eqI) (auto simp: bit_simps)
  show "ucast (drop_bit 8 (ucast (a :: u8) OR push_bit 8 (ucast (b :: u8)) :: u16) AND 0xFF) = b"
    unfolding m by (rule bit_word_eqI) (auto simp: bit_simps dest: bit_imp_le_length)
  show "ucast (drop_bit 8 ((ucast (a :: u8) OR push_bit 8 (ucast (b :: u8)) :: u16) AND 0xFF00)) = b"
    unfolding m by (rule bit_word_eqI) (auto simp: bit_simps dest: bit_imp_le_length)
qed

lemma sector_word_bytes:
  "ucast (sector_word d k AND 0xFF) = d ! (2 * k)"
  "ucast (drop_bit 8 (sector_word d k AND 0xFF00)) = d ! Suc (2 * k)"
  "ucast (drop_bit 8 (sector_word d k) AND 0xFF) = d ! Suc (2 * k)"
  unfolding sector_word_def by (rule word_bytes)+

lemma read_words_sector:
  assumes "ata_drive dev disk" and "words_read h = Some i" and "i + k = 256"
  shows "\<exists>h'. read_words dev k h = (drop (2 * i) (disk (selected h)), h')"
  using assms(2,3)
proof (induction k arbitrary: h i)
  case 0
  then show ?case using assms(1) by (simp add: ata_drive_def)
next
  case (Suc k)
  let ?d = "disk (selected h)" and ?h = "In16 DATA (dev h DATA) # h"
  have len: "length ?d = 512" and val: "dev h DATA = sector_word ?d i"
    using assms(1) Suc.prems by (auto simp: ata_drive_def)
  have "words_read ?h = Some (Suc i)" using Suc.prems by simp
  then obtain h' where "read_words dev k ?h = (drop (2 * Suc i) (disk (selected ?h)), h')"
    using Suc.IH [of ?h "Suc i"] Suc.prems by auto
  then have "read_words dev (Suc k) h = (?d ! (2 * i) # ?d ! Suc (2 * i) # drop (2 * Suc i) ?d, h')"
    by (simp add: inw_def Let_def val sector_word_bytes)
  moreover have "drop (2 * i) ?d = ?d ! (2 * i) # ?d ! Suc (2 * i) # drop (2 * Suc i) ?d"
    using Suc.prems len by (simp add: Cons_nth_drop_Suc)
  ultimately show ?case by simp
qed

lemma ata_ready:
  assumes "ata_drive dev disk" and "words_read h = Some 0"
  shows "\<exists>n. \<forall>j\<ge>n. (ucast (dev ((poll dev STATUS ^^ j) h) STATUS) :: u8) AND 0x80 = 0 \<and>
    (ucast (dev ((poll dev STATUS ^^ j) h) STATUS) :: u8) AND 0x08 \<noteq> 0"
proof -
  have *: "(ucast w :: u8) AND 0x80 = 0 \<and> (ucast w :: u8) AND 0x08 \<noteq> 0"
    if "w AND 0x88 = 0x08" for w :: u16
  proof -
    have "(ucast w :: u8) AND 0x88 = ucast (w AND 0x88)"
      by (rule bit_word_eqI) (auto simp: bit_simps simp flip: set_bit_0)
    also have "\<dots> = 0x08" by (simp add: that)
    finally have e: "(ucast w :: u8) AND 0x88 = 0x08" .
    have "(ucast w :: u8) AND 0x80 = ((ucast w :: u8) AND 0x88) AND 0x80"
      and "(ucast w :: u8) AND 0x08 = ((ucast w :: u8) AND 0x88) AND 0x08"
      by (simp_all add: and.assoc)
    then show ?thesis by (simp add: e)
  qed
  show ?thesis using assms unfolding ata_drive_def by (metis *)
qed

lemma read_sector_ok:
  assumes "ata_drive dev disk"
  shows "\<exists>h'. read_sector dev lba h = Some (disk (lba AND 0xFFFFFFF), h')"
proof -
  let ?h0 = "issue_read lba h"
  obtain n where n: "\<And>j. n \<le> j \<Longrightarrow> (ucast (dev ((poll dev STATUS ^^ j) ?h0) STATUS) :: u8) AND 0x80 = 0"
    "\<And>j. n \<le> j \<Longrightarrow> (ucast (dev ((poll dev STATUS ^^ j) ?h0) STATUS) :: u8) AND 0x08 \<noteq> 0"
    using ata_ready [OF assms issue_read_words] by blast
  obtain k where k: "poll_while dev STATUS (\<lambda>v. v AND 0x80 \<noteq> 0) ?h0 =
      Some ((poll dev STATUS ^^ Suc k) ?h0)"
    using poll_while_ends [where test = "\<lambda>v. v AND 0x80 \<noteq> 0" and n = n and h = ?h0] n(1) [of n] by auto
  let ?h1 = "(poll dev STATUS ^^ Suc k) ?h0"
  have "(poll dev STATUS ^^ n) ?h1 = (poll dev STATUS ^^ (n + Suc k)) ?h0"
    by (simp only: funpow_add comp_apply)
  then have "\<not> ((ucast (dev ((poll dev STATUS ^^ n) ?h1) STATUS) :: u8) AND 0x08 = 0)"
    using n(2) [of "n + Suc k"] by (simp only:) simp
  from poll_while_ends [where test = "\<lambda>v. v AND 0x08 = 0" and dev = dev and port = STATUS
    and n = n, OF this]
  obtain j where j: "poll_while dev STATUS (\<lambda>v. v AND 0x08 = 0) ?h1 =
      Some ((poll dev STATUS ^^ Suc j) ?h1)" by blast
  let ?h2 = "(poll dev STATUS ^^ Suc j) ?h1"
  have "words_read ?h2 = Some 0" and "selected ?h2 = lba AND 0xFFFFFFF"
    by (simp_all only: poll_trace issue_read_words issue_read_selected)
  then show ?thesis
    using read_words_sector [OF assms, of ?h2 0 256] k j
    by (auto simp: read_sector_def simp del: funpow.simps)
qed

text \<open>
  The contract the file system relies on: a sector read always returns, with the 512 bytes of
  the sector whose 28-bit number was asked for.
\<close>

locale sector_source =
  fixes rd :: "u32 \<Rightarrow> 's \<Rightarrow> (u8 list \<times> 's) option"
    and disk :: "u32 \<Rightarrow> u8 list"
  assumes rd_ok: "\<exists>s'. rd lba s = Some (disk (lba AND 0xFFFFFFF), s')"
    and sector_length: "length (disk lba) = 512"
begin

lemma rd_cases: obtains s' where "rd lba s = Some (disk (lba AND 0xFFFFFFF), s')"
  using rd_ok by blast

end

lemma ata_sector_source: "ata_drive dev disk \<Longrightarrow> sector_source (read_sector dev) disk"
  by unfold_locales (auto simp: read_sector_ok ata_drive_def)

definition blank_disk :: "u32 \<Rightarrow> u8 list" where
  "blank_disk lba = replicate 512 0"

interpretation ata: sector_source "read_sector (drive blank_disk)" blank_disk
  by (rule ata_sector_source, rule drive_ok) (simp add: blank_disk_def)

section \<open>Properties\<close>



text \<open>Lemma read_sector_hangs_without_drive. There is no time-out and no look at the error bit:
  when the status register always reads busy, as the floating bus of a missing drive does,
  \<open>read_sector\<close> never returns.\<close>
theorem read_sector_hangs_without_drive:
  assumes "\<And>h. (ucast (dev h STATUS) :: u8) AND 0x80 \<noteq> 0"
  shows "read_sector dev lba h = None"
  using poll_while_never [of "\<lambda>v. v AND 0x80 \<noteq> 0" dev STATUS] assms
  by (simp add: read_sector_def)

theorem read_sector_hangs_without_drive_witness:
  "read_sector (\<lambda>h port. 0xFFFF) 0x800 [] = None"
  by (rule read_sector_hangs_without_drive) simp

end
