(* ===== verification/Fat32.thy ===== *)
theory Fat32
  imports Ata
begin

text \<open>
  The FAT32 reader, \<open>kernel/storage/fat32.c\<close> and \<open>kernel/include/fat32.h\<close>: mounting
  (\<open>init_fat\<close>), the scan of the root directory, and loading a file along its cluster chain. The
  packed structures are read at their byte offsets. Sectors come from the parameter \<open>rd\<close>,
  which the kernel instantiates with \<open>read_sector\<close>; its state is passed along.
\<close>

section \<open>State\<close>

record bpb_t =
  firstBytes :: "u8 list"
  OEM_identifier :: "u8 list"
  bytes_per_sector :: u16
  sectors_per_cluster :: u8
  reserverd_sectors :: u16
  number_of_fats :: u8
  number_of_roots :: u16
  number_of_lvolume_sectors :: u16
  media_desc_type :: u8
  notused :: u16
  sectors_per_track :: u16
  heads_num :: u16
  hidden_sectors_num :: u32
  lsectors_count :: u32
  sectors_per_fat :: u32
  flags_epb :: u16
  version :: u16
  root_directory_cluster_number :: u32
  fsinfo_sector_num :: u16

record file_t =
  file_name :: "u8 list"
  short_name :: "u8 list"
  first_cluster :: u32
  file_size :: "u8 list"

record fat =
  bpb :: bpb_t
  files :: "file_t list"
  buffer :: "u8 list"

definition BUFFER_SIZE :: nat where "BUFFER_SIZE = 512"
definition ENTRY_UNUSED :: u8 where "ENTRY_UNUSED = 0xE5"
definition ENTRY_LFN :: u8 where "ENTRY_LFN = 0x0F"
definition ENTRY_DIR :: u8 where "ENTRY_DIR = 0x10"
definition PARTITION_START :: u32 where "PARTITION_START = 0x800"

definition le16 :: "u8 list \<Rightarrow> nat \<Rightarrow> u16" where
  "le16 d i = ucast (d ! i) OR push_bit 8 (ucast (d ! Suc i))"

definition le32 :: "u8 list \<Rightarrow> nat \<Rightarrow> u32" where
  "le32 d i = ucast (le16 d i) OR push_bit 16 (ucast (le16 d (i + 2)))"

definition slice :: "nat \<Rightarrow> nat \<Rightarrow> 'a list \<Rightarrow> 'a list" where
  "slice i n d = take n (drop i d)"

text \<open>\<open>memmove (&bpb, &buffer, sizeof (bpb_t))\<close> for the packed structure.\<close>

definition decode_bpb :: "u8 list \<Rightarrow> bpb_t" where
  "decode_bpb d =
     \<lparr>firstBytes = slice 0 3 d, OEM_identifier = slice 3 8 d,
      bytes_per_sector = le16 d 11, sectors_per_cluster = d ! 13, reserverd_sectors = le16 d 14,
      number_of_fats = d ! 16, number_of_roots = le16 d 17, number_of_lvolume_sectors = le16 d 19,
      media_desc_type = d ! 21, notused = le16 d 22, sectors_per_track = le16 d 24,
      heads_num = le16 d 26, hidden_sectors_num = le32 d 28, lsectors_count = le32 d 32,
      sectors_per_fat = le32 d 36, flags_epb = le16 d 40, version = le16 d 42,
      root_directory_cluster_number = le32 d 44, fsinfo_sector_num = le16 d 48\<rparr>"

section \<open>The root directory\<close>

text \<open>The two kinds of directory entry, packed structures of 32 bytes, with the copies over them.\<close>

record sfn_t =
  sfn_name :: "u8 list"
  sfn_attributes :: u8
  sfn_reserved :: u8
  creation_seconds :: u8
  created_time :: "u8 list"
  created_date :: "u8 list"
  last_accessed :: "u8 list"
  cluster_high_bits :: u16
  modification_time :: "u8 list"
  modification_date :: "u8 list"
  cluster_low_bits :: u16
  sfn_size :: "u8 list"

record lfn_t =
  lfn_orderno :: u8
  lfn_start :: "u8 list"
  lfn_attribute :: u8
  long_entry_type :: u8
  lfn_checksum :: u8
  lfn_mid :: "u8 list"
  lfn_zero1 :: u8
  lfn_zero2 :: u8
  lfn_end :: "u8 list"

definition decode_sfn :: "u8 list \<Rightarrow> sfn_t" where
  "decode_sfn d =
     \<lparr>sfn_name = slice 0 11 d, sfn_attributes = d ! 11, sfn_reserved = d ! 12, creation_seconds = d ! 13,
      created_time = slice 14 2 d, created_date = slice 16 2 d, last_accessed = slice 18 2 d,
      cluster_high_bits = le16 d 20, modification_time = slice 22 2 d, modification_date = slice 24 2 d,
      cluster_low_bits = le16 d 26, sfn_size = slice 28 4 d\<rparr>"

definition decode_lfn :: "u8 list \<Rightarrow> lfn_t" where
  "decode_lfn d =
     \<lparr>lfn_orderno = d ! 0, lfn_start = slice 1 10 d, lfn_attribute = d ! 11, long_entry_type = d ! 12,
      lfn_checksum = d ! 13, lfn_mid = slice 14 12 d, lfn_zero1 = d ! 26, lfn_zero2 = d ! 27,
      lfn_end = slice 28 4 d\<rparr>"

lemma decode_entry_simps [simp]:
  "sfn_name (decode_sfn d) = slice 0 11 d" "sfn_size (decode_sfn d) = slice 28 4 d"
  "cluster_low_bits (decode_sfn d) = le16 d 26" "cluster_high_bits (decode_sfn d) = le16 d 20"
  "lfn_start (decode_lfn d) = slice 1 10 d" "lfn_mid (decode_lfn d) = slice 14 12 d"
  "lfn_end (decode_lfn d) = slice 28 4 d"
  by (simp_all add: decode_sfn_def decode_lfn_def)

text \<open>The 26 name bytes of a long-name entry go to the first 26 bytes of the file's name.\<close>

definition read_filename_from_lfn :: "file_t \<Rightarrow> lfn_t \<Rightarrow> file_t" where
  "read_filename_from_lfn f lfn =
     f\<lparr>file_name := lfn_start lfn @ lfn_mid lfn @ lfn_end lfn @ drop 26 (file_name f)\<rparr>"

text \<open>
  \<open>cluster_low_bits | (cluster_high_bits << 16) & 0x00FF\<close>, where \<open>&\<close> binds tighter than \<open>|\<close>.
\<close>

definition sfn_cluster :: "sfn_t \<Rightarrow> u32" where
  "sfn_cluster sfn = ucast (cluster_low_bits sfn) OR (push_bit 16 (ucast (cluster_high_bits sfn)) AND 0x00FF)"

definition set_file :: "sfn_t \<Rightarrow> file_t \<Rightarrow> file_t" where
  "set_file sfn f =
     f\<lparr>first_cluster := sfn_cluster sfn, file_size := sfn_size sfn, short_name := sfn_name sfn\<rparr>"

text \<open>
  The scan over the 16 entries of the buffer. The array \<open>files\<close> has five elements; an access
  behind it is the fault \<open>Out_Of_Bounds\<close>.
\<close>

function directory_loop ::
  "u8 list \<Rightarrow> nat \<Rightarrow> file_t list \<Rightarrow> nat \<Rightarrow> u8 \<Rightarrow> file_t list res" where
  "directory_loop buf i fs fileIndex foundfile =
     (if i < BUFFER_SIZE then
        (if buf ! i = 0 then Inr fs
         else if buf ! i = ENTRY_UNUSED then directory_loop buf (i + 32) fs fileIndex foundfile
         else if buf ! (i + 11) = ENTRY_LFN then
           directory_loop buf (i + 32)
             (fs[0 := read_filename_from_lfn (fs ! 0) (decode_lfn (slice i 32 buf))]) fileIndex 1
         else if buf ! (i + 11) = ENTRY_DIR then directory_loop buf (i + 32) fs fileIndex foundfile
         else if foundfile = 1 then
           (if length fs \<le> fileIndex then Inl Out_Of_Bounds
            else directory_loop buf (i + 32)
              (fs[fileIndex := set_file (decode_sfn (slice i 32 buf)) (fs ! fileIndex)]) (Suc fileIndex) 0)
         else directory_loop buf (i + 32) fs fileIndex foundfile)
      else Inr fs)"
  by pat_completeness auto
termination
  by (relation "measure (\<lambda>(buf, i, fs, k, found). BUFFER_SIZE - i)") auto

declare directory_loop.simps [simp del]

definition process_directory_area ::
  "(u32 \<Rightarrow> 's \<Rightarrow> (u8 list \<times> 's) option) \<Rightarrow> fat \<Rightarrow> 's \<Rightarrow> (fat \<times> 's) res option" where
  "process_directory_area rd f s =
     (case rd (PARTITION_START + ucast (reserverd_sectors (bpb f)) +
               sectors_per_fat (bpb f) * ucast (number_of_fats (bpb f))) s of
        None \<Rightarrow> None
      | Some (d, s) \<Rightarrow>
          Some (seq (directory_loop d 0 (files f) 0 0) (\<lambda>fs. Inr (f\<lparr>files := fs, buffer := d\<rparr>, s))))"

definition init_fat ::
  "(u32 \<Rightarrow> 's \<Rightarrow> (u8 list \<times> 's) option) \<Rightarrow> fat \<Rightarrow> 's \<Rightarrow> (fat \<times> 's) res option" where
  "init_fat rd f s =
     (case rd PARTITION_START s of
        None \<Rightarrow> None
      | Some (d, s) \<Rightarrow> process_directory_area rd (f\<lparr>buffer := d, bpb := decode_bpb d\<rparr>) s)"

section \<open>Loading a file\<close>

definition read_nextcluster :: "u32 list \<Rightarrow> u32 \<Rightarrow> u32 res" where
  "read_nextcluster fattable cluster =
     (if length fattable \<le> unat cluster then Inl Out_Of_Bounds
      else
        let next = fattable ! unat cluster
        in Inr (if next = 0xFFFFFFF then 0 else next))"

definition cluster_lba :: "bpb_t \<Rightarrow> u32 \<Rightarrow> u32" where
  "cluster_lba b cluster =
     PARTITION_START + ucast (reserverd_sectors b) + ucast (number_of_fats b) * sectors_per_fat b +
     (cluster - 2) * ucast (sectors_per_cluster b)"

text \<open>What \<open>read_sector\<close> leaves in memory behind its data pointer.\<close>

definition store_bytes :: "memory \<Rightarrow> u64 \<Rightarrow> u8 list \<Rightarrow> memory" where
  "store_bytes m a bs = (\<lambda>x. if in_range x a (length bs) then bs ! unat (x - a) else m x)"

text \<open>The loop over the chain; it may run for ever, then the result is \<open>None\<close>.\<close>

partial_function (option) chain_loop ::
  "(u32 \<Rightarrow> 's \<Rightarrow> (u8 list \<times> 's) option) \<Rightarrow> bpb_t \<Rightarrow> u32 list \<Rightarrow> u64 \<Rightarrow>
     u32 \<Rightarrow> s32 \<Rightarrow> memory \<Rightarrow> 's \<Rightarrow> (memory \<times> 's) res option" where
  "chain_loop rd b fat_table address next memIndex m s =
     (case read_nextcluster fat_table next of
        Inl e \<Rightarrow> Some (Inl e)
      | Inr next \<Rightarrow>
          if next = 0 then Some (Inr (m, s))
          else
            (case rd (cluster_lba b next) s of
               None \<Rightarrow> None
             | Some (d, s) \<Rightarrow>
                 chain_loop rd b fat_table address next (memIndex + 1)
                   (store_bytes m (address + int_to_u64 (memIndex * 0x200)) d) s))"

text \<open>\<open>Not_Found\<close> is the result 1; after loading the function ends without a return value.\<close>

datatype 'a load_result = Not_Found | Loaded 'a

fun find_cluster :: "file_t list \<Rightarrow> reader \<Rightarrow> u32 \<Rightarrow> u32" where
  "find_cluster [] path cluster = cluster"
| "find_cluster (f # fs) path cluster =
     find_cluster fs path
       (if strcmp (bytes_of (short_name f)) path 11 = 0 then first_cluster f else cluster)"

definition decode_fat :: "u8 list \<Rightarrow> u32 list" where
  "decode_fat d = map (\<lambda>k. le32 d (4 * k)) [0..<128]"

definition read_file ::
  "(u32 \<Rightarrow> 's \<Rightarrow> (u8 list \<times> 's) option) \<Rightarrow> fat \<Rightarrow> reader \<Rightarrow> u64 \<Rightarrow> memory \<Rightarrow> 's \<Rightarrow>
     (memory \<times> 's) load_result res option" where
  "read_file rd f path address m s =
     (let cluster = find_cluster (take 5 (files f)) path 0 in
      if cluster = 0 then Some (Inr Not_Found)
      else
        (case rd (PARTITION_START + ucast (reserverd_sectors (bpb f))) s of
           None \<Rightarrow> None
         | Some (d, s) \<Rightarrow>
             (case rd (cluster_lba (bpb f) cluster) s of
                None \<Rightarrow> None
              | Some (e, s) \<Rightarrow>
                  map_option (\<lambda>r. seq r (\<lambda>res. Inr (Loaded res)))
                    (chain_loop rd (bpb f) (decode_fat d) address cluster 1
                       (store_bytes m address e) s))))"

section \<open>Storing sectors\<close>

lemma store_bytes_apply [mem_simps]:
  "store_bytes m a bs x = (if in_range x a (length bs) then bs ! unat (x - a) else m x)"
  by (simp add: store_bytes_def)

lemma store_bytes_append:
  assumes "length xs + length ys < 2 ^ 64"
  shows "store_bytes (store_bytes m a xs) (a + of_nat (length xs)) ys = store_bytes m a (xs @ ys)"
proof
  fix x
  let ?d = "unat (x - a)" and ?n = "length xs"
  have n: "unat (of_nat ?n :: u64) = ?n" using assms by (intro unat_of_nat_u64) simp
  have e: "x - (a + of_nat ?n) = (x - a) - of_nat ?n" by simp
  have sub: "unat (x - (a + of_nat ?n)) = (if ?n \<le> ?d then ?d - ?n else 2 ^ 64 - (?n - ?d))"
    using n assms unat_less_2p64 [of "x - a"] unfolding e by (auto simp: unat_sub_if')
  show "store_bytes (store_bytes m a xs) (a + of_nat ?n) ys x = store_bytes m a (xs @ ys) x"
    using assms unfolding store_bytes_apply in_range_def sub by (auto simp: nth_append)
qed

lemma store_bytes_Nil [simp]: "store_bytes m a [] = m"
  by (simp add: store_bytes_def fun_eq_iff)

primrec store_sectors :: "u64 \<Rightarrow> s32 \<Rightarrow> u8 list list \<Rightarrow> memory \<Rightarrow> memory" where
  "store_sectors a k [] m = m"
| "store_sectors a k (d # ds) m =
     store_sectors a (k + 1) ds (store_bytes m (a + int_to_u64 (k * 0x200)) d)"

lemma store_sectors_concat:
  assumes "\<forall>d \<in> set (es @ ds). length d = 512" and "512 * length (es @ ds) < 2 ^ 31"
  shows "store_sectors a (of_nat (length es)) ds (store_bytes m a (concat es)) =
    store_bytes m a (concat (es @ ds))"
  using assms
proof (induction ds arbitrary: es)
  case Nil
  then show ?case by simp
next
  case (Cons d ds)
  have len: "length (concat es) = 512 * length es"
    using Cons.prems(1) by (induction es) auto
  have "int_to_u64 (of_nat (length es) * 0x200) = int_to_u64 (of_nat (length es * 0x200))"
    by simp
  also have "\<dots> = of_nat (512 * length es)"
    using Cons.prems(2) by (subst int_to_u64_of_nat) (simp_all add: mult.commute)
  finally have "store_bytes (store_bytes m a (concat es)) (a + int_to_u64 (of_nat (length es) * 0x200)) d =
      store_bytes m a (concat (es @ [d]))"
    using store_bytes_append [of "concat es" d m a] Cons.prems len by simp
  then show ?case
    using Cons.IH [of "es @ [d]"] Cons.prems by (simp add: add.commute)
qed

section \<open>Cluster chains\<close>

text \<open>\<open>cs\<close> are the clusters that follow \<open>c\<close> in the table up to the end mark.\<close>

primrec chain :: "u32 list \<Rightarrow> u32 \<Rightarrow> u32 list \<Rightarrow> bool" where
  "chain t c [] \<longleftrightarrow> read_nextcluster t c = Inr 0"
| "chain t c (n # cs) \<longleftrightarrow> read_nextcluster t c = Inr n \<and> n \<noteq> 0 \<and> chain t n cs"

lemma chain_unique: "chain t c cs \<Longrightarrow> chain t c ds \<Longrightarrow> cs = ds"
proof (induction cs arbitrary: c ds)
  case Nil
  then show ?case by (cases ds) auto
next
  case (Cons n cs)
  then show ?case by (cases ds) auto
qed

lemma chain_suffix: "chain t c (xs @ n # ys) \<Longrightarrow> chain t n ys"
  by (induction xs arbitrary: c) auto

lemma chain_distinct: "chain t c cs \<Longrightarrow> distinct (c # cs)"
proof (induction cs arbitrary: c)
  case (Cons n cs)
  have "c \<notin> set (n # cs)"
  proof
    assume "c \<in> set (n # cs)"
    then obtain xs ys where split: "n # cs = xs @ c # ys" by (meson split_list)
    then have "chain t c ys" using Cons.prems chain_suffix by metis
    then have "ys = n # cs" using chain_unique Cons.prems by blast
    then have "length ys = length xs + Suc (length ys)" using split by (metis length_append length_Cons)
    then show False by simp
  qed
  then show ?case using Cons by auto
qed simp

lemma chain_bounds: "chain t c cs \<Longrightarrow> \<forall>n \<in> set (c # cs). unat n < length t"
  by (induction cs arbitrary: c) (auto simp: read_nextcluster_def split: if_splits)

lemma chain_length:
  assumes "chain t c cs"
  shows "length (c # cs) \<le> length t"
proof -
  have inj: "inj_on unat (set (c # cs))" by (rule inj_onI) (metis word_eq_of_unat)
  have "length (c # cs) = card (unat ` set (c # cs))"
    using chain_distinct [OF assms] inj by (metis card_image distinct_card)
  also have "\<dots> \<le> card {..<length t}"
    using chain_bounds [OF assms] by (intro card_mono) auto
  finally show ?thesis by simp
qed

lemma length_decode_fat [simp]: "length (decode_fat d) = 128"
  by (simp add: decode_fat_def)

text \<open>The sector a cluster starts with, as the drive selects it, and the sector of the table.\<close>

definition cluster_sector :: "(u32 \<Rightarrow> u8 list) \<Rightarrow> bpb_t \<Rightarrow> u32 \<Rightarrow> u8 list" where
  "cluster_sector disk b c = disk (cluster_lba b c AND 0xFFFFFFF)"

definition fat_sector :: "(u32 \<Rightarrow> u8 list) \<Rightarrow> bpb_t \<Rightarrow> u8 list" where
  "fat_sector disk b = disk ((PARTITION_START + ucast (reserverd_sectors b)) AND 0xFFFFFFF)"

context sector_source begin


lemma chain_loop_stores:
  "chain t c cs \<Longrightarrow> \<exists>s'. chain_loop rd b t a c k m s =
     Some (Inr (store_sectors a k (map (cluster_sector disk b) cs) m, s'))"
proof (induction cs arbitrary: c k m s)
  case Nil
  then show ?case by (subst chain_loop.simps) simp
next
  case (Cons n cs)
  obtain s1 where s1: "rd (cluster_lba b n) s = Some (cluster_sector disk b n, s1)"
    using rd_ok unfolding cluster_sector_def by blast
  obtain s2 where "chain_loop rd b t a n (k + 1)
      (store_bytes m (a + int_to_u64 (k * 0x200)) (cluster_sector disk b n)) s1 =
      Some (Inr (store_sectors a (k + 1) (map (cluster_sector disk b) cs)
        (store_bytes m (a + int_to_u64 (k * 0x200)) (cluster_sector disk b n)), s2))"
    using Cons.IH Cons.prems by fastforce
  then show ?case
    using Cons.prems s1 by (subst chain_loop.simps) simp
qed

lemma read_file_stores:
  assumes "find_cluster (take 5 (files f)) path 0 = c" and "c \<noteq> 0"
    and "chain (decode_fat (fat_sector disk (bpb f))) c cs"
  shows "\<exists>s'. read_file rd f path a m s =
    Some (Inr (Loaded (store_bytes m a (concat (map (cluster_sector disk (bpb f)) (c # cs))), s')))"
proof -
  let ?t = "decode_fat (fat_sector disk (bpb f))"
  let ?d = "cluster_sector disk (bpb f)"
  obtain s1 where s1: "rd (PARTITION_START + ucast (reserverd_sectors (bpb f))) s =
      Some (fat_sector disk (bpb f), s1)"
    using rd_ok unfolding fat_sector_def by blast
  obtain s2 where s2: "rd (cluster_lba (bpb f) c) s1 = Some (?d c, s2)"
    using rd_ok unfolding cluster_sector_def by blast
  obtain s3 where s3: "chain_loop rd (bpb f) ?t a c 1 (store_bytes m a (?d c)) s2 =
      Some (Inr (store_sectors a 1 (map ?d cs) (store_bytes m a (?d c)), s3))"
    using chain_loop_stores [OF assms(3)] by blast
  have "\<forall>d \<in> set ([?d c] @ map ?d cs). length d = 512"
    by (auto simp: cluster_sector_def sector_length)
  moreover have "512 * length ([?d c] @ map ?d cs) < 2 ^ 31"
    using chain_length [OF assms(3)] by simp
  ultimately have "store_sectors a 1 (map ?d cs) (store_bytes m a (?d c)) =
      store_bytes m a (concat (map ?d (c # cs)))"
    using store_sectors_concat [of "[?d c]" "map ?d cs" a m] by simp
  then show ?thesis
    using assms s1 s2 s3 by (simp add: read_file_def)
qed

end

section \<open>The directory scan\<close>

text \<open>A long-name entry and the short entry it belongs to, as they stand in the directory.\<close>

definition lfn_entry :: "u8 list \<Rightarrow> bool" where
  "lfn_entry e \<longleftrightarrow> length e = 32 \<and> e ! 0 \<notin> {0, ENTRY_UNUSED} \<and> e ! 11 = ENTRY_LFN"

definition file_entry :: "u8 list \<Rightarrow> bool" where
  "file_entry e \<longleftrightarrow> length e = 32 \<and> e ! 0 \<notin> {0, ENTRY_UNUSED} \<and> e ! 11 \<notin> {ENTRY_LFN, ENTRY_DIR}"

text \<open>The table after the pairs are taken over, from index \<open>k\<close> on.\<close>

fun enter_pairs :: "file_t list \<Rightarrow> nat \<Rightarrow> (u8 list \<times> u8 list) list \<Rightarrow> file_t list" where
  "enter_pairs fs k [] = fs"
| "enter_pairs fs k ((l, e) # ps) =
     (let fs = fs[0 := read_filename_from_lfn (fs ! 0) (decode_lfn l)]
      in enter_pairs (fs[k := set_file (decode_sfn e) (fs ! k)]) (Suc k) ps)"

definition pair_bytes :: "(u8 list \<times> u8 list) list \<Rightarrow> u8 list" where
  "pair_bytes ps = concat (map (\<lambda>(l, e). l @ e) ps)"

lemma slice_hit: "drop i buf = l @ r \<Longrightarrow> length l = 32 \<Longrightarrow> slice i 32 buf = l"
  by (simp add: slice_def)

lemma nth_hit: "drop i buf = l @ r \<Longrightarrow> j < length l \<Longrightarrow> i + j < length buf \<Longrightarrow> buf ! (i + j) = l ! j"
  by (metis nth_append nth_drop less_imp_le add_leD1)

lemma directory_lfn:
  assumes "drop i buf = e @ r" and "lfn_entry e" and "i + 32 \<le> 512" and "length buf = 512"
  shows "directory_loop buf i fs k found =
    directory_loop buf (i + 32) (fs[0 := read_filename_from_lfn (fs ! 0) (decode_lfn e)]) k 1"
proof -
  have len: "length e = 32" using assms(2) by (simp add: lfn_entry_def)
  have "buf ! i = e ! 0" and "buf ! (i + 11) = e ! 11" and "slice i 32 buf = e"
    using nth_hit [OF assms(1), of 0] nth_hit [OF assms(1), of 11] slice_hit [OF assms(1)] assms(3,4)
    by (simp_all add: len flip: length_greater_0_conv)
  then show ?thesis
    using assms(2,3) by (subst directory_loop.simps) (auto simp: lfn_entry_def BUFFER_SIZE_def)
qed

lemma directory_file:
  assumes "drop i buf = e @ r" and "file_entry e" and "i + 32 \<le> 512" and "length buf = 512"
  shows "directory_loop buf i fs k 1 =
    (if length fs \<le> k then Inl Out_Of_Bounds
     else directory_loop buf (i + 32) (fs[k := set_file (decode_sfn e) (fs ! k)]) (Suc k) 0)"
proof -
  have len: "length e = 32" using assms(2) by (simp add: file_entry_def)
  have "buf ! i = e ! 0" and "buf ! (i + 11) = e ! 11" and "slice i 32 buf = e"
    using nth_hit [OF assms(1), of 0] nth_hit [OF assms(1), of 11] slice_hit [OF assms(1)] assms(3,4)
    by (simp_all add: len flip: length_greater_0_conv)
  then show ?thesis
    using assms(2,3) by (subst directory_loop.simps) (auto simp: file_entry_def BUFFER_SIZE_def)
qed

lemma directory_pairs_loop:
  assumes "drop i buf = pair_bytes ps @ r" and "length buf = 512"
    and "\<forall>(l, e) \<in> set ps. lfn_entry l \<and> file_entry e" and "i + 64 * length ps \<le> 512"
    and "r = [] \<or> r ! 0 = 0"
  shows "directory_loop buf i fs k 0 =
    (if ps = [] \<or> k + length ps \<le> length fs then Inr (enter_pairs fs k ps) else Inl Out_Of_Bounds)"
  using assms
proof (induction ps arbitrary: i fs k)
  case Nil
  show ?case
  proof (cases "i < 512")
    case True
    then have "r \<noteq> []" and "buf ! i = r ! 0"
      using Nil.prems(1,2) by (auto simp: pair_bytes_def hd_drop_conv_nth hd_conv_nth)
    then show ?thesis
      using Nil.prems(5) True by (subst directory_loop.simps) (simp add: BUFFER_SIZE_def)
  next
    case False
    then show ?thesis by (subst directory_loop.simps) (simp add: BUFFER_SIZE_def)
  qed
next
  case (Cons p ps)
  obtain l e where p: "p = (l, e)" by fastforce
  have le: "lfn_entry l" "file_entry e" using Cons.prems(3) by (simp_all add: p)
  have len: "length l = 32" "length e = 32" using le by (simp_all add: lfn_entry_def file_entry_def)
  have d0: "drop i buf = l @ (e @ pair_bytes ps @ r)"
    using Cons.prems(1) by (simp add: p pair_bytes_def)
  have "drop (i + 32) buf = drop 32 (drop i buf)" by (simp add: add.commute)
  then have d1: "drop (i + 32) buf = e @ (pair_bytes ps @ r)" using d0 len by simp
  have "drop (i + 32 + 32) buf = drop 32 (drop (i + 32) buf)" by (simp add: add.commute)
  then have d2: "drop (i + 32 + 32) buf = pair_bytes ps @ r" using d1 len by simp
  let ?fs = "fs[0 := read_filename_from_lfn (fs ! 0) (decode_lfn l)]"
  have "directory_loop buf i fs k 0 = directory_loop buf (i + 32) ?fs k 1"
    by (rule directory_lfn [OF d0 le(1) _ Cons.prems(2)]) (use Cons.prems(4) in simp)
  also have "\<dots> = (if length ?fs \<le> k then Inl Out_Of_Bounds
      else directory_loop buf (i + 32 + 32) (?fs[k := set_file (decode_sfn e) (?fs ! k)]) (Suc k) 0)"
    by (rule directory_file [OF d1 le(2) _ Cons.prems(2)]) (use Cons.prems(4) in simp)
  also have "directory_loop buf (i + 32 + 32) (?fs[k := set_file (decode_sfn e) (?fs ! k)]) (Suc k) 0 =
      (if ps = [] \<or> Suc k + length ps \<le> length (?fs[k := set_file (decode_sfn e) (?fs ! k)])
       then Inr (enter_pairs (?fs[k := set_file (decode_sfn e) (?fs ! k)]) (Suc k) ps) else Inl Out_Of_Bounds)"
    by (rule Cons.IH [OF d2 Cons.prems(2) _ _ Cons.prems(5)]) (use Cons.prems(3,4) in auto)
  finally show ?case by (auto simp: p Let_def Suc_le_eq)
qed

lemma length_enter_pairs [simp]: "length (enter_pairs fs k ps) = length fs"
  by (induction fs k ps rule: enter_pairs.induct) (simp_all add: Let_def)

lemma read_filename_keeps [simp]:
  "short_name (read_filename_from_lfn f l) = short_name f"
  "first_cluster (read_filename_from_lfn f l) = first_cluster f"
  "file_size (read_filename_from_lfn f l) = file_size f"
  by (simp_all add: read_filename_from_lfn_def)

lemma enter_pairs_nth:
  "k + length ps \<le> length fs \<Longrightarrow> i < length fs \<Longrightarrow>
     (let f = enter_pairs fs k ps ! i in
      if k \<le> i \<and> i < k + length ps
      then short_name f = slice 0 11 (snd (ps ! (i - k))) \<and>
           first_cluster f = sfn_cluster (decode_sfn (snd (ps ! (i - k)))) \<and>
           file_size f = slice 28 4 (snd (ps ! (i - k)))
      else short_name f = short_name (fs ! i) \<and> first_cluster f = first_cluster (fs ! i) \<and>
           file_size f = file_size (fs ! i))"
proof (induction fs k ps rule: enter_pairs.induct)
  case (1 fs k)
  then show ?case by (auto simp: Let_def)
next
  case (2 fs k l e ps)
  let ?fs = "fs[0 := read_filename_from_lfn (fs ! 0) (decode_lfn l)]"
  let ?gs = "?fs[k := set_file (decode_sfn e) (?fs ! k)]"
  have IH: "let f = enter_pairs ?gs (Suc k) ps ! i in
      if Suc k \<le> i \<and> i < Suc k + length ps
      then short_name f = slice 0 11 (snd (ps ! (i - Suc k))) \<and>
           first_cluster f = sfn_cluster (decode_sfn (snd (ps ! (i - Suc k)))) \<and>
           file_size f = slice 28 4 (snd (ps ! (i - Suc k)))
      else short_name f = short_name (?gs ! i) \<and> first_cluster f = first_cluster (?gs ! i) \<and>
           file_size f = file_size (?gs ! i)"
    by (rule "2.IH" [OF refl]) (use "2.prems" in auto)
  consider "i = k" | "i < k" | "Suc k \<le> i" by linarith
  then show ?case
  proof cases
    case 1
    then show ?thesis using IH "2.prems" by (simp add: Let_def set_file_def)
  next
    case 2
    then show ?thesis using IH "2.prems" by (cases i) (simp_all add: Let_def)
  next
    case 3
    then have j: "i - k = Suc (i - Suc k)" by simp
    show ?thesis
      using 3 IH "2.prems" unfolding j by (auto simp: Let_def nth_list_update)
  qed
qed

text \<open>The shift of the high half of the cluster number is masked away.\<close>

lemma sfn_cluster_low: "sfn_cluster e = ucast (cluster_low_bits e)"
proof -
  have m: "(0x00FF :: u32) = mask 8" by (simp add: mask_eq_exp_minus_1)
  have "push_bit 16 (ucast (cluster_high_bits e)) AND (mask 8 :: u32) = 0"
    by (rule bit_word_eqI) (auto simp: bit_simps)
  then show ?thesis by (simp only: sfn_cluster_def m or.right_neutral)
qed

lemma directory_no_lfn:
  assumes "\<forall>j. 32 * j < 512 \<longrightarrow> buf ! (32 * j + 11) \<noteq> ENTRY_LFN"
  shows "directory_loop buf (32 * i) fs k 0 = Inr fs"
  using assms
proof (induction "16 - i" arbitrary: i)
  case 0
  then show ?case by (subst directory_loop.simps) (simp add: BUFFER_SIZE_def)
next
  case (Suc n)
  have "directory_loop buf (32 * Suc i) fs k 0 = Inr fs"
    using Suc by (intro Suc.hyps(1)) simp_all
  moreover have "buf ! (32 * i + 11) \<noteq> ENTRY_LFN" using Suc by simp
  ultimately show ?case
    by (subst directory_loop.simps) (simp add: add.commute)
qed

lemma chain_loop_stuck:
  assumes "c \<in> S" and "\<And>c. c \<in> S \<Longrightarrow> \<exists>n \<in> S. n \<noteq> 0 \<and> read_nextcluster t c = Inr n"
  shows "chain_loop rd b t a c k m s = None"
proof -
  have "\<not> (c \<in> S \<and> (\<forall>c \<in> S. \<exists>n \<in> S. n \<noteq> 0 \<and> read_nextcluster t c = Inr n))"
    if "chain_loop rd b t a c k m s = Some r" for r
  proof (rule chain_loop.raw_induct [where P = "\<lambda>rd b t a c k m s r.
        \<not> (c \<in> S \<and> (\<forall>c \<in> S. \<exists>n \<in> S. n \<noteq> 0 \<and> read_nextcluster t c = Inr n))", OF _ that])
    fix f and rd :: "u32 \<Rightarrow> 'a \<Rightarrow> (u8 list \<times> 'a) option" and b t a c k m s and r :: "(memory \<times> 'a) res"
    assume IH: "\<And>rd b t a c k m s r. f rd b t a c k m s = Some r \<Longrightarrow>
          \<not> (c \<in> S \<and> (\<forall>c \<in> S. \<exists>n \<in> S. n \<noteq> 0 \<and> read_nextcluster t c = Inr n))"
      and eq: "(case read_nextcluster t c of Inl e \<Rightarrow> Some (Inl e)
        | Inr next \<Rightarrow> if next = 0 then Some (Inr (m, s))
            else case rd (cluster_lba b next) s of None \<Rightarrow> None
              | Some (d, s) \<Rightarrow> f rd b t a next (k + 1)
                  (store_bytes m (a + int_to_u64 (k * 0x200)) d) s) = Some r"
    show "\<not> (c \<in> S \<and> (\<forall>c \<in> S. \<exists>n \<in> S. n \<noteq> 0 \<and> read_nextcluster t c = Inr n))"
    proof
      assume c: "c \<in> S \<and> (\<forall>c \<in> S. \<exists>n \<in> S. n \<noteq> 0 \<and> read_nextcluster t c = Inr n)"
      then obtain n where n: "n \<in> S" "n \<noteq> 0" "read_nextcluster t c = Inr n" by blast
      then obtain d s1 where "f rd b t a n (k + 1) (store_bytes m (a + int_to_u64 (k * 0x200)) d) s1 = Some r"
        using eq by (auto split: option.splits)
      from IH [OF this] show False using c n(1) by blast
    qed
  qed
  then show ?thesis using assms by (cases "chain_loop rd b t a c k m s") auto
qed

section \<open>A sample volume\<close>

definition boot_sector :: "u8 list" where
  "boot_sector = (replicate 512 0)[13 := 1, 14 := 0x20, 16 := 2, 36 := 1]"

definition font_lfn :: "u8 list" where
  "font_lfn = 0x41 # replicate 10 0 @ 0x0F # replicate 20 0"

definition font_sfn :: "u8 list" where
  "font_sfn = chars ''FONT    PSF'' @ 0x20 # replicate 14 0 @ [3, 0] @ replicate 4 0"

text \<open>Clusters 3 and 4 make up the file, cluster 5 points to itself, 6 has another end mark.\<close>

definition sample_fat :: "u8 list" where
  "sample_fat = (replicate 512 0)[12 := 4, 16 := 0xFF, 17 := 0xFF, 18 := 0xFF, 19 := 0x0F,
     20 := 5, 24 := 0xF8, 25 := 0xFF, 26 := 0xFF, 27 := 0x0F]"

definition sample_disk :: "u32 \<Rightarrow> u8 list" where
  "sample_disk lba =
     (if lba = 0x800 then boot_sector else if lba = 0x820 then sample_fat
      else if lba = 0x822 then pair_bytes [(font_lfn, font_sfn)] @ replicate 448 0
      else replicate 512 (ucast lba))"

definition empty_file :: file_t where
  "empty_file = \<lparr>file_name = replicate 56 0, short_name = replicate 11 0, first_cluster = 0,
     file_size = replicate 4 0\<rparr>"

definition empty_fat :: fat where
  "empty_fat = \<lparr>bpb = decode_bpb (replicate 512 0), files = replicate 5 empty_file,
     buffer = replicate 512 0\<rparr>"

definition mounted :: "u32 \<Rightarrow> fat" where
  "mounted c = empty_fat\<lparr>bpb := decode_bpb boot_sector,
     files := (replicate 5 empty_file)[0 := empty_file\<lparr>short_name := chars ''FONT    PSF'', first_cluster := c\<rparr>]\<rparr>"

lemma sample_lengths: "length font_lfn = 32" "length font_sfn = 32" "length boot_sector = 512"
  "length sample_fat = 512"
  by (simp_all add: font_lfn_def font_sfn_def boot_sector_def sample_fat_def chars_def)

lemma sample_entries: "lfn_entry font_lfn" "file_entry font_sfn"
  by (simp_all add: lfn_entry_def file_entry_def font_lfn_def font_sfn_def chars_def
      ENTRY_UNUSED_def ENTRY_LFN_def ENTRY_DIR_def nth_append)

lemma sample_drive: "ata_drive (drive sample_disk) sample_disk"
  by (rule drive_ok) (simp add: sample_disk_def sample_lengths pair_bytes_def)

lemma sample_bpb:
  "reserverd_sectors (decode_bpb boot_sector) = 0x20" "number_of_fats (decode_bpb boot_sector) = 2"
  "sectors_per_fat (decode_bpb boot_sector) = 1" "sectors_per_cluster (decode_bpb boot_sector) = 1"
  by (simp_all add: decode_bpb_def boot_sector_def le16_def le32_def)

lemma decode_fat_nth: "k < 128 \<Longrightarrow> decode_fat d ! k = le32 d (4 * k)"
  by (simp add: decode_fat_def)

lemma sample_fat_sector: "fat_sector sample_disk (bpb (mounted c)) = sample_fat"
  by (simp add: fat_sector_def mounted_def sample_bpb PARTITION_START_def sample_disk_def)

lemma sample_next:
  "read_nextcluster (decode_fat sample_fat) 3 = Inr 4"
  "read_nextcluster (decode_fat sample_fat) 4 = Inr 0"
  "read_nextcluster (decode_fat sample_fat) 5 = Inr 5"
  "decode_fat sample_fat ! 6 = 0x0FFFFFF8"
  by (simp_all add: read_nextcluster_def decode_fat_nth sample_fat_def le32_def le16_def)

lemma mounted_find:
  "find_cluster (take 5 (files (mounted c))) (bytes_of (chars ''FONT    PSF'')) 0 = c"
proof -
  have "strcmp (bytes_of (replicate 11 0)) (bytes_of (chars ''FONT    PSF'')) 11 = 1"
    by (auto simp: strcmp_eq bytes_of_def chars_def intro!: exI [of _ 0])
  moreover have "strcmp r r 11 = 0" for r by (simp add: strcmp_eq)
  ultimately show ?thesis
    by (simp add: mounted_def empty_fat_def empty_file_def numeral_eq_Suc)
qed

section \<open>Properties\<close>

text \<open>C14 read_file_loads_chain. When the directory gives the path the cluster \<open>c\<close> and the first
  sector of the allocation table links \<open>c\<close> to the clusters \<open>cs\<close> and then to the end mark, loading
  returns, and memory then holds, from the address on and in the order of the chain, the first
  sector of each cluster, 512 bytes after 512 bytes; no other byte changes. The chain needs no
  bound: it cannot repeat a cluster.\<close>
theorem read_file_loads_chain:
  assumes "ata_drive dev disk" and "find_cluster (take 5 (files f)) path 0 = c" and "c \<noteq> 0"
    and "chain (decode_fat (fat_sector disk (bpb f))) c cs"
  shows "\<exists>s'. read_file (read_sector dev) f path a m s =
    Some (Inr (Loaded
      (store_bytes m a (concat (map (cluster_sector disk (bpb f)) (c # cs))), s')))"
  by (rule sector_source.read_file_stores [OF ata_sector_source [OF assms(1)] assms(2-4)])

theorem read_file_loads_chain_witness:
  "\<exists>s'. read_file (read_sector (drive sample_disk)) (mounted 3) (bytes_of (chars ''FONT    PSF''))
      0x300000 (\<lambda>_. 0) [] =
    Some (Inr (Loaded (store_bytes (\<lambda>_. 0) 0x300000 (replicate 512 0x23 @ replicate 512 0x24), s')))"
proof -
  have "chain (decode_fat (fat_sector sample_disk (bpb (mounted 3)))) 3 [4]"
    by (simp add: sample_fat_sector sample_next)
  moreover have "concat (map (cluster_sector sample_disk (bpb (mounted 3))) [3, 4]) =
      replicate 512 0x23 @ replicate 512 0x24"
    by (simp add: cluster_sector_def cluster_lba_def mounted_def sample_bpb PARTITION_START_def
        sample_disk_def)
  ultimately show ?thesis
    using read_file_loads_chain [OF sample_drive mounted_find, of 3 "[4]" "0x300000" "\<lambda>_. 0" "[]"]
    by simp
qed

lemma init_fat_pairs:
  assumes "ata_drive dev disk" and "length (files f) = 5"
    and "b = decode_bpb (disk 0x800)"
    and "disk ((0x800 + ucast (reserverd_sectors b) + sectors_per_fat b * ucast (number_of_fats b))
           AND 0xFFFFFFF) = pair_bytes ps @ r"
    and "\<forall>(l, e) \<in> set ps. lfn_entry l \<and> file_entry e" and "length ps \<le> 5"
    and "r = [] \<or> r ! 0 = 0"
  shows "\<exists>s'. init_fat (read_sector dev) f s =
    Some (Inr (f\<lparr>bpb := b, files := enter_pairs (files f) 0 ps, buffer := pair_bytes ps @ r\<rparr>, s'))"
proof -
  let ?lba = "PARTITION_START + ucast (reserverd_sectors b) + sectors_per_fat b * ucast (number_of_fats b)"
  let ?d = "disk (?lba AND 0xFFFFFFF)"
  obtain s1 where s1: "read_sector dev PARTITION_START s = Some (disk 0x800, s1)"
    using read_sector_ok [OF assms(1), of PARTITION_START s] by (auto simp: PARTITION_START_def)
  obtain s2 where s2: "read_sector dev ?lba s1 = Some (?d, s2)"
    using read_sector_ok [OF assms(1)] by blast
  have d: "?d = pair_bytes ps @ r" using assms(4) by (simp only: PARTITION_START_def)
  have len: "length ?d = 512" using assms(1) by (simp add: ata_drive_def)
  have "64 * length ps \<le> 512" using assms(6) by simp
  then have loop: "directory_loop ?d 0 (files f) 0 0 = Inr (enter_pairs (files f) 0 ps)"
    using directory_pairs_loop [of 0 ?d ps r "files f" 0] d len assms(2,5,6,7) by simp
  show ?thesis
    using s1 s2 loop d by (simp add: init_fat_def process_directory_area_def assms(3))
qed

text \<open>C33 init_fat_lists_files. Mounting takes the boot sector's fields over and, from a root
  directory of at most five files, each a long-name entry followed by its short entry, fills
  the table with their short names, sizes and the low 16 bits of their cluster numbers; the
  other elements keep theirs. The bytes behind the pairs start with a zero byte.\<close>
theorem init_fat_lists_files:
  assumes "ata_drive dev disk" and "length (files f) = 5"
    and "b = decode_bpb (disk 0x800)"
    and "disk ((0x800 + ucast (reserverd_sectors b) + sectors_per_fat b * ucast (number_of_fats b))
           AND 0xFFFFFFF) = pair_bytes ps @ r"
    and "\<forall>(l, e) \<in> set ps. lfn_entry l \<and> file_entry e" and "length ps \<le> 5"
    and "r = [] \<or> r ! 0 = 0"
  shows "\<exists>f' s'. init_fat (read_sector dev) f s = Some (Inr (f', s')) \<and> bpb f' = b \<and>
    length (files f') = 5 \<and>
    (\<forall>i<length ps. short_name (files f' ! i) = slice 0 11 (snd (ps ! i)) \<and>
        first_cluster (files f' ! i) = ucast (le16 (snd (ps ! i)) 26) \<and>
        file_size (files f' ! i) = slice 28 4 (snd (ps ! i))) \<and>
    (\<forall>i<5. length ps \<le> i \<longrightarrow> short_name (files f' ! i) = short_name (files f ! i) \<and>
        first_cluster (files f' ! i) = first_cluster (files f ! i))"
proof -
  let ?f = "f\<lparr>bpb := b, files := enter_pairs (files f) 0 ps, buffer := pair_bytes ps @ r\<rparr>"
  obtain s2 where "init_fat (read_sector dev) f s = Some (Inr (?f, s2))"
    using init_fat_pairs [OF assms] by blast
  moreover have "0 + length ps \<le> length (files f)" using assms(2,6) by simp
  note enter_pairs_nth [OF this]
  ultimately show ?thesis
    using assms(2,6) by (intro exI [of _ ?f] exI [of _ s2]) (auto simp: Let_def sfn_cluster_low)
qed

theorem init_fat_lists_files_witness:
  "\<exists>f' s'. init_fat (read_sector (drive sample_disk)) empty_fat [] = Some (Inr (f', s')) \<and>
     short_name (files f' ! 0) = chars ''FONT    PSF'' \<and> first_cluster (files f' ! 0) = 3"
proof -
  have e: "slice 0 11 font_sfn = chars ''FONT    PSF''" "ucast (le16 font_sfn 26) = (3 :: u32)"
    by (simp_all add: slice_def font_sfn_def chars_def le16_def nth_append)
  have "sample_disk ((0x800 + ucast (reserverd_sectors (decode_bpb (sample_disk 0x800))) +
      sectors_per_fat (decode_bpb (sample_disk 0x800)) *
      ucast (number_of_fats (decode_bpb (sample_disk 0x800)))) AND 0xFFFFFFF) =
      pair_bytes [(font_lfn, font_sfn)] @ replicate 448 0"
    by (simp add: sample_disk_def sample_bpb)
  from init_fat_lists_files [OF sample_drive _ refl this, of empty_fat "[]"]
  show ?thesis using sample_entries e by (fastforce simp: empty_fat_def)
qed

text \<open>Lemma directory_table_overflow. Nothing stops the scan at the fifth file: a directory with six
  to eight such pairs makes it write behind the table.\<close>
theorem directory_table_overflow:
  assumes "length buf = 512" and "length fs = 5" and "buf = pair_bytes ps @ r"
    and "\<forall>(l, e) \<in> set ps. lfn_entry l \<and> file_entry e" and "6 \<le> length ps" and "length ps \<le> 8"
    and "r = [] \<or> r ! 0 = 0"
  shows "directory_loop buf 0 fs 0 0 = Inl Out_Of_Bounds"
  using directory_pairs_loop [of 0 buf ps r fs 0] assms by auto

theorem directory_table_overflow_witness:
  "directory_loop (pair_bytes (replicate 8 (font_lfn, font_sfn))) 0 (replicate 5 empty_file) 0 0 =
     Inl Out_Of_Bounds"
proof -
  have "length (pair_bytes (replicate 8 (font_lfn, font_sfn))) = 512"
    by (simp add: pair_bytes_def sample_lengths numeral_eq_Suc)
  then show ?thesis
    using directory_table_overflow [of _ "replicate 5 empty_file" "replicate 8 (font_lfn, font_sfn)" "[]"]
      sample_entries by simp
qed

text \<open>Lemma short_entries_ignored. A directory without long-name entries, as a file with an 8.3 name in
  capitals has it, yields no file at all.\<close>
theorem short_entries_ignored:
  assumes "\<forall>j. 32 * j < 512 \<longrightarrow> buf ! (32 * j + 11) \<noteq> ENTRY_LFN"
  shows "directory_loop buf 0 fs 0 0 = Inr fs"
  using directory_no_lfn [OF assms, of 0] by simp

theorem short_entries_ignored_witness:
  "directory_loop (font_sfn @ replicate 480 0) 0 (replicate 5 empty_file) 0 0 = Inr (replicate 5 empty_file)"
  by (rule short_entries_ignored)
    (auto simp: nth_append sample_lengths font_sfn_def chars_def ENTRY_LFN_def nth_Cons')

text \<open>Lemma cyclic_chain_never_ends. A chain that runs into a cycle of the table is followed for ever,
  writing sector after sector: if every cluster of a set links to a cluster of the set, a file
  that starts in it never finishes loading.\<close>
theorem cyclic_chain_never_ends:
  assumes "ata_drive dev disk" and "find_cluster (take 5 (files f)) path 0 = c" and "c \<noteq> 0"
    and "c \<in> S"
    and "\<And>c. c \<in> S \<Longrightarrow> \<exists>n \<in> S. n \<noteq> 0 \<and>
           read_nextcluster (decode_fat (fat_sector disk (bpb f))) c = Inr n"
  shows "read_file (read_sector dev) f path a m s = None"
proof -
  obtain s1 where s1: "read_sector dev (PARTITION_START + ucast (reserverd_sectors (bpb f))) s =
      Some (fat_sector disk (bpb f), s1)"
    using read_sector_ok [OF assms(1)] unfolding fat_sector_def by blast
  obtain e s2 where "read_sector dev (cluster_lba (bpb f) c) s1 = Some (e, s2)"
    using read_sector_ok [OF assms(1)] by blast
  then show ?thesis
    using assms(2,3) s1 chain_loop_stuck [of c S "decode_fat (fat_sector disk (bpb f))", OF assms(4,5)]
    by (simp add: read_file_def)
qed

theorem cyclic_chain_never_ends_witness:
  "read_file (read_sector (drive sample_disk)) (mounted 5) (bytes_of (chars ''FONT    PSF''))
     0x300000 (\<lambda>_. 0) [] = None"
  by (rule cyclic_chain_never_ends [OF sample_drive mounted_find, where S = "{5}"])
    (auto simp: sample_fat_sector sample_next)

text \<open>Lemma other_end_marks_fault. Only 0x0FFFFFFF ends a chain. Any other value from 128 on, the end
  marks 0x0FFFFFF8 to 0x0FFFFFFE among them, is taken for a cluster: one more sector is loaded
  and the table, of which only 128 entries are in memory, is then read out of its bounds.\<close>
theorem other_end_marks_fault:
  assumes "ata_drive dev disk" and "find_cluster (take 5 (files f)) path 0 = c" and "c \<noteq> 0"
    and "unat c < 128"
    and "v = decode_fat (fat_sector disk (bpb f)) ! unat c" and "128 \<le> unat v" and "v \<noteq> 0x0FFFFFFF"
  shows "read_file (read_sector dev) f path a m s = Some (Inl Out_Of_Bounds)"
proof -
  let ?t = "decode_fat (fat_sector disk (bpb f))"
  obtain s1 where s1: "read_sector dev (PARTITION_START + ucast (reserverd_sectors (bpb f))) s =
      Some (fat_sector disk (bpb f), s1)"
    using read_sector_ok [OF assms(1)] unfolding fat_sector_def by blast
  obtain e s2 where s2: "read_sector dev (cluster_lba (bpb f) c) s1 = Some (e, s2)"
    using read_sector_ok [OF assms(1)] by blast
  obtain d s3 where s3: "read_sector dev (cluster_lba (bpb f) v) s2 = Some (d, s3)"
    using read_sector_ok [OF assms(1)] by blast
  have "v \<noteq> 0" using assms(6) by auto
  have next1: "read_nextcluster ?t c = Inr v" and next2: "read_nextcluster ?t v = Inl Out_Of_Bounds"
    using assms(4-7) by (simp_all add: read_nextcluster_def)
  have "chain_loop (read_sector dev) (bpb f) ?t a v k m' s' = Some (Inl Out_Of_Bounds)" for k m' s'
    by (subst chain_loop.simps) (simp add: next2)
  then have "chain_loop (read_sector dev) (bpb f) ?t a c 1 (store_bytes m a e) s2 = Some (Inl Out_Of_Bounds)"
    using \<open>v \<noteq> 0\<close> s3 by (subst chain_loop.simps) (simp add: next1)
  then show ?thesis using assms(2,3) s1 s2 by (simp add: read_file_def)
qed

theorem other_end_marks_fault_witness:
  "read_file (read_sector (drive sample_disk)) (mounted 6) (bytes_of (chars ''FONT    PSF''))
     0x300000 (\<lambda>_. 0) [] = Some (Inl Out_Of_Bounds)"
  by (rule other_end_marks_fault [OF sample_drive mounted_find, where v = "0x0FFFFFF8"])
    (simp_all add: sample_fat_sector sample_next)

end
