(* ===== verification/Pmm.thy ===== *)
theory Pmm
  imports ByteMemory
begin

text \<open>
  The physical memory manager, \<open>kernel/memory/pmm.c\<close>: \<open>init_pmm\<close> scans the BIOS memory
  map for a pool of frames, \<open>pmm_allocate\<close> hands frames out first-fit from a byte map of
  100 entries. The contract \<open>frame_source\<close> states what the page-table code relies on, and
  the allocator is shown to be one.
\<close>

section \<open>State\<close>

record e820_entry_t =
  base :: u64
  region_length :: u64
  region_type :: u32
  acpi :: u32

record pool_t =
  pool_base :: u64
  pool_length :: u64
  pages :: u64
  bitmap :: "u8 list"

record pmm =
  pool :: pool_t
  total_memory :: u64

definition PAGESIZE :: u64 where
  "PAGESIZE = 4096"

section \<open>init_pmm\<close>

text \<open>The packed 24-byte record of the memory map at address \<open>a\<close>.\<close>

definition read_e820 :: "memory \<Rightarrow> u64 \<Rightarrow> e820_entry_t" where
  "read_e820 m a =
     \<lparr>base = load64 m a, region_length = load64 m (a + 8),
      region_type = load32 m (a + 16), acpi = load32 m (a + 20)\<rparr>"

text \<open>One entry: the body of the loop after the test for the terminating zero entry.\<close>

definition init_pmm_entry :: "u64 \<Rightarrow> e820_entry_t \<Rightarrow> pmm \<times> nat \<Rightarrow> pmm \<times> nat" where
  "init_pmm_entry klength entry st =
     (let (s, found) = st; kphys_start = 0x100000 in
      if region_type entry = 1 then
        let s = s\<lparr>total_memory := total_memory s + region_length entry\<rparr> in
        if base entry \<ge> kphys_start \<and> base entry \<le> kphys_start + klength \<and> found = 0 then
          (s\<lparr>pool := (pool s)
               \<lparr>pool_base := (kphys_start + klength + 0x1000 + 0xFFF) AND NOT 0xFFF,
                pool_length := region_length entry - klength\<rparr>\<rparr>, found + 1)
        else if found = 0 \<and> base entry \<noteq> 0 then
          (s\<lparr>pool := (pool s)
               \<lparr>pool_base := base entry, pool_length := region_length entry\<rparr>\<rparr>, found + 1)
        else (s, found)
      else (s, found))"

definition e820_end :: "e820_entry_t \<Rightarrow> bool" where
  "e820_end entry \<longleftrightarrow>
     base entry = 0 \<and> region_length entry = 0 \<and> region_type entry = 0 \<and> acpi entry = 0"

function init_pmm_scan :: "memory \<Rightarrow> u32 \<Rightarrow> u64 \<Rightarrow> nat \<Rightarrow> pmm \<times> nat \<Rightarrow> pmm \<times> nat" where
  "init_pmm_scan m e820map klength i st =
     (if i < 50 then
        let entry = read_e820 m (ucast e820map + 24 * of_nat i) in
        if e820_end entry then st
        else init_pmm_scan m e820map klength (Suc i) (init_pmm_entry klength entry st)
      else st)"
  by pat_completeness auto
termination
  by (relation "measure (\<lambda>(m, e, k, i, st). 50 - i)") auto

declare init_pmm_scan.simps [simp del]

text \<open>
  \<open>kernel_start\<close> and \<open>kernel_end\<close> are addresses the linker script defines. The whole
  100-byte map is cleared at the end.
\<close>

definition init_pmm :: "memory \<Rightarrow> u64 \<Rightarrow> u64 \<Rightarrow> u32 \<Rightarrow> pmm \<Rightarrow> pmm" where
  "init_pmm m kernel_start kernel_end e820map s =
     (let s = fst (init_pmm_scan m e820map (kernel_end - kernel_start) 0 (s, 0)) in
      s\<lparr>pool := (pool s)\<lparr>pages := pool_length (pool s) div 0x1000,
                          bitmap := replicate 100 0\<rparr>\<rparr>)"

section \<open>pmm_allocate\<close>

text \<open>
  The scan runs to \<open>pool.pages\<close>, while the map has 100 entries: reading past them is the
  fault \<open>Out_Of_Bounds\<close>. A full pool returns the null address.
\<close>

function pmm_allocate_loop :: "pmm \<Rightarrow> nat \<Rightarrow> (u64 \<times> pmm) res" where
  "pmm_allocate_loop s i =
     (if of_nat i < pages (pool s) then
        if length (bitmap (pool s)) \<le> i then Inl Out_Of_Bounds
        else if bitmap (pool s) ! i = 0 then
          Inr (pool_base (pool s) + of_nat i * PAGESIZE,
               s\<lparr>pool := (pool s)\<lparr>bitmap := (bitmap (pool s))[i := 1]\<rparr>\<rparr>)
        else pmm_allocate_loop s (Suc i)
      else Inr (0, s))"
  by pat_completeness auto
termination
  by (relation "measure (\<lambda>(s, i). length (bitmap (pool s)) - i)") auto

declare pmm_allocate_loop.simps [simp del]

definition pmm_allocate :: "pmm \<Rightarrow> (u64 \<times> pmm) res" where
  "pmm_allocate s = pmm_allocate_loop s 0"

definition pmm_kallocate :: "u64 \<Rightarrow> pmm \<Rightarrow> (u64 \<times> pmm) res" where
  "pmm_kallocate kernel_start s =
     seq (pmm_allocate s) (\<lambda>(a, s). Inr (kernel_start + a, s))"

definition get_usable_memory :: "pmm \<Rightarrow> u64" where
  "get_usable_memory s = pool_length (pool s)"

definition get_total_memory :: "pmm \<Rightarrow> u64" where
  "get_total_memory s = total_memory s"

section \<open>Frames\<close>

text \<open>
  A frame a page-table entry can hold: the address survives the mask of bits 12 to 51, that
  is, it is page aligned and below 2 to the 52.
\<close>

definition ADDRESS_MASK :: u64 where
  "ADDRESS_MASK = 0xFFFFFFFFFF000"

definition frame_ok :: "u64 \<Rightarrow> bool" where
  "frame_ok a \<longleftrightarrow> a AND ADDRESS_MASK = a"

lemma ADDRESS_MASK_bits: "bit ADDRESS_MASK n \<longleftrightarrow> 12 \<le> n \<and> n < 52"
proof -
  have eq: "ADDRESS_MASK = push_bit 12 (mask 40)"
    by (simp add: ADDRESS_MASK_def mask_eq_exp_minus_1)
  show ?thesis
    unfolding eq by (auto simp: bit_push_bit_iff bit_mask_iff)
qed

lemma frame_ok_iff: "frame_ok a \<longleftrightarrow> 4096 dvd unat a \<and> unat a < 2 ^ 52"
proof -
  have "frame_ok a \<longleftrightarrow> (\<forall>n. bit a n \<longrightarrow> 12 \<le> n \<and> n < 52)"
  proof
    assume "frame_ok a"
    then show "\<forall>n. bit a n \<longrightarrow> 12 \<le> n \<and> n < 52"
      unfolding frame_ok_def by (metis bit_and_iff ADDRESS_MASK_bits)
  next
    assume "\<forall>n. bit a n \<longrightarrow> 12 \<le> n \<and> n < 52"
    then show "frame_ok a"
      unfolding frame_ok_def by (intro bit_word_eqI) (auto simp: bit_and_iff ADDRESS_MASK_bits)
  qed
  also have "\<dots> \<longleftrightarrow> take_bit 12 a = 0 \<and> drop_bit 52 a = 0"
  proof safe
    assume *: "\<forall>n. bit a n \<longrightarrow> 12 \<le> n \<and> n < 52"
    show "take_bit 12 a = 0"
      using * by (intro bit_word_eqI) (auto simp: bit_take_bit_iff)
    show "drop_bit 52 a = 0"
      using * by (intro bit_word_eqI) (auto simp: bit_drop_bit_eq)
  next
    fix n assume t: "take_bit 12 a = 0" and d: "drop_bit 52 a = 0" and n: "bit a n"
    show "12 \<le> n"
      using arg_cong [OF t, of "\<lambda>w. bit w n"] n by (auto simp: bit_take_bit_iff)
    show "n < 52"
      using arg_cong [OF d, of "\<lambda>w. bit w (n - 52)"] n
      by (cases "n < 52") (auto simp: bit_drop_bit_eq not_less)
  qed
  also have "take_bit 12 a = 0 \<longleftrightarrow> unat (take_bit 12 a) = 0"
    by (simp add: unat_eq_zero)
  also have "unat (take_bit 12 a) = unat a mod 4096"
    by (rule unat_take_bit_12)
  also have "drop_bit 52 a = 0 \<longleftrightarrow> unat (drop_bit 52 a) = 0"
    by (simp add: unat_eq_zero)
  also have "unat (drop_bit 52 a) = drop_bit 52 (unat a)"
    by (rule unat_drop_bit_eq)
  also have "drop_bit 52 (unat a) = unat a div 2 ^ 52"
    by (simp add: drop_bit_eq_div)
  finally show ?thesis by (auto simp: dvd_eq_mod_eq_0 div_eq_0_iff)
qed

section \<open>The contract of a frame source\<close>

text \<open>
  What the page-table code relies on: a frame handed out is fresh and can be put in an entry,
  the null answer changes nothing, and the bookkeeping invariant is kept.
\<close>

primrec alloc_times ::
    "('s \<Rightarrow> (u64 \<times> 's) res) \<Rightarrow> nat \<Rightarrow> 's \<Rightarrow> (u64 list \<times> 's) res" where
  "alloc_times f 0 s = Inr ([], s)"
| "alloc_times f (Suc n) s =
     seq (f s) (\<lambda>(a, s). seq (alloc_times f n s) (\<lambda>(as, s). Inr (a # as, s)))"

locale frame_source =
  fixes alloc_frame :: "'s \<Rightarrow> (u64 \<times> 's) res"
    and used :: "'s \<Rightarrow> u64 set"
    and inv :: "'s \<Rightarrow> bool"
  assumes alloc_inv: "inv s \<Longrightarrow> alloc_frame s = Inr (a, s') \<Longrightarrow> inv s'"
    and alloc_fresh: "inv s \<Longrightarrow> alloc_frame s = Inr (a, s') \<Longrightarrow> a \<noteq> 0 \<Longrightarrow> a \<notin> used s"
    and alloc_used: "inv s \<Longrightarrow> alloc_frame s = Inr (a, s') \<Longrightarrow> a \<noteq> 0 \<Longrightarrow>
          used s' = insert a (used s)"
    and alloc_ok: "inv s \<Longrightarrow> alloc_frame s = Inr (a, s') \<Longrightarrow> frame_ok a"
    and alloc_null: "inv s \<Longrightarrow> alloc_frame s = Inr (0, s') \<Longrightarrow> s' = s"
begin

lemma used_mono: "inv s \<Longrightarrow> alloc_frame s = Inr (a, s') \<Longrightarrow> used s \<subseteq> used s'"
  using alloc_used alloc_null by (cases "a = 0") blast+

lemma two_allocs_differ:
  assumes "inv s" and "alloc_frame s = Inr (a, s')" and "alloc_frame s' = Inr (b, s'')"
    and "a \<noteq> 0" and "b \<noteq> 0"
  shows "a \<noteq> b"
proof
  assume "a = b"
  moreover have "a \<in> used s'" using assms alloc_used by blast
  moreover have "b \<notin> used s'" using assms alloc_inv alloc_fresh by blast
  ultimately show False by simp
qed

text \<open>A run of allocations hands out pairwise different frames.\<close>

lemma alloc_times_fresh:
  "alloc_times alloc_frame n s = Inr (as, s') \<Longrightarrow> 0 \<notin> set as \<Longrightarrow> inv s \<Longrightarrow>
     inv s' \<and> used s' = set as \<union> used s \<and> distinct as \<and> set as \<inter> used s = {} \<and>
     (\<forall>a\<in>set as. frame_ok a) \<and> length as = n"
proof (induction n arbitrary: s as)
  case 0
  then show ?case by simp
next
  case (Suc n)
  then obtain a s1 as' where a: "alloc_frame s = Inr (a, s1)"
    and rest: "alloc_times alloc_frame n s1 = Inr (as', s')" and "as = a # as'"
    by (auto simp: seq_eq_Inr)
  moreover have "inv s1" and "used s1 = insert a (used s)" and "a \<notin> used s" and "frame_ok a"
    using Suc.prems calculation alloc_inv alloc_used alloc_fresh alloc_ok by auto
  ultimately show ?case using Suc.IH [OF rest] Suc.prems by auto
qed

end

section \<open>The allocator is a frame source\<close>

text \<open>
  The bookkeeping invariant: the map has its 100 entries and the pool's first 100 frames are
  page aligned, non-null and within the 52 address bits.
\<close>

definition pmm_inv :: "pmm \<Rightarrow> bool" where
  "pmm_inv s \<longleftrightarrow> length (bitmap (pool s)) = 100 \<and> 4096 dvd unat (pool_base (pool s)) \<and>
     0 < unat (pool_base (pool s)) \<and> unat (pool_base (pool s)) + 409600 \<le> 2 ^ 52"

definition frame_addr :: "pmm \<Rightarrow> nat \<Rightarrow> u64" where
  "frame_addr s i = pool_base (pool s) + of_nat i * PAGESIZE"

definition used_frames :: "pmm \<Rightarrow> u64 set" where
  "used_frames s = {frame_addr s i | i. i < 100 \<and> bitmap (pool s) ! i \<noteq> 0}"

definition mark_frame :: "pmm \<Rightarrow> nat \<Rightarrow> pmm" where
  "mark_frame s i = s\<lparr>pool := (pool s)\<lparr>bitmap := (bitmap (pool s))[i := 1]\<rparr>\<rparr>"

lemma unat_frame_addr:
  assumes "pmm_inv s" and "i < 100"
  shows "unat (frame_addr s i) = unat (pool_base (pool s)) + i * 4096"
proof -
  have "of_nat i * PAGESIZE = of_nat (i * 4096)"
    by (simp add: PAGESIZE_def)
  then show ?thesis
    using assms unfolding frame_addr_def pmm_inv_def
    by (simp only:) (rule unat_add_no_wrap, simp)
qed

lemma frame_addr_inj:
  assumes "pmm_inv s" and "i < 100" and "j < 100" and "frame_addr s i = frame_addr s j"
  shows "i = j"
proof -
  have "unat (pool_base (pool s)) + i * 4096 = unat (pool_base (pool s)) + j * 4096"
    using unat_frame_addr [OF assms(1,2)] unat_frame_addr [OF assms(1,3)] assms(4) by argo
  then show ?thesis by simp
qed

lemma frame_addr_ok:
  assumes "pmm_inv s" and "i < 100"
  shows "frame_ok (frame_addr s i)" and "frame_addr s i \<noteq> 0"
proof -
  have "4096 dvd unat (frame_addr s i)" and "unat (frame_addr s i) < 2 ^ 52"
    and "0 < unat (frame_addr s i)"
    using assms by (auto simp: unat_frame_addr pmm_inv_def)
  then show "frame_ok (frame_addr s i)" and "frame_addr s i \<noteq> 0"
    by (auto simp: frame_ok_iff)
qed

text \<open>What the scan finds: the first free entry below both bounds, if there is one.\<close>

lemma pmm_allocate_loop_free:
  assumes "length (bitmap (pool s)) = 100" and "k < 100" and "of_nat k < pages (pool s)"
    and "bitmap (pool s) ! k = 0" and "\<forall>j<k. bitmap (pool s) ! j \<noteq> 0" and "i \<le> k"
  shows "pmm_allocate_loop s i = Inr (frame_addr s k, mark_frame s k)"
  using assms
proof (induction s i rule: pmm_allocate_loop.induct)
  case (1 s i)
  have "(of_nat i :: u64) \<le> of_nat k"
    using "1.prems" by (simp add: word_le_nat_alt unat_of_nat_u64)
  then have lt: "of_nat i < pages (pool s)" using "1.prems" by (meson le_less_trans)
  show ?case
  proof (cases "i = k")
    case True
    then show ?thesis
      using "1.prems" lt
      by (subst pmm_allocate_loop.simps) (simp add: frame_addr_def mark_frame_def)
  next
    case False
    then have nz: "bitmap (pool s) ! i \<noteq> 0" and i: "i < 100" and "Suc i \<le> k"
      using "1.prems" by auto
    then have "pmm_allocate_loop s (Suc i) = Inr (frame_addr s k, mark_frame s k)"
      using "1.IH" "1.prems" lt by simp
    then show ?thesis
      using "1.prems" lt nz i by (subst pmm_allocate_loop.simps) simp
  qed
qed

lemma pmm_allocate_loop_full:
  assumes "length (bitmap (pool s)) = 100" and "i \<le> min 100 (unat (pages (pool s)))"
    and "\<forall>j < min 100 (unat (pages (pool s))). bitmap (pool s) ! j \<noteq> 0"
  shows "pmm_allocate_loop s i =
    (if unat (pages (pool s)) \<le> 100 then Inr (0, s) else Inl Out_Of_Bounds)"
  using assms
proof (induction s i rule: pmm_allocate_loop.induct)
  case (1 s i)
  have lt: "(of_nat i :: u64) < pages (pool s) \<longleftrightarrow> i < unat (pages (pool s))"
    using "1.prems" by (simp add: word_less_nat_alt unat_of_nat_u64)
  show ?case
  proof (cases "i < 100 \<and> i < unat (pages (pool s))")
    case True
    then have nz: "bitmap (pool s) ! i \<noteq> 0" using "1.prems" by simp
    then have "pmm_allocate_loop s (Suc i) =
        (if unat (pages (pool s)) \<le> 100 then Inr (0, s) else Inl Out_Of_Bounds)"
      using "1.IH" "1.prems" True lt by simp
    then show ?thesis
      using True nz lt "1.prems" by (subst pmm_allocate_loop.simps) simp
  next
    case False
    then show ?thesis
      using lt "1.prems" by (subst pmm_allocate_loop.simps) auto
  qed
qed

text \<open>The reference: the first free index of the part of the map the pool covers.\<close>

definition first_free :: "pmm \<Rightarrow> nat option" where
  "first_free s = find (\<lambda>i. bitmap (pool s) ! i = 0) [0..<min 100 (unat (pages (pool s)))]"

lemma first_free_Some:
  "first_free s = Some k \<longleftrightarrow> k < 100 \<and> k < unat (pages (pool s)) \<and> bitmap (pool s) ! k = 0 \<and>
     (\<forall>j<k. bitmap (pool s) ! j \<noteq> 0)"
  unfolding first_free_def find_Some_iff by (auto simp: min_less_iff_conj)

lemma first_free_None:
  "first_free s = None \<longleftrightarrow> (\<forall>j < min 100 (unat (pages (pool s))). bitmap (pool s) ! j \<noteq> 0)"
  unfolding first_free_def find_None_iff by auto

lemma pmm_allocate_eq:
  assumes "length (bitmap (pool s)) = 100"
  shows "pmm_allocate s =
    (case first_free s of
       Some i \<Rightarrow> Inr (frame_addr s i, mark_frame s i)
     | None \<Rightarrow> if unat (pages (pool s)) \<le> 100 then Inr (0, s) else Inl Out_Of_Bounds)"
proof (cases "first_free s")
  case None
  then have "\<forall>j < min 100 (unat (pages (pool s))). bitmap (pool s) ! j \<noteq> 0"
    by (simp only: first_free_None)
  with assms show ?thesis
    by (simp add: None pmm_allocate_def pmm_allocate_loop_full)
next
  case (Some k)
  then have "k < 100" and "of_nat k < pages (pool s)" and "bitmap (pool s) ! k = 0"
    and "\<forall>j<k. bitmap (pool s) ! j \<noteq> 0"
    by (auto simp: first_free_Some word_less_nat_alt unat_of_nat_u64)
  with assms show ?thesis
    by (simp add: Some pmm_allocate_def pmm_allocate_loop_free)
qed

lemma pmm_allocate_Inr_cases:
  assumes "pmm_inv s" and "pmm_allocate s = Inr (a, s')"
  obtains (frame) k where "first_free s = Some k" and "k < 100" and "a = frame_addr s k"
      and "s' = mark_frame s k" and "a \<noteq> 0"
    | (full) "first_free s = None" and "a = 0" and "s' = s"
proof (cases "first_free s")
  case None
  then show ?thesis
    using assms full by (auto simp: pmm_inv_def pmm_allocate_eq split: if_splits)
next
  case (Some k)
  then have "k < 100" by (simp add: first_free_Some)
  with Some show ?thesis
    using assms frame frame_addr_ok [of s k] by (auto simp: pmm_inv_def pmm_allocate_eq)
qed

lemma mark_frame_sel [simp]:
  "pool_base (pool (mark_frame s k)) = pool_base (pool s)"
  "pages (pool (mark_frame s k)) = pages (pool s)"
  "bitmap (pool (mark_frame s k)) = (bitmap (pool s))[k := 1]"
  by (simp_all add: mark_frame_def)

lemma frame_addr_mark [simp]: "frame_addr (mark_frame s k) i = frame_addr s i"
  by (simp add: frame_addr_def)

lemma pmm_inv_mark [simp]: "pmm_inv (mark_frame s k) = pmm_inv s"
  by (simp add: pmm_inv_def)

lemma used_frames_mark:
  "pmm_inv s \<Longrightarrow> k < 100 \<Longrightarrow> used_frames (mark_frame s k) = insert (frame_addr s k) (used_frames s)"
  by (auto simp: used_frames_def pmm_inv_def nth_list_update)

interpretation frames: frame_source pmm_allocate used_frames pmm_inv
proof unfold_locales
  fix s s' :: pmm and a :: u64
  assume inv: "pmm_inv s" and alloc: "pmm_allocate s = Inr (a, s')"
  show "pmm_inv s'"
    by (rule pmm_allocate_Inr_cases [OF inv alloc]) (simp_all add: inv)
  show "frame_ok a"
    by (rule pmm_allocate_Inr_cases [OF inv alloc])
      (simp_all add: inv frame_addr_ok frame_ok_def [of 0])
next
  fix s s' :: pmm and a :: u64
  assume inv: "pmm_inv s" and alloc: "pmm_allocate s = Inr (a, s')" and "a \<noteq> 0"
  then obtain k where k: "first_free s = Some k" "k < 100" "a = frame_addr s k"
      "s' = mark_frame s k"
    using pmm_allocate_Inr_cases [OF inv alloc] by metis
  then have "bitmap (pool s) ! k = 0" by (simp add: first_free_Some)
  with k inv show "a \<notin> used_frames s"
    by (auto simp: used_frames_def dest: frame_addr_inj)
  show "used_frames s' = insert a (used_frames s)"
    using k inv by (simp add: used_frames_mark)
next
  fix s s' :: pmm
  assume inv: "pmm_inv s" and alloc: "pmm_allocate s = Inr (0, s')"
  show "s' = s"
    by (rule pmm_allocate_Inr_cases [OF inv alloc]) simp_all
qed

section \<open>What init_pmm leaves\<close>

text \<open>
  The memory map as the scan sees it: at most 50 entries, up to the terminating zero entry.
  The scan is a fold over them.
\<close>

definition e820_entries :: "memory \<Rightarrow> u32 \<Rightarrow> e820_entry_t list" where
  "e820_entries m e820map = takeWhile (\<lambda>e. \<not> e820_end e)
     (map (\<lambda>i. read_e820 m (ucast e820map + 24 * of_nat i)) [0..<50])"

lemma init_pmm_scan_fold:
  "init_pmm_scan m mp kl i st = fold (init_pmm_entry kl)
     (takeWhile (\<lambda>e. \<not> e820_end e)
       (map (\<lambda>i. read_e820 m (ucast mp + 24 * of_nat i)) [i..<50])) st"
proof (induction m mp kl i st rule: init_pmm_scan.induct)
  case (1 m mp kl i st)
  show ?case
  proof (cases "i < 50")
    case True
    then have "[i..<50] = i # [Suc i..<50]" by (simp add: upt_conv_Cons)
    then show ?thesis
      using True "1.IH" by (subst init_pmm_scan.simps) (simp add: Let_def)
  next
    case False
    then show ?thesis by (subst init_pmm_scan.simps) simp
  qed
qed

definition pool_candidate :: "e820_entry_t \<Rightarrow> bool" where
  "pool_candidate e \<longleftrightarrow> region_type e = 1 \<and> base e \<noteq> 0"

text \<open>The pool a chosen entry gives: past the kernel when the entry holds it.\<close>

definition pool_of_entry :: "u64 \<Rightarrow> e820_entry_t \<Rightarrow> u64 \<times> u64" where
  "pool_of_entry klength e =
     (if base e \<ge> 0x100000 \<and> base e \<le> 0x100000 + klength
      then ((0x100000 + klength + 0x1000 + 0xFFF) AND NOT 0xFFF, region_length e - klength)
      else (base e, region_length e))"

lemma init_pmm_entry_found:
  "found \<noteq> 0 \<Longrightarrow> init_pmm_entry kl e (s, found) =
     (if region_type e = 1 then s\<lparr>total_memory := total_memory s + region_length e\<rparr> else s, found)"
  by (simp add: init_pmm_entry_def Let_def)

lemma init_pmm_entry_first:
  "init_pmm_entry kl e (s, 0) =
     (let s' = (if region_type e = 1 then s\<lparr>total_memory := total_memory s + region_length e\<rparr>
                else s) in
      if pool_candidate e then
        (s'\<lparr>pool := (pool s')\<lparr>pool_base := fst (pool_of_entry kl e),
                              pool_length := snd (pool_of_entry kl e)\<rparr>\<rparr>, 1)
      else (s', 0))"
  by (auto simp: init_pmm_entry_def pool_candidate_def pool_of_entry_def Let_def
      word_le_nat_alt)

lemma fold_total_memory:
  "total_memory (fst (fold (init_pmm_entry kl) es (s, found))) =
     total_memory s + sum_list (map region_length (filter (\<lambda>e. region_type e = 1) es))"
proof (induction es arbitrary: s found)
  case Nil
  then show ?case by simp
next
  case (Cons e es)
  obtain s1 f1 where step: "init_pmm_entry kl e (s, found) = (s1, f1)" by fastforce
  then have "total_memory s1 = total_memory s + (if region_type e = 1 then region_length e else 0)"
    by (auto simp: init_pmm_entry_def Let_def split: if_splits)
  with Cons.IH [of s1 f1] step show ?case by (simp add: add.assoc)
qed

lemma fold_pool_found:
  "found \<noteq> 0 \<Longrightarrow> pool (fst (fold (init_pmm_entry kl) es (s, found))) = pool s"
proof (induction es arbitrary: s)
  case Nil
  then show ?case by simp
next
  case (Cons e es)
  then show ?case by (simp add: init_pmm_entry_found)
qed

lemma fold_pool_first:
  "pool (fst (fold (init_pmm_entry kl) es (s, 0))) =
     (case find pool_candidate es of
        None \<Rightarrow> pool s
      | Some e \<Rightarrow> (pool s)\<lparr>pool_base := fst (pool_of_entry kl e),
                            pool_length := snd (pool_of_entry kl e)\<rparr>)"
proof (induction es arbitrary: s)
  case Nil
  then show ?case by simp
next
  case (Cons e es)
  then show ?case
    by (auto simp: init_pmm_entry_first Let_def fold_pool_found split: option.split)
qed

lemma init_pmm_eq:
  "init_pmm m ks ke mp s =
     (let es = e820_entries m mp;
          p = (case find pool_candidate es of
                 None \<Rightarrow> (pool_base (pool s), pool_length (pool s))
               | Some e \<Rightarrow> pool_of_entry (ke - ks) e) in
      \<lparr>pool = \<lparr>pool_base = fst p, pool_length = snd p, pages = snd p div 0x1000,
              bitmap = replicate 100 0\<rparr>,
       total_memory = total_memory s +
         sum_list (map region_length (filter (\<lambda>e. region_type e = 1) es))\<rparr>)"
  unfolding init_pmm_def init_pmm_scan_fold e820_entries_def [symmetric]
  by (auto simp: Let_def fold_pool_first fold_total_memory split: option.splits)

section \<open>Serving a pool\<close>

text \<open>The state after the first \<open>k\<close> frames of a fresh pool are taken.\<close>

definition taken :: "pmm \<Rightarrow> nat \<Rightarrow> pmm" where
  "taken s k = s\<lparr>pool := (pool s)\<lparr>bitmap := replicate k 1 @ replicate (100 - k) 0\<rparr>\<rparr>"

lemma taken_sel [simp]:
  "pages (pool (taken s k)) = pages (pool s)"
  "pool_base (pool (taken s k)) = pool_base (pool s)"
  "bitmap (pool (taken s k)) = replicate k 1 @ replicate (100 - k) 0"
  by (simp_all add: taken_def)

lemma frame_addr_taken [simp]: "frame_addr (taken s k) i = frame_addr s i"
  by (simp add: frame_addr_def)

lemma mark_taken: "k < 100 \<Longrightarrow> mark_frame (taken s k) k = taken s (Suc k)"
proof -
  assume "k < 100"
  then have "100 - k = Suc (100 - Suc k)" by simp
  then have "(replicate k 1 @ replicate (100 - k) 0)[k := 1] =
      replicate (Suc k) (1 :: u8) @ replicate (100 - Suc k) 0"
    by (simp add: list_update_append replicate_app_Cons_same)
  then show ?thesis by (simp add: mark_frame_def taken_def)
qed

lemma first_free_taken:
  "first_free (taken s k) = (if k < 100 \<and> k < unat (pages (pool s)) then Some k else None)"
proof (cases "k < 100 \<and> k < unat (pages (pool s))")
  case True
  then have "first_free (taken s k) = Some k"
    by (simp add: first_free_Some nth_append)
  with True show ?thesis by simp
next
  case False
  then have "first_free (taken s k) = None"
    by (auto simp: first_free_None nth_append)
  with False show ?thesis by simp
qed

lemma pmm_allocate_taken:
  assumes "k \<le> 100"
  shows "pmm_allocate (taken s k) =
    (if k < 100 \<and> k < unat (pages (pool s)) then Inr (frame_addr s k, taken s (Suc k))
     else if unat (pages (pool s)) \<le> 100 then Inr (0, taken s k) else Inl Out_Of_Bounds)"
  using assms by (simp add: pmm_allocate_eq first_free_taken mark_taken)

lemma alloc_times_taken:
  "k + n \<le> 100 \<Longrightarrow> k + n \<le> unat (pages (pool s)) \<Longrightarrow>
     alloc_times pmm_allocate n (taken s k) = Inr (map (frame_addr s) [k..<k + n], taken s (k + n))"
proof (induction n arbitrary: k)
  case 0
  then show ?case by simp
next
  case (Suc n)
  then have "alloc_times pmm_allocate n (taken s (Suc k)) =
      Inr (map (frame_addr s) [Suc k..<Suc k + n], taken s (Suc k + n))"
    by (intro Suc.IH) auto
  moreover have "[k..<k + Suc n] = k # [Suc k..<Suc k + n]"
    by (simp add: upt_conv_Cons del: upt_Suc)
  ultimately show ?case
    using Suc.prems by (simp add: pmm_allocate_taken del: upt_Suc)
qed

lemma taken_0: "bitmap (pool s) = replicate 100 0 \<Longrightarrow> taken s 0 = s"
  by (simp add: taken_def)

section \<open>Free frames\<close>

definition free_count :: "pmm \<Rightarrow> nat" where
  "free_count s = card {i. i < 100 \<and> i < unat (pages (pool s)) \<and> bitmap (pool s) ! i = 0}"

lemma free_count_mark:
  assumes "pmm_inv s" and "first_free s = Some k"
  shows "Suc (free_count (mark_frame s k)) = free_count s"
proof -
  let ?F = "{i. i < 100 \<and> i < unat (pages (pool s)) \<and> bitmap (pool s) ! i = 0}"
  have k: "k \<in> ?F" and len: "length (bitmap (pool s)) = 100"
    using assms by (auto simp: first_free_Some pmm_inv_def)
  have "{i. i < 100 \<and> i < unat (pages (pool s)) \<and> (bitmap (pool s))[k := 1] ! i = 0} = ?F - {k}"
    using k len by (auto simp: nth_list_update)
  moreover have "finite ?F" by (rule finite_subset [of _ "{..<100}"]) auto
  then have "Suc (card (?F - {k})) = card ?F" using k by (rule card_Suc_Diff1)
  ultimately show ?thesis by (simp add: free_count_def)
qed

lemma pmm_allocate_succeeds:
  assumes "pmm_inv s" and "0 < free_count s"
  shows "\<exists>a s'. pmm_allocate s = Inr (a, s') \<and> a \<noteq> 0 \<and> Suc (free_count s') = free_count s"
proof -
  have "{i. i < 100 \<and> i < unat (pages (pool s)) \<and> bitmap (pool s) ! i = 0} \<noteq> {}"
    using assms(2) unfolding free_count_def by (metis card.empty less_irrefl)
  then have "first_free s \<noteq> None" by (auto simp: first_free_None)
  then obtain k where k: "first_free s = Some k" by auto
  then have "k < 100" by (simp add: first_free_Some)
  then show ?thesis
    using assms(1) k frame_addr_ok [of s k] free_count_mark [of s k]
    by (auto simp: pmm_inv_def pmm_allocate_eq)
qed

lemma free_count_taken:
  assumes "k \<le> min 100 (unat (pages (pool s)))"
  shows "free_count (taken s k) = min 100 (unat (pages (pool s))) - k"
proof -
  have "{i. i < 100 \<and> i < unat (pages (pool s)) \<and>
      (replicate k 1 @ replicate (100 - k) 0 :: u8 list) ! i = 0} =
    {k ..< min 100 (unat (pages (pool s)))}"
    using assms by (auto simp: nth_append)
  then show ?thesis by (simp add: free_count_def)
qed

section \<open>Properties\<close>

definition sample_pmm :: pmm where
  "sample_pmm = \<lparr>pool = \<lparr>pool_base = 0x200000, pool_length = 0x100000, pages = 256,
                          bitmap = replicate 100 0\<rparr>, total_memory = 0x100000\<rparr>"

lemma sample_pmm_facts:
  "pmm_inv sample_pmm" "taken sample_pmm 0 = sample_pmm" "pages (pool sample_pmm) = 256"
  "pool_base (pool sample_pmm) = 0x200000" "length (bitmap (pool sample_pmm)) = 100"
  by (simp_all add: pmm_inv_def sample_pmm_def taken_def)

text \<open>
  Lemma pmm_allocate_first_fit. \<open>pmm_allocate\<close> is first fit: it returns the frame of the first
  free entry of the map and marks it taken, returns null and changes nothing when every frame
  of the pool is taken, and reads outside the map when the pool has more than 100 frames and
  the first 100 are taken.
\<close>

theorem pmm_allocate_first_fit:
  assumes "length (bitmap (pool s)) = 100"
  shows "pmm_allocate s =
    (case first_free s of
       Some i \<Rightarrow> Inr (pool_base (pool s) + of_nat i * PAGESIZE, mark_frame s i)
     | None \<Rightarrow> if unat (pages (pool s)) \<le> 100 then Inr (0, s) else Inl Out_Of_Bounds)"
  using pmm_allocate_eq [OF assms] unfolding frame_addr_def .

theorem pmm_allocate_first_fit_witness:
  "pmm_allocate sample_pmm = Inr (0x200000, mark_frame sample_pmm 0)"
proof -
  have "first_free sample_pmm = Some 0"
    by (simp add: first_free_Some sample_pmm_def)
  then show ?thesis
    using pmm_allocate_first_fit [of sample_pmm] by (simp add: sample_pmm_facts)
qed

text \<open>
  C19 pmm_allocations_fresh. In any run of successful allocations the frames are pairwise
  different, none was in use before, each is page aligned and fits a page-table entry, and
  exactly these frames become used.
\<close>

theorem pmm_allocations_fresh:
  assumes "pmm_inv s" and "alloc_times pmm_allocate n s = Inr (as, s')" and "0 \<notin> set as"
  shows "distinct as \<and> set as \<inter> used_frames s = {} \<and> (\<forall>a\<in>set as. frame_ok a) \<and>
    used_frames s' = set as \<union> used_frames s \<and> pmm_inv s'"
  using frames.alloc_times_fresh [OF assms(2,3,1)] by auto

theorem pmm_allocations_fresh_witness:
  "distinct [0x200000, 0x201000 :: u64] \<and> used_frames (taken sample_pmm 2) =
     {0x200000, 0x201000} \<union> used_frames sample_pmm"
proof -
  have run: "alloc_times pmm_allocate 2 sample_pmm = Inr ([0x200000, 0x201000], taken sample_pmm 2)"
    using alloc_times_taken [of 0 2 sample_pmm]
    by (simp add: sample_pmm_facts frame_addr_def PAGESIZE_def upt_rec flip: numeral_2_eq_2)
  show ?thesis
    using pmm_allocations_fresh [OF sample_pmm_facts(1) run] by simp
qed

text \<open>
  Lemma pmm_serves_pool. A freshly initialised pool of \<open>p\<close> frames serves \<open>min p 100\<close> requests
  with its frames in ascending order; the next request gets null when \<open>p\<close> is at most 100, and
  reads past the end of the 100-byte map when it is larger.
\<close>

theorem pmm_serves_pool:
  assumes "bitmap (pool s) = replicate 100 0" and "n = min 100 (unat (pages (pool s)))"
  shows "\<exists>s'. alloc_times pmm_allocate n s =
        Inr (map (\<lambda>i. pool_base (pool s) + of_nat i * PAGESIZE) [0..<n], s') \<and>
      pmm_allocate s' =
        (if unat (pages (pool s)) \<le> 100 then Inr (0, s') else Inl Out_Of_Bounds)"
proof (intro exI conjI)
  show "alloc_times pmm_allocate n s =
      Inr (map (\<lambda>i. pool_base (pool s) + of_nat i * PAGESIZE) [0..<n], taken s n)"
    using alloc_times_taken [of 0 n s] assms by (simp add: taken_0 frame_addr_def)
  show "pmm_allocate (taken s n) =
      (if unat (pages (pool s)) \<le> 100 then Inr (0, taken s n) else Inl Out_Of_Bounds)"
    using assms by (auto simp: pmm_allocate_taken)
qed

theorem pmm_serves_pool_witness:
  "\<exists>s'. alloc_times pmm_allocate 100 sample_pmm =
        Inr (map (\<lambda>i. 0x200000 + of_nat i * PAGESIZE) [0..<100], s') \<and>
      pmm_allocate s' = Inl Out_Of_Bounds"
  using pmm_serves_pool [of sample_pmm 100] by (simp add: sample_pmm_def)

text \<open>
  C20 init_pmm_result. After \<open>init_pmm\<close> the total is the sum of the lengths of the usable
  entries before the terminator, the pool is that of the first usable entry with a non-zero
  base (moved past the kernel when the entry holds it, unchanged when there is none), it
  counts the whole frames of its length, and every entry of the map is free.
\<close>

theorem init_pmm_result:
  "init_pmm m kernel_start kernel_end e820map s =
     (let es = e820_entries m e820map;
          p = (case find pool_candidate es of
                 None \<Rightarrow> (pool_base (pool s), pool_length (pool s))
               | Some e \<Rightarrow> pool_of_entry (kernel_end - kernel_start) e) in
      \<lparr>pool = \<lparr>pool_base = fst p, pool_length = snd p, pages = snd p div 0x1000,
              bitmap = replicate 100 0\<rparr>,
       total_memory = total_memory s +
         sum_list (map region_length (filter (\<lambda>e. region_type e = 1) es))\<rparr>)"
  by (rule init_pmm_eq)

lemma page_up_gt:
  assumes "unat x + 0xFFF < 2 ^ 64"
  shows "unat x \<le> unat ((x + 0xFFF) AND NOT 0xFFF :: u64)"
    and "4096 dvd unat ((x + 0xFFF) AND NOT 0xFFF :: u64)"
proof -
  have "unat (x + 0xFFF) = unat x + 0xFFF"
    using assms unat_add_no_wrap_word [of x "0xFFF"] by simp
  then have "unat ((x + 0xFFF) AND NOT 0xFFF) = unat x + 0xFFF - (unat x + 0xFFF) mod 4096"
    by (simp only: unat_page_down)
  then show "unat x \<le> unat ((x + 0xFFF) AND NOT 0xFFF)"
    and "4096 dvd unat ((x + 0xFFF) AND NOT 0xFFF)"
    by (simp_all only: minus_mod_eq_mult_div dvd_triv_left)
qed

text \<open>
  Lemma init_pmm_pool_overruns_region. When the pool is cut from a region that starts at one
  megabyte, its base skips the kernel and at least one more page while its length is only
  reduced by the kernel's: the pool ends at least a page past the region's end.
\<close>

theorem init_pmm_pool_overruns_region:
  assumes "find pool_candidate (e820_entries m e820map) = Some e" and "base e = 0x100000"
    and "unat (kernel_end - kernel_start) \<le> unat (region_length e)"
    and "unat (region_length e) < 2 ^ 52"
  shows "let p = pool (init_pmm m kernel_start kernel_end e820map s) in
     unat (base e) + unat (region_length e) + 0x1000 \<le> unat (pool_base p) + unat (pool_length p)"
proof -
  let ?kl = "kernel_end - kernel_start"
  let ?x = "0x100000 + ?kl + 0x1000 :: u64"
  have kl: "unat ?kl < 2 ^ 52" using assms(3,4) by simp
  have "unat (0x100000 + ?kl) = 0x100000 + unat ?kl"
    using kl unat_add_no_wrap_word [of "0x100000" ?kl] by simp
  then have x: "unat ?x = 0x101000 + unat ?kl"
    using kl unat_add_no_wrap_word [of "0x100000 + ?kl" "0x1000"] by simp
  have "unat ?x \<le> unat ((?x + 0xFFF) AND NOT 0xFFF)"
    using kl x by (intro page_up_gt) simp
  moreover have "unat (region_length e - ?kl) = unat (region_length e) - unat ?kl"
    using assms(3) by (intro unat_sub) (simp add: word_le_nat_alt)
  moreover have "0x100000 \<le> 0x100000 + ?kl"
    using \<open>unat (0x100000 + ?kl) = 0x100000 + unat ?kl\<close> by (simp add: word_le_nat_alt)
  then have "pool_of_entry ?kl e = ((?x + 0xFFF) AND NOT 0xFFF, region_length e - ?kl)"
    using assms(2) by (simp add: pool_of_entry_def)
  ultimately show ?thesis
    using assms x by (simp add: init_pmm_eq Let_def)
qed

definition sample_map :: memory where
  "sample_map a = (if a = 0x5002 then 0x10 else if a = 0x500B then 4
     else if a = 0x5010 then 1 else 0)"

lemma sample_map_entries:
  "e820_entries sample_map 0x5000 =
     [\<lparr>base = 0x100000, region_length = 0x4000000, region_type = 1, acpi = 0\<rparr>]"
proof -
  have e0: "read_e820 sample_map 0x5000 =
      \<lparr>base = 0x100000, region_length = 0x4000000, region_type = 1, acpi = 0\<rparr>"
    by (simp add: read_e820_def load64_def load32_def sample_map_def mem_eval)
  have e1: "read_e820 sample_map 0x5018 =
      \<lparr>base = 0, region_length = 0, region_type = 0, acpi = 0\<rparr>"
    by (simp add: read_e820_def load64_def load32_def sample_map_def mem_eval)
  have "[0..<50] = 0 # 1 # [2..<50]" by (simp add: upt_conv_Cons)
  then show ?thesis
    by (simp only: e820_entries_def list.map takeWhile.simps) (simp add: e0 e1 e820_end_def)
qed

theorem init_pmm_pool_overruns_region_witness:
  "let p = pool (init_pmm sample_map 0x80000000 0x80008000 0x5000 sample_pmm) in
     0x4101000 \<le> unat (pool_base p) + unat (pool_length p)"
  using init_pmm_pool_overruns_region [of sample_map "0x5000"
      "\<lparr>base = 0x100000, region_length = 0x4000000, region_type = 1, acpi = 0\<rparr>"
      "0x80008000" "0x80000000" sample_pmm]
  by (simp add: sample_map_entries pool_candidate_def)

end
