(* ===== verification/PageTables.thy ===== *)
theory PageTables
  imports Pmm "HOL-Library.Sublist"
begin

text \<open>
  Four-level page tables as the processor reads them: a view gives the 64-bit entry of each
  table and index, a path of indices leads from the root table to a table of a lower level,
  and the fourth index selects the leaf entry of a page. This is the specification side of
  \<open>kernel/memory/vmm.c\<close>; how the tables change when one entry is written is settled here
  once.
\<close>

section \<open>Views, paths and leaves\<close>

type_synonym view = "u64 \<Rightarrow> u64 \<Rightarrow> u64"

definition present :: "u64 \<Rightarrow> bool" where
  "present e \<longleftrightarrow> e AND 1 \<noteq> 0"

fun table_at :: "view \<Rightarrow> u64 \<Rightarrow> u64 list \<Rightarrow> u64 option" where
  "table_at E t [] = Some t"
| "table_at E t (i # p) =
     (if present (E t i) then table_at E (E t i AND ADDRESS_MASK) p else None)"

definition leaf :: "view \<Rightarrow> u64 \<Rightarrow> u64 list \<Rightarrow> u64 \<Rightarrow> u64 option" where
  "leaf E root p i =
     (case table_at E root p of
        None \<Rightarrow> None
      | Some t \<Rightarrow> if present (E t i) then Some (E t i) else None)"

definition path_ok :: "u64 list \<Rightarrow> bool" where
  "path_ok p \<longleftrightarrow> length p \<le> 3 \<and> (\<forall>i\<in>set p. i < 512)"

text \<open>The tables form a tree: every table reached is a known frame, and by one path only.\<close>

definition tree_ok :: "view \<Rightarrow> u64 \<Rightarrow> u64 set \<Rightarrow> bool" where
  "tree_ok E root U \<longleftrightarrow>
     (\<forall>p t. path_ok p \<and> table_at E root p = Some t \<longrightarrow> t \<in> U) \<and>
     (\<forall>p q t. path_ok p \<and> path_ok q \<and> table_at E root p = Some t \<and>
        table_at E root q = Some t \<longrightarrow> p = q)"

text \<open>The paths that lead to a table.\<close>

definition table_paths :: "view \<Rightarrow> u64 \<Rightarrow> u64 list set" where
  "table_paths E root = {p. path_ok p \<and> table_at E root p \<noteq> None}"

lemma table_at_snoc:
  "table_at E t (p @ [i]) =
     (case table_at E t p of
        None \<Rightarrow> None
      | Some u \<Rightarrow> if present (E u i) then Some (E u i AND ADDRESS_MASK) else None)"
  by (induction p arbitrary: t) auto

lemma path_ok_snoc [simp]: "path_ok (p @ [i]) \<longleftrightarrow> length p \<le> 2 \<and> path_ok p \<and> i < 512"
  by (auto simp: path_ok_def)

lemma path_ok_Nil [simp]: "path_ok []"
  by (simp add: path_ok_def)

lemma tree_ok_member: "tree_ok E root U \<Longrightarrow> path_ok p \<Longrightarrow> table_at E root p = Some t \<Longrightarrow> t \<in> U"
  by (auto simp: tree_ok_def)

lemma tree_ok_inj:
  "tree_ok E root U \<Longrightarrow> path_ok p \<Longrightarrow> path_ok q \<Longrightarrow> table_at E root p = Some t \<Longrightarrow>
     table_at E root q = Some t \<Longrightarrow> p = q"
  by (auto simp: tree_ok_def)

lemma finite_paths: "finite {p. path_ok p}"
proof -
  have "{p. path_ok p} \<subseteq> {p :: u64 list. set p \<subseteq> UNIV \<and> length p \<le> 3}"
    by (auto simp: path_ok_def)
  then show ?thesis
    by (rule finite_subset) (rule finite_lists_length_le, simp)
qed

lemma finite_table_paths: "finite (table_paths E root)"
  by (rule finite_subset [OF _ finite_paths]) (auto simp: table_paths_def)

section \<open>Hanging a fresh, empty table into a slot\<close>

text \<open>
  \<open>graft E E' t i f\<close>: \<open>E'\<close> is \<open>E\<close> with the frame \<open>f\<close> cleared and the slot \<open>i\<close> of table
  \<open>t\<close> pointing to it, as far as frames and indices below 512 go.
\<close>

definition graft :: "view \<Rightarrow> view \<Rightarrow> u64 \<Rightarrow> u64 \<Rightarrow> u64 \<Rightarrow> bool" where
  "graft E E' t i f \<longleftrightarrow>
     (\<forall>u j. frame_ok u \<and> j < 512 \<longrightarrow>
        (u = t \<and> j = i \<longrightarrow> present (E' u j) \<and> E' u j AND ADDRESS_MASK = f) \<and>
        (\<not> (u = t \<and> j = i) \<longrightarrow> E' u j = (if u = f then 0 else E u j)))"

lemma not_present_0 [simp]: "\<not> present 0"
  by (simp add: present_def)

lemma table_at_graft:
  assumes tree: "tree_ok E root U" and U: "\<forall>u\<in>U. frame_ok u"
    and p: "path_ok (p @ [i])" and t: "table_at E root p = Some t"
    and slot: "\<not> present (E t i)" and f: "f \<notin> U" "frame_ok f"
    and graft: "graft E E' t i f" and q: "path_ok q"
  shows "table_at E' root q =
    (if q = p @ [i] then Some f else if strict_prefix (p @ [i]) q then None
     else table_at E root q)"
  using q
proof (induction q rule: rev_induct)
  case Nil
  then show ?case by simp
next
  case (snoc j q)
  then have q: "path_ok q" "j < 512" by simp_all
  note IH = snoc.IH [OF q(1)]
  have tU: "t \<in> U" using tree p t tree_ok_member [of E root U p t] by simp
  show ?case
  proof (cases "q = p @ [i]")
    case True
    have "f \<noteq> t" using f tU by auto
    then have "E' f j = 0" using graft f q unfolding graft_def by auto
    moreover have "table_at E' root q = Some f" using IH True by simp
    ultimately have "table_at E' root (q @ [j]) = None" by (simp add: table_at_snoc)
    moreover have "strict_prefix (p @ [i]) (q @ [j])" and "q @ [j] \<noteq> p @ [i]"
      using True by (auto simp: strict_prefix_def)
    ultimately show ?thesis by simp
  next
    case False
    note neq = this
    show ?thesis
    proof (cases "strict_prefix (p @ [i]) q")
      case True
      then have "table_at E' root q = None" using IH neq by simp
      moreover have "strict_prefix (p @ [i]) (q @ [j])"
        using True by (metis prefix_order.less_le_trans prefixI)
      moreover have "q @ [j] \<noteq> p @ [i]"
        using prefix_length_less [OF True] by auto
      ultimately show ?thesis by (simp add: table_at_snoc)
    next
      case False
      with neq IH have eq: "table_at E' root q = table_at E root q" by simp
      have sp: "\<not> strict_prefix (p @ [i]) (q @ [j])"
        using False neq by (auto simp: strict_prefix_def prefix_snoc)
      show ?thesis
      proof (cases "table_at E root q")
        case None
        then have "q \<noteq> p" using t by auto
        with None eq sp show ?thesis by (simp add: table_at_snoc)
      next
        case (Some u)
        then have uU: "u \<in> U" using tree q tree_ok_member by blast
        then have fu: "frame_ok u" and uf: "u \<noteq> f" using U f by auto
        have ut: "u = t \<longleftrightarrow> q = p"
          using tree_ok_inj [OF tree q(1) _ Some, of p] p t Some by (metis option.inject path_ok_snoc)
        show ?thesis
        proof (cases "q = p \<and> j = i")
          case True
          then have "present (E' u j)" and "E' u j AND ADDRESS_MASK = f"
            using graft fu q(2) ut unfolding graft_def by blast+
          then have "table_at E' root (q @ [j]) = Some f"
            by (simp add: table_at_snoc eq Some)
          with True show ?thesis by simp
        next
          case False
          then have "E' u j = E u j"
            using graft fu uf q(2) ut unfolding graft_def by auto
          then have "table_at E' root (q @ [j]) = table_at E root (q @ [j])"
            by (simp add: table_at_snoc eq Some)
          with False sp show ?thesis by auto
        qed
      qed
    qed
  qed
qed

lemma table_at_append:
  "table_at E t (p @ q) = Option.bind (table_at E t p) (\<lambda>u. table_at E u q)"
  by (induction p arbitrary: t) auto

lemma table_at_strict_prefix:
  "table_at E t p = None \<Longrightarrow> strict_prefix p q \<Longrightarrow> table_at E t q = None"
  by (auto simp: strict_prefix_def prefix_def table_at_append)

text \<open>The situation of a graft, as one predicate for the lemmas below.\<close>

definition grafting ::
    "view \<Rightarrow> view \<Rightarrow> u64 \<Rightarrow> u64 set \<Rightarrow> u64 list \<Rightarrow> u64 \<Rightarrow> u64 \<Rightarrow> u64 \<Rightarrow> bool" where
  "grafting E E' root U p i t f \<longleftrightarrow>
     tree_ok E root U \<and> (\<forall>u\<in>U. frame_ok u) \<and> path_ok (p @ [i]) \<and>
     table_at E root p = Some t \<and> \<not> present (E t i) \<and> f \<notin> U \<and> frame_ok f \<and>
     graft E E' t i f"

lemma grafting_table_at:
  "grafting E E' root U p i t f \<Longrightarrow> path_ok q \<Longrightarrow> table_at E' root q =
    (if q = p @ [i] then Some f else if strict_prefix (p @ [i]) q then None
     else table_at E root q)"
  unfolding grafting_def using table_at_graft [of E root U p i t f E' q] by simp

lemma grafting_slot_None:
  "grafting E E' root U p i t f \<Longrightarrow> table_at E root (p @ [i]) = None"
  by (simp add: grafting_def table_at_snoc)

lemma grafting_table_paths:
  assumes "grafting E E' root U p i t f"
  shows "table_paths E' root = insert (p @ [i]) (table_paths E root)"
    and "p @ [i] \<notin> table_paths E root"
proof -
  have ok: "path_ok (p @ [i])" using assms by (simp add: grafting_def)
  show "p @ [i] \<notin> table_paths E root"
    using grafting_slot_None [OF assms] by (simp add: table_paths_def)
  have "table_at E root q = None" if "strict_prefix (p @ [i]) q" for q
    using grafting_slot_None [OF assms] that by (rule table_at_strict_prefix)
  then show "table_paths E' root = insert (p @ [i]) (table_paths E root)"
    using ok unfolding table_paths_def
    by (auto simp: grafting_table_at [OF assms] split: if_splits)
qed

lemma grafting_keeps_tables:
  assumes "grafting E E' root U p i t f" and "path_ok q" and "table_at E root q = Some u"
  shows "table_at E' root q = Some u"
proof -
  have "q \<noteq> p @ [i]" and "\<not> strict_prefix (p @ [i]) q"
    using grafting_slot_None [OF assms(1)] assms(3)
      table_at_strict_prefix [of E root "p @ [i]" q] by auto
  with assms show ?thesis by (simp add: grafting_table_at)
qed

lemma grafting_tree_ok:
  assumes "grafting E E' root U p i t f"
  shows "tree_ok E' root (insert f U)"
proof -
  have tree: "tree_ok E root U" and f: "f \<notin> U" using assms by (auto simp: grafting_def)
  have cases: "(q = p @ [i] \<and> u = f) \<or> (q \<noteq> p @ [i] \<and> table_at E root q = Some u)"
    if "path_ok q" and "table_at E' root q = Some u" for q u
    using that by (auto simp: grafting_table_at [OF assms] split: if_splits)
  show ?thesis
    unfolding tree_ok_def
  proof (intro conjI allI impI)
    fix q u assume "path_ok q \<and> table_at E' root q = Some u"
    then show "u \<in> insert f U"
      using cases [of q u] tree_ok_member [OF tree] by blast
  next
    fix q q' u
    assume "path_ok q \<and> path_ok q' \<and> table_at E' root q = Some u \<and> table_at E' root q' = Some u"
    then show "q = q'"
      using cases [of q u] cases [of q' u] tree_ok_member [OF tree] tree_ok_inj [OF tree] f
      by metis
  qed
qed

lemma grafting_leaf:
  assumes g: "grafting E E' root U p i t f" and q: "path_ok q" "length q = 3" "j < 512"
  shows "leaf E' root q j = leaf E root q j"
proof (cases "table_at E root q")
  case None
  then have "leaf E root q j = None" by (simp add: leaf_def)
  moreover have "leaf E' root q j = None"
  proof (cases "q = p @ [i]")
    case True
    have "t \<in> U" using g tree_ok_member [of E root U p t] by (simp add: grafting_def)
    then have "f \<noteq> t" using g by (auto simp: grafting_def)
    then have "E' f j = 0" using g q by (auto simp: grafting_def graft_def)
    then show ?thesis using True q by (simp add: leaf_def grafting_table_at [OF g])
  next
    case False
    with None q show ?thesis by (simp add: leaf_def grafting_table_at [OF g])
  qed
  ultimately show ?thesis by simp
next
  case (Some u)
  have tree: "tree_ok E root U" and U: "\<forall>u\<in>U. frame_ok u" and t: "table_at E root p = Some t"
    and p: "path_ok p" "length p \<le> 2" and f: "f \<notin> U"
    using g by (auto simp: grafting_def)
  have u: "u \<in> U" using tree q(1) Some by (rule tree_ok_member)
  have "u \<noteq> t" using tree_ok_inj [OF tree q(1) p(1) Some] t p q by auto
  then have "E' u j = E u j" using g u U f q by (auto simp: grafting_def graft_def)
  then show ?thesis using Some grafting_keeps_tables [OF g q(1) Some] by (simp add: leaf_def)
qed

section \<open>Writing a leaf entry\<close>

definition leaf_set :: "view \<Rightarrow> view \<Rightarrow> u64 \<Rightarrow> u64 \<Rightarrow> u64 \<Rightarrow> bool" where
  "leaf_set E E' t i v \<longleftrightarrow>
     (\<forall>u j. frame_ok u \<and> j < 512 \<longrightarrow> E' u j = (if u = t \<and> j = i then v else E u j))"

lemma table_at_leaf_set:
  assumes tree: "tree_ok E root U" and U: "\<forall>u\<in>U. frame_ok u" and p: "path_ok p" "length p = 3"
    and t: "table_at E root p = Some t" and set: "leaf_set E E' t i v" and q: "path_ok q"
  shows "table_at E' root q = table_at E root q"
  using q
proof (induction q rule: rev_induct)
  case Nil
  then show ?case by simp
next
  case (snoc j q)
  then have q: "path_ok q" "length q \<le> 2" "j < 512" by simp_all
  show ?case
  proof (cases "table_at E root q")
    case None
    then show ?thesis using snoc.IH q by (simp add: table_at_snoc)
  next
    case (Some u)
    then have "u \<in> U" and "u \<noteq> t"
      using tree_ok_member [OF tree q(1)] tree_ok_inj [OF tree q(1) p(1) Some] t p q by auto
    then have "E' u j = E u j" using set U q by (auto simp: leaf_set_def)
    then show ?thesis using snoc.IH q Some by (simp add: table_at_snoc)
  qed
qed

lemma leaf_leaf_set:
  assumes tree: "tree_ok E root U" and U: "\<forall>u\<in>U. frame_ok u" and p: "path_ok p" "length p = 3"
    and t: "table_at E root p = Some t" and set: "leaf_set E E' t i v" and q: "path_ok q"
    and j: "j < 512" and v: "present v"
  shows "leaf E' root q j = (if q = p \<and> j = i then Some v else leaf E root q j)"
proof (cases "table_at E root q")
  case None
  then show ?thesis
    using table_at_leaf_set [OF tree U p t set q] t by (auto simp: leaf_def)
next
  case (Some u)
  then have "u \<in> U" and "u = t \<longleftrightarrow> q = p"
    using tree_ok_member [OF tree q] tree_ok_inj [OF tree q p(1) Some] t by auto
  then have "E' u j = (if q = p \<and> j = i then v else E u j)"
    using set U j by (auto simp: leaf_set_def)
  then show ?thesis
    using table_at_leaf_set [OF tree U p t set q] Some t v by (auto simp: leaf_def)
qed

lemma tree_ok_leaf_set:
  assumes tree: "tree_ok E root U" and "\<forall>u\<in>U. frame_ok u" and "path_ok p" "length p = 3"
    and "table_at E root p = Some t" and "leaf_set E E' t i v"
  shows "tree_ok E' root U" and "table_paths E' root = table_paths E root"
proof -
  have eq: "table_at E' root q = table_at E root q" if "path_ok q" for q
    using table_at_leaf_set [OF assms that] .
  show "tree_ok E' root U"
    using tree unfolding tree_ok_def by (metis eq)
  show "table_paths E' root = table_paths E root"
    by (auto simp: table_paths_def eq)
qed

lemma tree_ok_mono: "tree_ok E root U \<Longrightarrow> U \<subseteq> U' \<Longrightarrow> tree_ok E root U'"
  unfolding tree_ok_def by blast

end
