(* ===== verification/Vmm.thy ===== *)
theory Vmm
  imports PageTables
begin

text \<open>
  The virtual memory manager, \<open>kernel/memory/vmm.c\<close>: \<open>map_page\<close> walks the four levels of
  page tables, allocating and clearing the tables that are missing, and sets the leaf entry
  if it is absent; \<open>init_paging\<close>, \<open>alloc\<close> and \<open>map_kernel\<close> call it in loops. Table
  pointers are physical addresses, read and written as such.
\<close>

section \<open>State\<close>

record vm =
  mem :: memory
  phys :: pmm
  pml :: u64
  cr3 :: u64

definition PRESENT :: u64 where "PRESENT = 1"
definition WRITABLE :: u64 where "WRITABLE = 2"
definition PAT :: u64 where "PAT = 0x80"

definition PT_INDEX :: "u64 \<Rightarrow> u64" where
  "PT_INDEX address = drop_bit 12 address AND 0x1FF"

definition PMD_INDEX :: "u64 \<Rightarrow> u64" where
  "PMD_INDEX address = drop_bit 21 address AND 0x1FF"

definition PUD_INDEX :: "u64 \<Rightarrow> u64" where
  "PUD_INDEX address = drop_bit 30 address AND 0x1FF"

definition PML4_INDEX :: "u64 \<Rightarrow> u64" where
  "PML4_INDEX address = drop_bit 39 address AND 0x1FF"

definition set_cr3 :: "u64 \<Rightarrow> vm \<Rightarrow> vm" where
  "set_cr3 new_cr3 s = s\<lparr>cr3 := new_cr3\<rparr>"

section \<open>map_page\<close>

text \<open>
  The block \<open>map_page\<close> repeats for each level: follow the entry when it is present, otherwise
  allocate a table, clear it and enter it. A null answer of the allocator is not checked.
\<close>

definition next_table :: "vm \<Rightarrow> u64 \<Rightarrow> u64 \<Rightarrow> (u64 \<times> vm) res" where
  "next_table s table idx =
     (if load64 (mem s) (table + 8 * idx) AND PRESENT = 0 then
        seq (pmm_allocate (phys s)) (\<lambda>(t, p).
          let m = memset (mem s) t 0 0x1000;
              m = store64 m (table + 8 * idx) ((t AND ADDRESS_MASK) OR PRESENT OR WRITABLE)
          in Inr (t, s\<lparr>mem := m, phys := p\<rparr>))
      else Inr (load64 (mem s) (table + 8 * idx) AND ADDRESS_MASK, s))"

definition map_page :: "vm \<Rightarrow> u64 \<Rightarrow> u64 \<Rightarrow> vm res" where
  "map_page s vaddress paddress =
     seq (next_table s (pml s) (PML4_INDEX vaddress)) (\<lambda>(pud, s).
     seq (next_table s pud (PUD_INDEX vaddress)) (\<lambda>(pmd, s).
     seq (next_table s pmd (PMD_INDEX vaddress)) (\<lambda>(pt, s).
       let ent = pt + 8 * PT_INDEX vaddress in
       if load64 (mem s) ent AND PRESENT = 0
       then Inr (s\<lparr>mem := store64 (mem s) ent (paddress OR PAT OR PRESENT OR WRITABLE)\<rparr>)
       else Inr s)))"

section \<open>The callers\<close>

function init_paging_loop :: "u64 \<Rightarrow> u32 \<Rightarrow> nat \<Rightarrow> vm \<Rightarrow> vm res" where
  "init_paging_loop start framebuffer i s =
     (if i < 6400 then
        seq (map_page s (start + of_nat (i * 0x1000)) (of_nat (i * 0x1000))) (\<lambda>s.
        seq (map_page s (of_nat (i * 0x1000)) (of_nat (i * 0x1000))) (\<lambda>s.
        seq (map_page s (ucast (framebuffer + of_nat (i * 0x1000)))
                        (ucast (framebuffer + of_nat (i * 0x1000)))) (\<lambda>s.
          init_paging_loop start framebuffer (Suc i) s)))
      else Inr s)"
  by pat_completeness auto
termination
  by (relation "measure (\<lambda>(start, framebuffer, i, s). 6400 - i)") auto

declare init_paging_loop.simps [simp del]

definition init_paging :: "u64 \<Rightarrow> u32 \<Rightarrow> vm \<Rightarrow> vm res" where
  "init_paging kernel_start framebuffer s =
     seq (pmm_allocate (phys s)) (\<lambda>(t, p).
     let s = s\<lparr>pml := t, phys := p, mem := memset (mem s) t 0 0x1000\<rparr> in
     seq (init_paging_loop kernel_start framebuffer 0 s) (\<lambda>s.
       Inr (set_cr3 (pml s) s)))"

text \<open>The loop of \<open>alloc\<close>: \<open>k\<close> pages are left.\<close>

primrec alloc_loop :: "nat \<Rightarrow> vm \<Rightarrow> vm res" where
  "alloc_loop 0 s = Inr s"
| "alloc_loop (Suc k) s =
     seq (pmm_allocate (phys s)) (\<lambda>(more, p).
     seq (map_page (s\<lparr>phys := p\<rparr>) more more) (\<lambda>s. alloc_loop k s))"

definition alloc :: "u32 \<Rightarrow> vm \<Rightarrow> (u64 \<times> vm) res" where
  "alloc n s =
     seq (pmm_allocate (phys s)) (\<lambda>(start, p).
     seq (map_page (s\<lparr>phys := p\<rparr>) start start) (\<lambda>s.
     seq (alloc_loop (unat n - 1) s) (\<lambda>s. Inr (start, s))))"

text \<open>
  \<open>map_kernel\<close> counts with an \<open>int\<close> up to an address: a step past \<open>INT_MAX\<close> is the fault
  \<open>Signed_Overflow\<close>. The counter starts at 0, so it is a natural number up to there.
\<close>

function map_kernel_loop :: "u64 \<Rightarrow> u64 \<Rightarrow> nat \<Rightarrow> vm \<Rightarrow> vm res" where
  "map_kernel_loop start end' i s =
     (if 0x7FFFFFFF < i then Inl Signed_Overflow
      else if of_nat i < end' then
        seq (map_page s (0xFFFFFFFF80000000 + of_nat i) (start + of_nat i)) (\<lambda>s.
          map_kernel_loop start end' (i + 0x1000) s)
      else Inr s)"
  by pat_completeness auto
termination
  by (relation "measure (\<lambda>(start, end', i, s). 0x80000000 - i)") auto

declare map_kernel_loop.simps [simp del]

definition map_kernel :: "u64 \<Rightarrow> u64 \<Rightarrow> vm \<Rightarrow> vm res" where
  "map_kernel kernel_start kernel_end s =
     map_kernel_loop kernel_start ((kernel_end + 0x1000) AND NOT 0xFFF) 0 s"

section \<open>Entries in byte memory\<close>

definition entries :: "memory \<Rightarrow> view" where
  "entries m t i = load64 m (t + 8 * i)"

lemma page_separate:
  assumes "frame_ok t" and "frame_ok u" and "t \<noteq> u"
  shows "separate t 4096 u 4096"
proof -
  obtain a b where ab: "unat t = 4096 * a" "unat u = 4096 * b" "a < 2 ^ 40" "b < 2 ^ 40"
    using assms by (auto simp: frame_ok_iff dvd_def)
  have "a \<noteq> b" using ab assms(3) by (auto simp: word_unat_eq_iff)
  then show ?thesis
    using ab by (auto simp: separate_def unat_sub_if')
qed

lemma unat_8_times: "i < 512 \<Longrightarrow> unat (8 * i :: u64) = 8 * unat i"
  by (simp add: unat_word_ariths word_less_nat_alt)

lemma entry_in_page:
  assumes "i < 512" and "in_range x (t + 8 * i) 8"
  shows "in_range x t 4096"
proof -
  have i: "unat i < 512" using assms(1) by (simp add: word_less_nat_alt)
  have "x - t = (x - (t + 8 * i)) + 8 * i" by simp
  moreover have "unat (x - (t + 8 * i)) + unat (8 * i) < 2 ^ 64"
    using assms i by (simp add: in_range_def unat_8_times)
  ultimately have "unat (x - t) = unat (x - (t + 8 * i)) + 8 * unat i"
    by (metis unat_add_no_wrap_word unat_8_times assms(1))
  then show ?thesis using assms(2) i by (simp add: in_range_def)
qed

lemma entries_separate:
  assumes "i < 512" and "j < 512" and "i \<noteq> j"
  shows "separate (t + 8 * i) 8 (t + 8 * j) 8"
proof -
  have "unat i < 512" and "unat j < 512" and "unat i \<noteq> unat j"
    using assms by (auto simp: word_less_nat_alt word_unat_eq_iff)
  then show ?thesis
    using unat_8_times [OF assms(1)] unat_8_times [OF assms(2)]
    by (auto simp: separate_def unat_sub_if')
qed

text \<open>
  The contract the table lemmas need of byte memory: storing an entry and clearing a frame
  act on the entries of frames like updates of a two-dimensional array.
\<close>

locale entry_store =
  fixes ents :: "'m \<Rightarrow> view"
    and put :: "'m \<Rightarrow> u64 \<Rightarrow> u64 \<Rightarrow> u64 \<Rightarrow> 'm"
    and wipe :: "'m \<Rightarrow> u64 \<Rightarrow> 'm"
  assumes ents_put: "frame_ok t \<Longrightarrow> frame_ok u \<Longrightarrow> i < 512 \<Longrightarrow> j < 512 \<Longrightarrow>
      ents (put m t i v) u j = (if u = t \<and> j = i then v else ents m u j)"
    and ents_wipe: "frame_ok f \<Longrightarrow> frame_ok u \<Longrightarrow> j < 512 \<Longrightarrow>
      ents (wipe m f) u j = (if u = f then 0 else ents m u j)"
begin

lemma leaf_set_put:
  "frame_ok t \<Longrightarrow> i < 512 \<Longrightarrow> leaf_set (ents m) (ents (put m t i v)) t i v"
  by (simp add: leaf_set_def ents_put)

lemma graft_wipe_put:
  assumes "frame_ok t" and "i < 512" and "frame_ok f" and "f \<noteq> t"
    and "present v" and "v AND ADDRESS_MASK = f"
  shows "graft (ents m) (ents (put (wipe m f) t i v)) t i f"
  using assms by (auto simp: graft_def ents_put ents_wipe)

lemma tree_ok_wiped_root:
  assumes "frame_ok f"
  shows "tree_ok (ents (wipe m f)) f {f}" and "table_paths (ents (wipe m f)) f = {[]}"
proof -
  have only: "q = []" if "path_ok q" and "table_at (ents (wipe m f)) f q = Some u" for q u
  proof (cases q)
    case (Cons j q')
    then have "ents (wipe m f) f j = 0"
      using that assms by (intro trans [OF ents_wipe]) (auto simp: path_ok_def)
    with Cons that show ?thesis by simp
  qed simp
  show "tree_ok (ents (wipe m f)) f {f}"
    unfolding tree_ok_def using only by (metis insertI1 option.inject table_at.simps(1))
  show "table_paths (ents (wipe m f)) f = {[]}"
    unfolding table_paths_def using only by auto
qed

end

definition store_entry :: "memory \<Rightarrow> u64 \<Rightarrow> u64 \<Rightarrow> u64 \<Rightarrow> memory" where
  "store_entry m t i v = store64 m (t + 8 * i) v"

definition clear_frame :: "memory \<Rightarrow> u64 \<Rightarrow> memory" where
  "clear_frame m f = memset m f 0 0x1000"

lemma load64_zero: "(\<And>x. in_range x a 8 \<Longrightarrow> m x = 0) \<Longrightarrow> load64 m a = 0"
proof -
  assume "\<And>x. in_range x a 8 \<Longrightarrow> m x = 0"
  then have "load64 m a = load64 (\<lambda>_. 0) a"
    by (intro acc64.ld_cong) simp
  also have "\<dots> = 0" by (simp add: load64_def mem_eval)
  finally show ?thesis .
qed

interpretation byte_entries: entry_store entries store_entry clear_frame
proof unfold_locales
  fix t u i j v :: u64 and m :: memory
  assume ok: "frame_ok t" "frame_ok u" and ij: "i < 512" "j < 512"
  show "entries (store_entry m t i v) u j = (if u = t \<and> j = i then v else entries m u j)"
  proof (cases "u = t")
    case True
    then show ?thesis
      using entries_separate [OF ij, of t]
      by (auto simp: entries_def store_entry_def acc64.ld_st_separate)
  next
    case False
    then have "separate t 4096 u 4096" using ok page_separate by blast
    then have "store64 m (t + 8 * i) v x = m x" if "in_range x (u + 8 * j) 8" for x
      using that entry_in_page ij separate_disjoint acc64.st_outside by metis
    then have "load64 (store64 m (t + 8 * i) v) (u + 8 * j) = load64 m (u + 8 * j)"
      by (rule acc64.ld_cong)
    with False show ?thesis by (simp add: entries_def store_entry_def)
  qed
next
  fix f u j :: u64 and m :: memory
  assume ok: "frame_ok f" "frame_ok u" and j: "j < 512"
  show "entries (clear_frame m f) u j = (if u = f then 0 else entries m u j)"
  proof (cases "u = f")
    case True
    then show ?thesis
      using entry_in_page [OF j, of _ f]
      by (simp add: entries_def clear_frame_def load64_zero mem_simps)
  next
    case False
    then have sep: "separate f 4096 u 4096" using ok page_separate by blast
    have "memset m f 0 0x1000 x = m x" if "in_range x (u + 8 * j) 8" for x
      using that entry_in_page [OF j] separate_disjoint [OF sep] by (auto simp: mem_simps)
    then have "load64 (memset m f 0 0x1000) (u + 8 * j) = load64 m (u + 8 * j)"
      by (rule acc64.ld_cong)
    with False show ?thesis by (simp add: entries_def clear_frame_def)
  qed
qed

section \<open>The invariant\<close>

text \<open>
  The tables reached from the root form a tree inside the frames the allocator has handed
  out. \<open>budget\<close> counts free frames and tables together: a new table moves one frame from the
  first to the second.
\<close>

definition vm_inv :: "vm \<Rightarrow> bool" where
  "vm_inv s \<longleftrightarrow> pmm_inv (phys s) \<and> tree_ok (entries (mem s)) (pml s) (used_frames (phys s))"

definition tables :: "vm \<Rightarrow> u64 list set" where
  "tables s = table_paths (entries (mem s)) (pml s)"

definition budget :: "vm \<Rightarrow> nat" where
  "budget s = free_count (phys s) + card (tables s)"

definition vm_leaf :: "vm \<Rightarrow> u64 list \<Rightarrow> u64 \<Rightarrow> u64 option" where
  "vm_leaf s p i = leaf (entries (mem s)) (pml s) p i"

text \<open>What adding tables may change: nothing a translation sees.\<close>

definition vm_extends :: "vm \<Rightarrow> vm \<Rightarrow> bool" where
  "vm_extends s s' \<longleftrightarrow> vm_inv s' \<and> pml s' = pml s \<and> cr3 s' = cr3 s \<and> budget s' = budget s \<and>
     tables s \<subseteq> tables s' \<and>
     (\<forall>q j. path_ok q \<and> length q = 3 \<and> j < 512 \<longrightarrow> vm_leaf s' q j = vm_leaf s q j)"

lemma vm_extends_refl: "vm_inv s \<Longrightarrow> vm_extends s s"
  by (simp add: vm_extends_def)

lemma vm_extends_trans: "vm_extends s s' \<Longrightarrow> vm_extends s' s'' \<Longrightarrow> vm_extends s s''"
  by (auto simp: vm_extends_def)

lemma used_frames_ok: "pmm_inv s \<Longrightarrow> u \<in> used_frames s \<Longrightarrow> frame_ok u"
  by (auto simp: used_frames_def frame_addr_ok)

lemma present_odd: "present e \<longleftrightarrow> odd e"
  by (simp add: present_def and_one_eq mod_2_eq_odd)

lemma present_iff: "load64 m a AND PRESENT = 0 \<longleftrightarrow> \<not> present (load64 m a)"
  by (simp add: present_def PRESENT_def)

lemma table_entry:
  assumes "frame_ok f"
  shows "present ((f AND ADDRESS_MASK) OR PRESENT OR WRITABLE)"
    and "((f AND ADDRESS_MASK) OR PRESENT OR WRITABLE) AND ADDRESS_MASK = f"
proof -
  show "present ((f AND ADDRESS_MASK) OR PRESENT OR WRITABLE)"
    by (simp add: present_odd even_or_iff PRESENT_def WRITABLE_def)
  have "(PRESENT OR WRITABLE) AND ADDRESS_MASK = 0"
    by (simp add: PRESENT_def WRITABLE_def ADDRESS_MASK_def)
  then show "((f AND ADDRESS_MASK) OR PRESENT OR WRITABLE) AND ADDRESS_MASK = f"
    using assms by (simp add: bit.conj_disj_distrib2 frame_ok_def or.assoc)
qed

lemma next_table_ok:
  assumes inv: "vm_inv s" and path: "path_ok (p @ [i])"
    and t: "table_at (entries (mem s)) (pml s) p = Some t"
    and room: "p @ [i] \<in> tables s \<or> 0 < free_count (phys s)"
  shows "\<exists>t' s'. next_table s t i = Inr (t', s') \<and> vm_extends s s' \<and>
    tables s' = insert (p @ [i]) (tables s) \<and>
    table_at (entries (mem s')) (pml s') (p @ [i]) = Some t'"
proof (cases "present (entries (mem s) t i)")
  case True
  let ?t' = "entries (mem s) t i AND ADDRESS_MASK"
  have "table_at (entries (mem s)) (pml s) (p @ [i]) = Some ?t'"
    using t True by (simp add: table_at_snoc)
  moreover have "next_table s t i = Inr (?t', s)"
    using True by (simp add: next_table_def present_iff entries_def)
  ultimately show ?thesis
    using path inv vm_extends_refl [OF inv] by (auto simp: tables_def table_paths_def)
next
  case False
  then have "p @ [i] \<notin> tables s"
    using t by (simp add: tables_def table_paths_def table_at_snoc)
  then have "0 < free_count (phys s)" using room by simp
  moreover have pinv: "pmm_inv (phys s)"
    and tree: "tree_ok (entries (mem s)) (pml s) (used_frames (phys s))"
    using inv by (auto simp: vm_inv_def)
  ultimately obtain f ph where alloc: "pmm_allocate (phys s) = Inr (f, ph)" and f0: "f \<noteq> 0"
    and free: "Suc (free_count ph) = free_count (phys s)"
    using pmm_allocate_succeeds by blast
  let ?v = "(f AND ADDRESS_MASK) OR PRESENT OR WRITABLE"
  let ?m = "store_entry (clear_frame (mem s) f) t i ?v"
  let ?s' = "s\<lparr>mem := ?m, phys := ph\<rparr>"
  have f: "frame_ok f" "f \<notin> used_frames (phys s)" "used_frames ph = insert f (used_frames (phys s))"
    "pmm_inv ph"
    using frames.alloc_ok frames.alloc_fresh frames.alloc_used frames.alloc_inv pinv alloc f0
    by blast+
  have "t \<in> used_frames (phys s)" using tree_ok_member [OF tree _ t] path by simp
  then have ft: "f \<noteq> t" "frame_ok t" using f used_frames_ok [OF pinv] by auto
  have "graft (entries (mem s)) (entries ?m) t i f"
    using ft f path table_entry [of f] by (intro byte_entries.graft_wipe_put) simp_all
  then have g: "grafting (entries (mem s)) (entries ?m) (pml s) (used_frames (phys s)) p i t f"
    using tree path t False f used_frames_ok [OF pinv] by (simp add: grafting_def)
  have step: "next_table s t i = Inr (f, ?s')"
    using False alloc
    by (simp add: next_table_def present_iff entries_def store_entry_def clear_frame_def)
  have tabs: "tables ?s' = insert (p @ [i]) (tables s)"
    using grafting_table_paths(1) [OF g] by (simp add: tables_def)
  moreover have "card (tables ?s') = Suc (card (tables s))"
    using grafting_table_paths [OF g] finite_table_paths by (simp add: tables_def)
  moreover have "vm_inv ?s'"
    using grafting_tree_ok [OF g] f by (simp add: vm_inv_def)
  moreover have "table_at (entries ?m) (pml s) (p @ [i]) = Some f"
    using grafting_table_at [OF g path] by simp
  ultimately show ?thesis
    using step free grafting_leaf [OF g]
    by (auto simp: vm_extends_def budget_def vm_leaf_def)
qed

section \<open>What map_page does\<close>

definition va_path :: "u64 \<Rightarrow> u64 list" where
  "va_path va = [PML4_INDEX va, PUD_INDEX va, PMD_INDEX va]"

text \<open>The paths of the four tables a translation of \<open>va\<close> goes through.\<close>

definition va_tables :: "u64 \<Rightarrow> u64 list set" where
  "va_tables va = {[], [PML4_INDEX va], [PML4_INDEX va, PUD_INDEX va], va_path va}"

text \<open>The leaf entry the processor finds for \<open>va\<close>, if the page is mapped.\<close>

definition mapping :: "vm \<Rightarrow> u64 \<Rightarrow> u64 option" where
  "mapping s va = vm_leaf s (va_path va) (PT_INDEX va)"

definition same_page :: "u64 \<Rightarrow> u64 \<Rightarrow> bool" where
  "same_page va vb \<longleftrightarrow> va_path va = va_path vb \<and> PT_INDEX va = PT_INDEX vb"

definition leaf_entry :: "u64 \<Rightarrow> u64" where
  "leaf_entry pa = pa OR PAT OR PRESENT OR WRITABLE"

lemma index_less: "(x :: u64) AND 0x1FF < 512"
proof -
  have "x AND 0x1FF \<le> 0x1FF" by (rule word_and_le1)
  then show ?thesis by (simp add: order_le_less_trans)
qed

lemma indices_less [simp]:
  "PT_INDEX va < 512" "PMD_INDEX va < 512" "PUD_INDEX va < 512" "PML4_INDEX va < 512"
  by (simp_all add: PT_INDEX_def PMD_INDEX_def PUD_INDEX_def PML4_INDEX_def index_less)

lemma va_path_ok [simp]: "path_ok (va_path va)" "length (va_path va) = 3"
  by (simp_all add: path_ok_def va_path_def)

lemma finite_va_tables [simp]: "finite (va_tables va)"
  by (simp add: va_tables_def)

lemma finite_tables [simp]: "finite (tables s)"
  by (simp add: tables_def finite_table_paths)

lemma present_leaf_entry: "present (leaf_entry pa)"
  by (simp add: leaf_entry_def present_odd even_or_iff PRESENT_def WRITABLE_def)

lemma room_for_path:
  assumes "card (V \<union> tables s) \<le> budget s" and "finite V" and "p \<in> V"
  shows "p \<in> tables s \<or> 0 < free_count (phys s)"
proof (rule disjCI)
  assume "\<not> 0 < free_count (phys s)"
  then have "card (V \<union> tables s) \<le> card (tables s)" using assms(1) by (simp add: budget_def)
  then have "tables s = V \<union> tables s"
    using assms(2) by (intro card_seteq) auto
  with assms(3) show "p \<in> tables s" by blast
qed

lemma next_table_in:
  assumes "vm_inv s" and "path_ok (p @ [i])" and "table_at (entries (mem s)) (pml s) p = Some t"
    and room: "card (V \<union> tables s) \<le> budget s" "finite V" "p @ [i] \<in> V"
  shows "\<exists>t' s'. next_table s t i = Inr (t', s') \<and> vm_extends s s' \<and>
    tables s' = insert (p @ [i]) (tables s) \<and> card (V \<union> tables s') \<le> budget s' \<and>
    table_at (entries (mem s')) (pml s') (p @ [i]) = Some t'"
proof -
  obtain t' s' where step: "next_table s t i = Inr (t', s')" "vm_extends s s'"
      "tables s' = insert (p @ [i]) (tables s)"
      "table_at (entries (mem s')) (pml s') (p @ [i]) = Some t'"
    using next_table_ok [OF assms(1-3) room_for_path [OF room]] by blast
  moreover have "V \<union> tables s' = V \<union> tables s" using step(3) room(3) by auto
  ultimately show ?thesis using room(1) by (auto simp: vm_extends_def)
qed

lemma set_leaf_ok:
  assumes inv: "vm_inv s" and p: "path_ok p" "length p = 3" and i: "i < 512"
    and t: "table_at (entries (mem s)) (pml s) p = Some t" and v: "present v"
  defines "s' \<equiv> s\<lparr>mem := store64 (mem s) (t + 8 * i) v\<rparr>"
  shows "vm_inv s'" and "tables s' = tables s" and "budget s' = budget s"
    and "\<And>q j. path_ok q \<Longrightarrow> j < 512 \<Longrightarrow>
      vm_leaf s' q j = (if q = p \<and> j = i then Some v else vm_leaf s q j)"
proof -
  have pinv: "pmm_inv (phys s)"
    and tree: "tree_ok (entries (mem s)) (pml s) (used_frames (phys s))"
    using inv by (auto simp: vm_inv_def)
  have U: "\<forall>u\<in>used_frames (phys s). frame_ok u" using used_frames_ok [OF pinv] by simp
  have "frame_ok t" using tree_ok_member [OF tree p(1) t] U by blast
  then have set: "leaf_set (entries (mem s)) (entries (mem s')) t i v"
    using byte_entries.leaf_set_put [of t i "mem s" v] i by (simp add: s'_def store_entry_def)
  show "vm_inv s'"
    using pinv tree_ok_leaf_set(1) [OF tree U p t set] by (simp add: vm_inv_def s'_def)
  show tabs: "tables s' = tables s"
    using tree_ok_leaf_set(2) [OF tree U p t set] by (simp add: tables_def s'_def)
  show "budget s' = budget s" using tabs by (simp add: budget_def) (simp add: s'_def)
  fix q and j :: u64 assume "path_ok q" and "j < 512"
  then show "vm_leaf s' q j = (if q = p \<and> j = i then Some v else vm_leaf s q j)"
    using leaf_leaf_set [OF tree U p t set _ _ v] by (simp add: vm_leaf_def s'_def)
qed

lemma map_page_ok:
  assumes inv: "vm_inv s" and room: "card (V \<union> tables s) \<le> budget s" "finite V"
    and V: "va_tables va \<subseteq> V"
  shows "\<exists>s'. map_page s va pa = Inr s' \<and> vm_inv s' \<and> pml s' = pml s \<and> cr3 s' = cr3 s \<and>
    budget s' = budget s \<and> tables s' = va_tables va \<union> tables s \<and>
    (\<forall>q j. path_ok q \<and> length q = 3 \<and> j < 512 \<longrightarrow> vm_leaf s' q j =
       (if q = va_path va \<and> j = PT_INDEX va
        then Some (case mapping s va of Some e \<Rightarrow> e | None \<Rightarrow> leaf_entry pa)
        else vm_leaf s q j))"
proof -
  let ?a = "PML4_INDEX va" and ?b = "PUD_INDEX va" and ?c = "PMD_INDEX va"
  have in_V: "[] @ [?a] \<in> V" "[?a] @ [?b] \<in> V" "[?a, ?b] @ [?c] \<in> V"
    using V by (auto simp: va_tables_def va_path_def)
  have ok: "path_ok ([] @ [?a])" "path_ok ([?a] @ [?b])" "path_ok ([?a, ?b] @ [?c])"
    by (simp_all add: path_ok_def)
  obtain pud s1 where s1: "next_table s (pml s) ?a = Inr (pud, s1)" "vm_extends s s1"
      "tables s1 = insert ([] @ [?a]) (tables s)" "card (V \<union> tables s1) \<le> budget s1"
      "table_at (entries (mem s1)) (pml s1) ([] @ [?a]) = Some pud"
    using next_table_in [OF inv ok(1) _ room in_V(1)] by auto
  then have inv1: "vm_inv s1" by (simp add: vm_extends_def)
  obtain pmd s2 where s2: "next_table s1 pud ?b = Inr (pmd, s2)" "vm_extends s1 s2"
      "tables s2 = insert ([?a] @ [?b]) (tables s1)" "card (V \<union> tables s2) \<le> budget s2"
      "table_at (entries (mem s2)) (pml s2) ([?a] @ [?b]) = Some pmd"
    using next_table_in [OF inv1 ok(2) _ s1(4) room(2) in_V(2)] s1(5) by auto
  then have inv2: "vm_inv s2" by (simp add: vm_extends_def)
  obtain pt s3 where s3: "next_table s2 pmd ?c = Inr (pt, s3)" "vm_extends s2 s3"
      "tables s3 = insert ([?a, ?b] @ [?c]) (tables s2)" "card (V \<union> tables s3) \<le> budget s3"
      "table_at (entries (mem s3)) (pml s3) (va_path va) = Some pt"
    using next_table_in [OF inv2 ok(3) _ s2(4) room(2) in_V(3)] s2(5) by (auto simp: va_path_def)
  have ext: "vm_extends s s3" using s1(2) s2(2) s3(2) by (blast intro: vm_extends_trans)
  then have inv3: "vm_inv s3" by (simp add: vm_extends_def)
  have "[] \<in> tables s" by (simp add: tables_def table_paths_def)
  then have tabs: "tables s3 = va_tables va \<union> tables s"
    using s1(3) s2(3) s3(3) by (auto simp: va_tables_def va_path_def)
  have same: "vm_leaf s3 q j = vm_leaf s q j" if "path_ok q" "length q = 3" "j < 512" for q j
    using ext that by (simp add: vm_extends_def)
  let ?e = "load64 (mem s3) (pt + 8 * PT_INDEX va)"
  have here: "mapping s va = (if present ?e then Some ?e else None)"
  proof -
    have "mapping s va = vm_leaf s3 (va_path va) (PT_INDEX va)"
      using same by (simp add: mapping_def)
    also have "\<dots> = (if present ?e then Some ?e else None)"
      using s3(5) by (simp add: vm_leaf_def leaf_def entries_def)
    finally show ?thesis .
  qed
  show ?thesis
  proof (cases "present ?e")
    case True
    then have "map_page s va pa = Inr s3"
      using s1(1) s2(1) s3(1) by (simp add: map_page_def present_iff)
    moreover have "mapping s va = Some ?e" using here True by simp
    ultimately show ?thesis
      using ext inv3 tabs same unfolding vm_extends_def mapping_def by auto
  next
    case False
    let ?s' = "s3\<lparr>mem := store64 (mem s3) (pt + 8 * PT_INDEX va) (leaf_entry pa)\<rparr>"
    have "map_page s va pa = Inr ?s'"
      using s1(1) s2(1) s3(1) False by (simp add: map_page_def present_iff leaf_entry_def)
    moreover have "mapping s va = None" using here False by simp
    ultimately show ?thesis
      using ext tabs same
        set_leaf_ok [OF inv3 va_path_ok(1,2) indices_less(1) s3(5) present_leaf_entry]
      unfolding vm_extends_def by auto
  qed
qed

section \<open>Pages\<close>

lemma and_0x1FF: "(x :: u64) AND 0x1FF = take_bit 9 x"
  by (simp add: take_bit_eq_mask mask_eq_exp_minus_1)

lemma same_page_take_bit:
  "same_page va vb \<longleftrightarrow> take_bit 36 (drop_bit 12 va) = take_bit 36 (drop_bit 12 vb)"
proof
  assume same: "same_page va vb"
  have slice: "bit va (12 + (9 * k + n)) = bit vb (12 + (9 * k + n))" if "k < 4" "n < 9" for k n
  proof -
    have "take_bit 9 (drop_bit (12 + 9 * k) va) = take_bit 9 (drop_bit (12 + 9 * k) vb)"
      using same that(1)
      by (auto simp: same_page_def va_path_def PT_INDEX_def PMD_INDEX_def PUD_INDEX_def
          PML4_INDEX_def and_0x1FF less_Suc_eq numeral_eq_Suc)
    then have "bit (take_bit 9 (drop_bit (12 + 9 * k) va)) n =
        bit (take_bit 9 (drop_bit (12 + 9 * k) vb)) n"
      by (simp only:)
    then show ?thesis
      using that(2) by (simp add: bit_take_bit_iff bit_drop_bit_eq add.assoc)
  qed
  show "take_bit 36 (drop_bit 12 va) = take_bit 36 (drop_bit 12 vb)"
  proof (rule bit_word_eqI)
    fix n
    show "bit (take_bit 36 (drop_bit 12 va)) n = bit (take_bit 36 (drop_bit 12 vb)) n"
      using slice [of "n div 9" "n mod 9"] by (auto simp: bit_take_bit_iff bit_drop_bit_eq)
  qed
next
  assume eq: "take_bit 36 (drop_bit 12 va) = take_bit 36 (drop_bit 12 vb)"
  have "take_bit 9 (drop_bit (12 + k) va) = take_bit 9 (drop_bit (12 + k) vb)" if "k \<le> 27" for k
  proof (rule bit_word_eqI)
    fix n
    have "bit (take_bit 36 (drop_bit 12 va)) (k + n) = bit (take_bit 36 (drop_bit 12 vb)) (k + n)"
      by (simp only: eq)
    then show "bit (take_bit 9 (drop_bit (12 + k) va)) n = bit (take_bit 9 (drop_bit (12 + k) vb)) n"
      using that by (auto simp: bit_take_bit_iff bit_drop_bit_eq add.assoc)
  qed
  from this [of 0] this [of 9] this [of 18] this [of 27] show "same_page va vb"
    by (simp add: same_page_def va_path_def PT_INDEX_def PMD_INDEX_def PUD_INDEX_def
        PML4_INDEX_def and_0x1FF)
qed

lemma same_page_iff:
  "same_page va vb \<longleftrightarrow> unat va div 4096 mod 2 ^ 36 = unat vb div 4096 mod 2 ^ 36"
proof -
  have page: "unat (take_bit 36 (drop_bit 12 v)) = unat v div 4096 mod 2 ^ 36" for v :: u64
    using unat_drop_bit_u64 [of 12 v] by (simp only: unat_take_bit_u64) simp
  have "same_page va vb \<longleftrightarrow>
      unat (take_bit 36 (drop_bit 12 va)) = unat (take_bit 36 (drop_bit 12 vb))"
    by (simp only: same_page_take_bit word_unat_eq_iff)
  then show ?thesis by (simp only: page)
qed

lemma same_page_refl [simp]: "same_page va va"
  by (simp add: same_page_def)

text \<open>The processor's translation: the frame of the leaf entry and the offset in the page.\<close>

definition translate :: "vm \<Rightarrow> u64 \<Rightarrow> u64 option" where
  "translate s va = map_option (\<lambda>e. (e AND ADDRESS_MASK) OR (va AND 0xFFF)) (mapping s va)"

lemma mapping_same_page: "same_page va vb \<Longrightarrow> mapping s va = mapping s vb"
  by (simp add: mapping_def same_page_def)

lemma leaf_entry_frame: "frame_ok pa \<Longrightarrow> leaf_entry pa AND ADDRESS_MASK = pa"
proof -
  assume "frame_ok pa"
  moreover have "(PAT OR PRESENT OR WRITABLE) AND ADDRESS_MASK = 0"
    by (simp add: PAT_def PRESENT_def WRITABLE_def ADDRESS_MASK_def)
  ultimately show ?thesis
    by (simp add: leaf_entry_def bit.conj_disj_distrib2 frame_ok_def or.assoc)
qed

section \<open>Mapping a list of pages\<close>

primrec map_pages :: "vm \<Rightarrow> (u64 \<times> u64) list \<Rightarrow> vm res" where
  "map_pages s [] = Inr s"
| "map_pages s (x # xs) = seq (map_page s (fst x) (snd x)) (\<lambda>s. map_pages s xs)"

lemma map_pages_append: "map_pages s (xs @ ys) = seq (map_pages s xs) (\<lambda>s. map_pages s ys)"
  by (induction xs arbitrary: s) (simp_all add: seq_assoc)

lemma map_pages_ok:
  assumes "vm_inv s" and "card (V \<union> tables s) \<le> budget s" and V: "finite V"
    and "\<forall>x\<in>set xs. va_tables (fst x) \<subseteq> V"
  shows "\<exists>s'. map_pages s xs = Inr s' \<and> vm_inv s' \<and> pml s' = pml s \<and> cr3 s' = cr3 s \<and>
    budget s' = budget s \<and> tables s' \<subseteq> V \<union> tables s \<and>
    (\<forall>vb. mapping s' vb =
       (case mapping s vb of Some e \<Rightarrow> Some e
        | None \<Rightarrow> map_option (\<lambda>x. leaf_entry (snd x)) (find (\<lambda>x. same_page (fst x) vb) xs)))"
  using assms(1,2,4)
proof (induction xs arbitrary: s)
  case Nil
  then show ?case by (auto split: option.split)
next
  case (Cons x xs)
  obtain va pa where x: "x = (va, pa)" by (cases x)
  then have sub: "va_tables va \<subseteq> V" using Cons.prems by simp
  obtain s1 where s1: "map_page s va pa = Inr s1" "vm_inv s1" "pml s1 = pml s" "cr3 s1 = cr3 s"
      "budget s1 = budget s" "tables s1 = va_tables va \<union> tables s"
    and leaves: "\<forall>q j. path_ok q \<and> length q = 3 \<and> j < 512 \<longrightarrow> vm_leaf s1 q j =
       (if q = va_path va \<and> j = PT_INDEX va
        then Some (case mapping s va of Some e \<Rightarrow> e | None \<Rightarrow> leaf_entry pa)
        else vm_leaf s q j)"
    using map_page_ok [OF Cons.prems(1,2) V sub] by blast
  have "V \<union> tables s1 = V \<union> tables s" using s1(6) sub by auto
  then obtain s' where s': "map_pages s1 xs = Inr s'" "vm_inv s'" "pml s' = pml s1" "cr3 s' = cr3 s1"
      "budget s' = budget s1" "tables s' \<subseteq> V \<union> tables s"
    and rest: "\<And>vb. mapping s' vb =
       (case mapping s1 vb of Some e \<Rightarrow> Some e
        | None \<Rightarrow> map_option (\<lambda>x. leaf_entry (snd x)) (find (\<lambda>x. same_page (fst x) vb) xs))"
    using Cons.IH [OF s1(2)] Cons.prems s1(5) by auto
  have "mapping s1 vb = (if same_page va vb
      then Some (case mapping s vb of Some e \<Rightarrow> e | None \<Rightarrow> leaf_entry pa)
      else mapping s vb)" for vb
  proof (cases "same_page va vb")
    case True
    then show ?thesis
      using leaves mapping_same_page [OF True, of s] by (simp add: mapping_def same_page_def)
  next
    case False
    then show ?thesis
      using leaves by (auto simp: mapping_def same_page_def)
  qed
  then show ?case
    using s1(1,3,4,5) s' rest by (intro exI [of _ s']) (auto simp: x split: option.split)
qed

section \<open>Properties\<close>

text \<open>A small machine for the witnesses: zeroed memory, the root table in the first frame.\<close>

definition sample_vm :: vm where
  "sample_vm = \<lparr>mem = (\<lambda>_. 0), phys = taken sample_pmm 1, pml = 0x200000, cr3 = 0\<rparr>"

lemma sample_vm_facts:
  "vm_inv sample_vm" "tables sample_vm = {[]}" "free_count (phys sample_vm) = 99"
proof -
  have "clear_frame (\<lambda>_. 0) 0x200000 = (\<lambda>_. 0)"
    by (rule ext) (simp add: clear_frame_def mem_simps)
  moreover have ok: "frame_ok 0x200000" by (simp add: frame_ok_def ADDRESS_MASK_def)
  ultimately have tree: "tree_ok (entries (\<lambda>_. 0)) 0x200000 {0x200000}"
    and tabs: "table_paths (entries (\<lambda>_. 0)) 0x200000 = {[]}"
    using byte_entries.tree_ok_wiped_root [OF ok, of "\<lambda>_. 0"] by simp_all
  have "frame_addr (taken sample_pmm 1) 0 \<in> used_frames (taken sample_pmm 1)"
    unfolding used_frames_def by fastforce
  then have "{0x200000} \<subseteq> used_frames (taken sample_pmm 1)"
    by (simp add: frame_addr_def sample_pmm_facts)
  with tree have "tree_ok (entries (\<lambda>_. 0)) 0x200000 (used_frames (taken sample_pmm 1))"
    by (rule tree_ok_mono)
  then show "vm_inv sample_vm"
    using sample_pmm_facts by (simp add: vm_inv_def sample_vm_def pmm_inv_def)
  show "tables sample_vm = {[]}" using tabs by (simp add: tables_def sample_vm_def)
  show "free_count (phys sample_vm) = 99"
    by (simp add: sample_vm_def free_count_taken sample_pmm_facts)
qed

lemma new_tables_le_3: "[] \<in> T \<Longrightarrow> card (va_tables va - T) \<le> 3"
proof -
  assume "[] \<in> T"
  then have "va_tables va - T \<subseteq>
      {[PML4_INDEX va], [PML4_INDEX va, PUD_INDEX va], va_path va}"
    by (auto simp: va_tables_def)
  then have "card (va_tables va - T) \<le>
      card {[PML4_INDEX va], [PML4_INDEX va, PUD_INDEX va], va_path va}"
    by (intro card_mono) simp_all
  also have "\<dots> \<le> 3" by (simp add: card_insert_if)
  finally show ?thesis .
qed

lemma card_missing_tables:
  "card (va_tables va \<union> tables s) = card (va_tables va - tables s) + card (tables s)"
proof -
  have "card ((va_tables va - tables s) \<union> tables s) = card (va_tables va - tables s) + card (tables s)"
    by (rule card_Un_disjoint) auto
  then show ?thesis by simp
qed

lemma map_page_budget:
  assumes "vm_inv s" and "card (va_tables va - tables s) \<le> free_count (phys s)"
  shows "\<exists>s'. map_page s va pa = Inr s' \<and> vm_inv s' \<and>
    free_count (phys s') + card (va_tables va - tables s) = free_count (phys s) \<and>
    mapping s' va = Some (case mapping s va of Some e \<Rightarrow> e | None \<Rightarrow> leaf_entry pa) \<and>
    (\<forall>vb. \<not> same_page va vb \<longrightarrow> mapping s' vb = mapping s vb)"
proof -
  note union = card_missing_tables [of va s]
  then have "card (va_tables va \<union> tables s) \<le> budget s" using assms(2) by (simp add: budget_def)
  then obtain s' where s': "map_page s va pa = Inr s'" "vm_inv s'" "budget s' = budget s"
      "tables s' = va_tables va \<union> tables s"
    and leaves: "\<forall>q j. path_ok q \<and> length q = 3 \<and> j < 512 \<longrightarrow> vm_leaf s' q j =
       (if q = va_path va \<and> j = PT_INDEX va
        then Some (case mapping s va of Some e \<Rightarrow> e | None \<Rightarrow> leaf_entry pa)
        else vm_leaf s q j)"
    using map_page_ok [OF assms(1) _ finite_va_tables order_refl, of va pa] by blast
  then show ?thesis
    using union by (auto simp: budget_def mapping_def same_page_def)
qed

text \<open>
  C8 map_page_installs. With enough free frames for the tables that are missing, \<open>map_page\<close>
  succeeds, keeps the tables a tree of distinct allocated frames, uses exactly one frame per
  missing table, gives the page its entry unless it had one, which stays, and changes the
  entry of no other page.
\<close>

theorem map_page_installs:
  assumes "vm_inv s" and "card (va_tables va - tables s) \<le> free_count (phys s)"
  shows "\<exists>s'. map_page s va pa = Inr s' \<and> vm_inv s' \<and>
    free_count (phys s') = free_count (phys s) - card (va_tables va - tables s) \<and>
    mapping s' va = Some (case mapping s va of Some e \<Rightarrow> e
                          | None \<Rightarrow> pa OR PAT OR PRESENT OR WRITABLE) \<and>
    (\<forall>vb. \<not> same_page va vb \<longrightarrow> mapping s' vb = mapping s vb)"
  using map_page_budget [OF assms, of pa] unfolding leaf_entry_def by force

theorem map_page_installs_witness:
  "\<exists>s'. map_page sample_vm 0x12345000 0x7000 = Inr s' \<and> vm_inv s' \<and>
    mapping s' 0x12345000 \<noteq> None"
proof -
  have "card (va_tables 0x12345000 - tables sample_vm) \<le> free_count (phys sample_vm)"
    using new_tables_le_3 [of "tables sample_vm" "0x12345000"] by (simp add: sample_vm_facts)
  from map_page_installs [OF sample_vm_facts(1) this, of "0x7000"] show ?thesis by auto
qed

text \<open>
  Lemma map_page_translates. Mapping a page that was not mapped to a frame makes every address of
  the page translate to the same offset of that frame.
\<close>

theorem map_page_translates:
  assumes "vm_inv s" and "3 \<le> free_count (phys s)" and "mapping s va = None" and "frame_ok pa"
    and "same_page va vb"
  shows "\<exists>s'. map_page s va pa = Inr s' \<and> translate s' vb = Some (pa OR (vb AND 0xFFF))"
proof -
  have "[] \<in> tables s" by (simp add: tables_def table_paths_def)
  then have "card (va_tables va - tables s) \<le> free_count (phys s)"
    using new_tables_le_3 [of "tables s" va] assms(2) by simp
  then obtain s' where "map_page s va pa = Inr s'" and "mapping s' va = Some (leaf_entry pa)"
    using map_page_budget [OF assms(1), of va pa] assms(3) by auto
  moreover have "mapping s' vb = mapping s' va"
    using mapping_same_page [OF assms(5)] by simp
  ultimately show ?thesis
    using assms(4) by (simp add: translate_def leaf_entry_frame)
qed

theorem map_page_translates_witness:
  "\<exists>s'. map_page sample_vm 0x12345000 0x7000 = Inr s' \<and> translate s' 0x12345678 = Some 0x7678"
proof -
  have "mapping sample_vm 0x12345000 = None"
  proof -
    have "va_path 0x12345000 \<notin> tables sample_vm" by (simp add: sample_vm_facts va_path_def)
    then show ?thesis
      by (simp add: tables_def table_paths_def mapping_def vm_leaf_def leaf_def)
  qed
  moreover have "frame_ok 0x7000" by (simp add: frame_ok_def ADDRESS_MASK_def)
  moreover have "same_page 0x12345000 0x12345678" by (simp add: same_page_iff)
  ultimately show ?thesis
    using map_page_translates [of sample_vm "0x12345000" "0x7000" "0x12345678"]
    by (simp add: sample_vm_facts)
qed

end
