(* ===== verification/BootPaging.thy ===== *)
theory BootPaging
  imports Vmm
begin

text \<open>
  The page tables of the boot loader: \<open>identity_map_1gb\<close> of
  \<open>bootloader/setup_longmode.c\<close>, which uses 2 MiB pages, and \<open>map_kernel\<close> of
  \<open>bootloader/stage2.c\<close>, which uses 4 KiB pages. The tables are static arrays, kept as lists of
  512 entries; their addresses are parameters. What the tables mean is the walk the processor
  makes, \<open>hw_walk\<close>.
\<close>

section \<open>The processor's walk\<close>

text \<open>\<open>v t i\<close> is entry \<open>i\<close> of the table at physical address \<open>t\<close>. Bit 7 makes a 2 MiB page.\<close>

definition hw_walk :: "(u64 \<Rightarrow> u64 \<Rightarrow> u64) \<Rightarrow> u64 \<Rightarrow> u64 \<Rightarrow> u64 option" where
  "hw_walk v root va =
     (let e4 = v root (PML4_INDEX va) in
      if e4 AND PRESENT = 0 then None else
      let e3 = v (e4 AND ADDRESS_MASK) (PUD_INDEX va) in
      if e3 AND PRESENT = 0 then None else
      let e2 = v (e3 AND ADDRESS_MASK) (PMD_INDEX va) in
      if e2 AND PRESENT = 0 then None
      else if e2 AND 0x80 \<noteq> 0 then Some ((e2 AND 0xFFFFFFFE00000) OR (va AND 0x1FFFFF))
      else
        let e1 = v (e2 AND ADDRESS_MASK) (PT_INDEX va) in
        if e1 AND PRESENT = 0 then None
        else Some ((e1 AND ADDRESS_MASK) OR (va AND 0xFFF)))"

section \<open>setup\_longmode.c\<close>

record longmode_tables =
  lm_pml4 :: "u64 list"
  lm_pud :: "u64 list"
  lm_pmd :: "u64 list"
  lm_pmd2 :: "u64 list"

definition table_entry :: "u64 \<Rightarrow> u64" where
  "table_entry a = (a AND 0xFFFFFFFFFF000) OR 3"

definition clear_longmode :: "nat \<Rightarrow> longmode_tables \<Rightarrow> longmode_tables" where
  "clear_longmode i t =
     t\<lparr>lm_pml4 := (lm_pml4 t)[i := 0], lm_pud := (lm_pud t)[i := 0],
       lm_pmd := (lm_pmd t)[i := 0], lm_pmd2 := (lm_pmd2 t)[i := 0]\<rparr>"

definition fill_longmode :: "nat \<Rightarrow> longmode_tables \<Rightarrow> longmode_tables" where
  "fill_longmode i t = t\<lparr>lm_pmd := (lm_pmd t)[i := of_nat (i * 0x200000) OR 0x83]\<rparr>"

definition identity_map_1gb :: "u64 \<Rightarrow> u64 \<Rightarrow> longmode_tables \<Rightarrow> longmode_tables" where
  "identity_map_1gb pud_addr pmd_addr t =
     (let t = fold clear_longmode [0..<512] t;
          t = t\<lparr>lm_pml4 := (lm_pml4 t)[0 := table_entry pud_addr]\<rparr>;
          t = t\<lparr>lm_pud := (lm_pud t)[0 := table_entry pmd_addr]\<rparr>
      in fold fill_longmode [0..<20] t)"

section \<open>map\_kernel of stage2.c\<close>

record stage2_tables =
  s2_pml4 :: "u64 list"
  s2_pud :: "u64 list"
  s2_pmd :: "u64 list"
  s2_pt :: "u64 list"
  s2_pudlow :: "u64 list"
  s2_pmdlow :: "u64 list"
  s2_ptlow :: "u64 list"

record stage2_addrs =
  a_pml4 :: u64
  a_pud :: u64
  a_pmd :: u64
  a_pt :: u64
  a_pudlow :: u64
  a_pmdlow :: u64
  a_ptlow :: u64

definition clear_stage2 :: "nat \<Rightarrow> stage2_tables \<Rightarrow> stage2_tables" where
  "clear_stage2 i t =
     t\<lparr>s2_pml4 := (s2_pml4 t)[i := 0], s2_pud := (s2_pud t)[i := 0],
       s2_pmd := (s2_pmd t)[i := 0], s2_pt := (s2_pt t)[i := 0],
       s2_pudlow := (s2_pudlow t)[i := 0], s2_pmdlow := (s2_pmdlow t)[i := 0],
       s2_ptlow := (s2_ptlow t)[i := 0]\<rparr>"

definition fill_stage2 :: "nat \<Rightarrow> stage2_tables \<Rightarrow> stage2_tables" where
  "fill_stage2 i t =
     t\<lparr>s2_pt := (s2_pt t)[i := of_nat (i * 0x1000) OR 0x83],
       s2_ptlow := (s2_ptlow t)[i := of_nat (i * 0x1000) OR 0x83]\<rparr>"

text \<open>The result is the value loaded into \<open>CR3\<close> and the tables.\<close>

definition stage2_map_kernel :: "stage2_addrs \<Rightarrow> stage2_tables \<Rightarrow> u64 \<times> stage2_tables" where
  "stage2_map_kernel a t =
     (let t = fold clear_stage2 [0..<512] t;
          t = t\<lparr>s2_pml4 := (s2_pml4 t)[511 := table_entry (a_pud a)]\<rparr>;
          t = t\<lparr>s2_pml4 := (s2_pml4 t)[0 := table_entry (a_pudlow a)]\<rparr>;
          t = t\<lparr>s2_pudlow := (s2_pudlow t)[0 := table_entry (a_pmdlow a)]\<rparr>;
          t = t\<lparr>s2_pud := (s2_pud t)[510 := table_entry (a_pmd a)]\<rparr>;
          t = t\<lparr>s2_pmd := (s2_pmd t)[0 := table_entry (a_pt a)]\<rparr>;
          t = t\<lparr>s2_pmdlow := (s2_pmdlow t)[0 := table_entry (a_ptlow a)]\<rparr>;
          t = fold fill_stage2 [0..<512] t
      in (a_pml4 a, t))"

section \<open>The loops\<close>

text \<open>A loop that writes element after element replaces the front of the list.\<close>

lemma fold_update_list:
  "n \<le> length xs \<Longrightarrow> fold (\<lambda>i xs. xs[i := f i]) [0..<n] xs = map f [0..<n] @ drop n xs"
proof (induction n)
  case (Suc n)
  then have "drop n xs = xs ! n # drop (Suc n) xs" by (simp add: Cons_nth_drop_Suc)
  then show ?case using Suc by (simp add: list_update_append)
qed simp

text \<open>A field of a record that a loop updates on its own.\<close>

lemma fold_field:
  assumes "\<And>i t. g (h i t) = k i (g t)"
  shows "g (fold h is t) = fold k is (g t)"
  using assms by (induction "is" arbitrary: t) simp_all

definition lengths_512 :: "u64 list list \<Rightarrow> bool" where
  "lengths_512 ts \<longleftrightarrow> (\<forall>t \<in> set ts. length t = 512)"

lemma map_zero: "map (\<lambda>i. 0) [0..<n] = replicate n 0"
  by (induction n) (simp_all flip: replicate_append_same)

lemma clear_list: "length xs = 512 \<Longrightarrow> fold (\<lambda>i xs. xs[i := 0]) [0..<512] xs = replicate 512 (0 :: u64)"
  using fold_update_list [of 512 xs "\<lambda>_. 0"] map_zero [of 512] by simp

lemma clear_longmode_fields:
  assumes "lengths_512 [lm_pml4 t, lm_pud t, lm_pmd t, lm_pmd2 t]"
  shows "lm_pml4 (fold clear_longmode [0..<512] t) = replicate 512 0"
    "lm_pud (fold clear_longmode [0..<512] t) = replicate 512 0"
    "lm_pmd (fold clear_longmode [0..<512] t) = replicate 512 0"
proof -
  have l: "length (lm_pml4 t) = 512" "length (lm_pud t) = 512" "length (lm_pmd t) = 512"
    using assms by (simp_all add: lengths_512_def)
  show "lm_pml4 (fold clear_longmode [0..<512] t) = replicate 512 0"
    using fold_field [of lm_pml4 clear_longmode "\<lambda>i xs. xs[i := 0]"] clear_list [OF l(1)]
    by (simp add: clear_longmode_def)
  show "lm_pud (fold clear_longmode [0..<512] t) = replicate 512 0"
    using fold_field [of lm_pud clear_longmode "\<lambda>i xs. xs[i := 0]"] clear_list [OF l(2)]
    by (simp add: clear_longmode_def)
  show "lm_pmd (fold clear_longmode [0..<512] t) = replicate 512 0"
    using fold_field [of lm_pmd clear_longmode "\<lambda>i xs. xs[i := 0]"] clear_list [OF l(3)]
    by (simp add: clear_longmode_def)
qed

section \<open>Indices and entries\<close>

lemma unat_index: "unat ((drop_bit n va :: u64) AND 0x1FF) = unat va div 2 ^ n mod 512"
proof -
  have "drop_bit n va AND 0x1FF = take_bit 9 (drop_bit n va)"
    by (simp add: take_bit_eq_mask mask_eq_exp_minus_1)
  then show ?thesis
    by (simp only: unat_take_bit_u64 unat_drop_bit_u64) simp
qed

lemma table_entry_fields:
  assumes "frame_ok a"
  shows "table_entry a AND PRESENT \<noteq> 0" and "table_entry a AND ADDRESS_MASK = a"
    and "table_entry a AND 0x80 = 0"
proof -
  have m: "(0xFFFFFFFFFF000 :: u64) = ADDRESS_MASK" by (simp add: ADDRESS_MASK_def)
  have e: "table_entry a = a OR 3"
    using assms unfolding table_entry_def m frame_ok_def by simp
  have "(3 :: u64) AND 1 \<noteq> 0" by simp
  then have "bit (3 :: u64) 0" by simp
  then have "bit (table_entry a AND PRESENT) 0"
    by (simp add: e PRESENT_def bit_or_iff bit_and_iff)
  then show "table_entry a AND PRESENT \<noteq> 0" by (metis bit_0_eq bot_apply bot_bool_def)
  have "(3 :: u64) AND ADDRESS_MASK = 0" by (simp add: ADDRESS_MASK_def)
  then show "table_entry a AND ADDRESS_MASK = a"
    using assms unfolding e frame_ok_def by (simp add: bit.conj_disj_distrib2)
  have "a AND 0x80 = a AND (ADDRESS_MASK AND 0x80)"
    using assms unfolding frame_ok_def by (metis and.assoc)
  also have "ADDRESS_MASK AND 0x80 = 0" by (simp add: ADDRESS_MASK_def)
  finally show "table_entry a AND 0x80 = 0" unfolding e by (simp add: bit.conj_disj_distrib2)
qed

text \<open>A leaf entry together with the offset gives the address back.\<close>

lemma leaf_join:
  assumes "unat (va :: u64) < 2 ^ 52" and "s \<le> 52"
  shows "(push_bit s (drop_bit s va) AND push_bit s (mask (52 - s))) OR (va AND mask s) = va"
proof (rule bit_word_eqI)
  fix n assume n: "n < LENGTH(64)"
  have "unat (take_bit 52 va) = unat va" using assms(1) unfolding unat_take_bit_u64 by simp
  then have "va = take_bit 52 va" by (metis word_eq_of_unat)
  then have hi: "bit va n \<Longrightarrow> n < 52" by (metis bit_take_bit_iff)
  show "bit ((push_bit s (drop_bit s va) AND push_bit s (mask (52 - s))) OR (va AND mask s)) n = bit va n"
    using n hi assms(2) by (cases "s \<le> n") (auto simp: bit_simps)
qed

lemma of_nat_page:
  assumes "i * 2 ^ s \<le> unat va" and "unat (va :: u64) < (i + 1) * 2 ^ s"
  shows "of_nat (i * 2 ^ s) = push_bit s (drop_bit s va)"
proof -
  have "unat va div 2 ^ s = i"
    using assms by (metis add.commute div_nat_eqI mult.commute plus_1_eq_Suc)
  then have d: "drop_bit s va = of_nat i"
    by (metis unat_drop_bit_u64 word_eq_of_unat)
  show ?thesis unfolding d by (simp add: push_bit_eq_mult mult.commute)
qed

lemma small_page_entry:
  assumes "unat (va :: u64) < 2 ^ 52" and "e = of_nat (unat va div 4096 * 0x1000) OR 0x83"
  shows "e AND PRESENT \<noteq> 0" and "(e AND ADDRESS_MASK) OR (va AND 0xFFF) = va"
proof -
  have p: "of_nat (unat va div 4096 * 0x1000) = push_bit 12 (drop_bit 12 va)"
    using of_nat_page [of "unat va div 4096" 12 va] by (simp add: dividend_less_div_times)
  have m: "ADDRESS_MASK = push_bit 12 (mask 40)" "(0xFFF :: u64) = mask 12"
    by (simp_all add: ADDRESS_MASK_def mask_eq_exp_minus_1)
  have "(0x83 :: u64) AND ADDRESS_MASK = 0" by (simp add: ADDRESS_MASK_def)
  then have "e AND ADDRESS_MASK = push_bit 12 (drop_bit 12 va) AND ADDRESS_MASK"
    unfolding assms(2) p by (simp add: bit.conj_disj_distrib2)
  then show "(e AND ADDRESS_MASK) OR (va AND 0xFFF) = va"
    using leaf_join [OF assms(1), of 12] unfolding m by simp
  have "bit (e AND PRESENT) 0"
    unfolding assms(2) p by (simp add: PRESENT_def bit_or_iff bit_and_iff)
  then show "e AND PRESENT \<noteq> 0" by (metis bit_0_eq bot_apply bot_bool_def)
qed

lemma large_page_entry:
  assumes "unat (va :: u64) < 2 ^ 52" and "e = of_nat (unat va div 0x200000 * 0x200000) OR 0x83"
  shows "e AND PRESENT \<noteq> 0" and "e AND 0x80 \<noteq> 0"
    and "(e AND 0xFFFFFFFE00000) OR (va AND 0x1FFFFF) = va"
proof -
  have p: "of_nat (unat va div 0x200000 * 0x200000) = push_bit 21 (drop_bit 21 va)"
    using of_nat_page [of "unat va div 0x200000" 21 va] by (simp add: dividend_less_div_times)
  have m: "(0xFFFFFFFE00000 :: u64) = push_bit 21 (mask 31)" "(0x1FFFFF :: u64) = mask 21"
    by (simp_all add: mask_eq_exp_minus_1)
  have "(0x83 :: u64) AND 0xFFFFFFFE00000 = 0" by simp
  then have "e AND 0xFFFFFFFE00000 = push_bit 21 (drop_bit 21 va) AND 0xFFFFFFFE00000"
    unfolding assms(2) p by (simp add: bit.conj_disj_distrib2)
  then show "(e AND 0xFFFFFFFE00000) OR (va AND 0x1FFFFF) = va"
    using leaf_join [OF assms(1), of 21] unfolding m by simp
  have "bit (e AND PRESENT) 0" and "bit (e AND 0x80) 7"
    unfolding assms(2) p by (simp_all add: PRESENT_def bit_or_iff bit_and_iff)
  then show "e AND PRESENT \<noteq> 0" and "e AND 0x80 \<noteq> 0" by (metis bit_0_eq bot_apply bot_bool_def)+
qed

lemma fold_keep: "fold (\<lambda>i x. x) is x = x"
  by (induction "is" arbitrary: x) simp_all

lemma identity_map_tables:
  assumes "lengths_512 [lm_pml4 t, lm_pud t, lm_pmd t, lm_pmd2 t]"
  shows "lm_pml4 (identity_map_1gb pud pmd t) = (replicate 512 0)[0 := table_entry pud]"
    "lm_pud (identity_map_1gb pud pmd t) = (replicate 512 0)[0 := table_entry pmd]"
    "lm_pmd (identity_map_1gb pud pmd t) =
       map (\<lambda>i. of_nat (i * 0x200000) OR 0x83) [0..<20] @ replicate 492 0"
proof -
  have pml4: "lm_pml4 (fold fill_longmode [0..<20] u) = lm_pml4 u" for u
    using fold_field [of lm_pml4 fill_longmode "\<lambda>i x. x" "[0..<20]" u] by (simp add: fold_keep fill_longmode_def)
  have pud: "lm_pud (fold fill_longmode [0..<20] u) = lm_pud u" for u
    using fold_field [of lm_pud fill_longmode "\<lambda>i x. x" "[0..<20]" u] by (simp add: fold_keep fill_longmode_def)
  have pmd: "lm_pmd (fold fill_longmode [0..<20] u) =
      fold (\<lambda>i xs. xs[i := of_nat (i * 0x200000) OR 0x83]) [0..<20] (lm_pmd u)" for u
    by (rule fold_field) (simp add: fill_longmode_def)
  note c = clear_longmode_fields [OF assms]
  show "lm_pml4 (identity_map_1gb pud pmd t) = (replicate 512 0)[0 := table_entry pud]"
    and "lm_pud (identity_map_1gb pud pmd t) = (replicate 512 0)[0 := table_entry pmd]"
    by (simp_all add: identity_map_1gb_def Let_def pml4 pud c del: upt_rec_numeral)
  show "lm_pmd (identity_map_1gb pud pmd t) =
       map (\<lambda>i. of_nat (i * 0x200000) OR 0x83) [0..<20] @ replicate 492 0"
    using fold_update_list [of 20 "replicate 512 0" "\<lambda>i. of_nat (i * 0x200000) OR 0x83"]
    by (simp add: identity_map_1gb_def Let_def pmd c del: upt_rec_numeral)
qed

definition longmode_view :: "u64 \<Rightarrow> u64 \<Rightarrow> u64 \<Rightarrow> longmode_tables \<Rightarrow> u64 \<Rightarrow> u64 \<Rightarrow> u64" where
  "longmode_view pml4 pud pmd t a i =
     (if a = pml4 then lm_pml4 t ! unat i else if a = pud then lm_pud t ! unat i
      else if a = pmd then lm_pmd t ! unat i else 0)"

lemma index_zero:
  assumes "unat va < 2 ^ n"
  shows "(drop_bit n va :: u64) AND 0x1FF = 0"
proof -
  have "unat (drop_bit n va AND 0x1FF) = 0" using assms by (simp only: unat_index) simp
  from word_eq_of_unat [OF this] show ?thesis by simp
qed

lemma identity_walk:
  assumes "lengths_512 [lm_pml4 t, lm_pud t, lm_pmd t, lm_pmd2 t]"
    and "frame_ok pml4" and "frame_ok pud" and "frame_ok pmd" and "distinct [pml4, pud, pmd]"
    and "unat va < 2 ^ 39"
  shows "hw_walk (longmode_view pml4 pud pmd (identity_map_1gb pud pmd t)) pml4 va =
    (if unat va < 20 * 0x200000 then Some va else None)"
proof -
  let ?v = "longmode_view pml4 pud pmd (identity_map_1gb pud pmd t)"
  note tabs = identity_map_tables [OF assms(1), of pud pmd]
  have d: "pud \<noteq> pml4" "pmd \<noteq> pml4" "pmd \<noteq> pud" using assms(5) by auto
  have i4: "PML4_INDEX va = 0" unfolding PML4_INDEX_def by (rule index_zero [OF assms(6)])
  have e4: "?v pml4 (PML4_INDEX va) = table_entry pud"
    by (simp add: longmode_view_def tabs i4)
  have u3: "unat (PUD_INDEX va) = unat va div 2 ^ 30 mod 512"
    unfolding PUD_INDEX_def by (rule unat_index)
  have u2: "unat (PMD_INDEX va) = unat va div 2 ^ 21 mod 512"
    unfolding PMD_INDEX_def by (rule unat_index)
  show ?thesis
  proof (cases "unat va < 2 ^ 30")
    case True
    have "PUD_INDEX va = 0" unfolding PUD_INDEX_def by (rule index_zero [OF True])
    then have e3: "?v pud (PUD_INDEX va) = table_entry pmd"
      using d by (simp add: longmode_view_def tabs)
    have lt: "unat va div 2 ^ 21 < 512" using True by (simp add: less_mult_imp_div_less)
    let ?k = "unat va div 0x200000"
    have e2: "?v pmd (PMD_INDEX va) = (if ?k < 20 then of_nat (?k * 0x200000) OR 0x83 else 0)"
      using d lt by (simp add: longmode_view_def tabs u2 nth_append)
    have k: "?k < 20 \<longleftrightarrow> unat va < 20 * 0x200000" by (rule div_less_iff_less_mult) simp
    have "unat va < 2 ^ 52" using assms(6) by simp
    note leaf = large_page_entry [OF this refl]
    show ?thesis
      using leaf e4 e3 e2 k table_entry_fields [OF assms(3)] table_entry_fields [OF assms(4)]
      by (simp only: hw_walk_def Let_def) simp
  next
    case False
    have "unat va div 2 ^ 30 < 512" using assms(6) by (simp add: less_mult_imp_div_less)
    moreover have "unat va div 2 ^ 30 \<noteq> 0" using False by (simp add: div_eq_0_iff)
    ultimately have "?v pud (PUD_INDEX va) = 0"
      using d by (simp add: longmode_view_def tabs u3 nth_list_update)
    moreover have "\<not> unat va < 20 * 0x200000" using False by simp
    ultimately show ?thesis
      using e4 table_entry_fields [OF assms(3)] by (simp only: hw_walk_def Let_def) simp
  qed
qed

section \<open>The tables of stage 2\<close>

definition s2_lengths :: "stage2_tables \<Rightarrow> bool" where
  "s2_lengths t \<longleftrightarrow> lengths_512 [s2_pml4 t, s2_pud t, s2_pmd t, s2_pt t, s2_pudlow t, s2_pmdlow t, s2_ptlow t]"

lemma clear_stage2_fields:
  assumes "s2_lengths t"
  shows "s2_pml4 (fold clear_stage2 [0..<512] t) = replicate 512 0"
    "s2_pud (fold clear_stage2 [0..<512] t) = replicate 512 0"
    "s2_pmd (fold clear_stage2 [0..<512] t) = replicate 512 0"
    "s2_pt (fold clear_stage2 [0..<512] t) = replicate 512 0"
    "s2_pudlow (fold clear_stage2 [0..<512] t) = replicate 512 0"
    "s2_pmdlow (fold clear_stage2 [0..<512] t) = replicate 512 0"
    "s2_ptlow (fold clear_stage2 [0..<512] t) = replicate 512 0"
proof -
  have *: "g (fold clear_stage2 [0..<512] t) = replicate 512 0"
    if "length (g t) = 512" and "\<And>i t. g (clear_stage2 i t) = (g t)[i := 0]"
    for g :: "stage2_tables \<Rightarrow> u64 list"
    using fold_field [of g clear_stage2 "\<lambda>i xs. xs[i := 0]", OF that(2)] clear_list [OF that(1)]
    by simp
  show "s2_pml4 (fold clear_stage2 [0..<512] t) = replicate 512 0"
    "s2_pud (fold clear_stage2 [0..<512] t) = replicate 512 0"
    "s2_pmd (fold clear_stage2 [0..<512] t) = replicate 512 0"
    "s2_pt (fold clear_stage2 [0..<512] t) = replicate 512 0"
    "s2_pudlow (fold clear_stage2 [0..<512] t) = replicate 512 0"
    "s2_pmdlow (fold clear_stage2 [0..<512] t) = replicate 512 0"
    "s2_ptlow (fold clear_stage2 [0..<512] t) = replicate 512 0"
    using assms by (intro *; simp add: s2_lengths_def lengths_512_def clear_stage2_def)+
qed

definition page_entries :: "u64 list" where
  "page_entries = map (\<lambda>i. of_nat (i * 0x1000) OR 0x83) [0..<512]"

lemma fill_stage2_fields:
  "length (s2_pt t) = 512 \<Longrightarrow> s2_pt (fold fill_stage2 [0..<512] t) = page_entries"
  "length (s2_ptlow t) = 512 \<Longrightarrow> s2_ptlow (fold fill_stage2 [0..<512] t) = page_entries"
  "s2_pml4 (fold fill_stage2 [0..<512] t) = s2_pml4 t"
  "s2_pud (fold fill_stage2 [0..<512] t) = s2_pud t"
  "s2_pmd (fold fill_stage2 [0..<512] t) = s2_pmd t"
  "s2_pudlow (fold fill_stage2 [0..<512] t) = s2_pudlow t"
  "s2_pmdlow (fold fill_stage2 [0..<512] t) = s2_pmdlow t"
proof -
  have fill: "g (fold fill_stage2 [0..<512] t) = page_entries"
    if "length (g t) = 512" and "\<And>i t. g (fill_stage2 i t) = (g t)[i := of_nat (i * 0x1000) OR 0x83]"
    for g :: "stage2_tables \<Rightarrow> u64 list"
    using fold_field [of g fill_stage2 "\<lambda>i xs. xs[i := of_nat (i * 0x1000) OR 0x83]", OF that(2)]
      fold_update_list [of 512 "g t" "\<lambda>i. of_nat (i * 0x1000) OR 0x83"] that(1)
    by (simp add: page_entries_def del: upt_rec_numeral)
  have keep: "g (fold fill_stage2 [0..<512] t) = g t" if "\<And>i t. g (fill_stage2 i t) = g t"
    for g :: "stage2_tables \<Rightarrow> u64 list"
    using fold_field [of g fill_stage2 "\<lambda>i x. x", OF that] by (simp only: fold_keep)
  show "length (s2_pt t) = 512 \<Longrightarrow> s2_pt (fold fill_stage2 [0..<512] t) = page_entries"
    and "length (s2_ptlow t) = 512 \<Longrightarrow> s2_ptlow (fold fill_stage2 [0..<512] t) = page_entries"
    by (rule fill; simp add: fill_stage2_def)+
  show "s2_pml4 (fold fill_stage2 [0..<512] t) = s2_pml4 t"
    and "s2_pud (fold fill_stage2 [0..<512] t) = s2_pud t"
    and "s2_pmd (fold fill_stage2 [0..<512] t) = s2_pmd t"
    and "s2_pudlow (fold fill_stage2 [0..<512] t) = s2_pudlow t"
    and "s2_pmdlow (fold fill_stage2 [0..<512] t) = s2_pmdlow t"
    by (rule keep; simp add: fill_stage2_def)+
qed

lemma stage2_map_tables:
  fixes a :: stage2_addrs
  assumes "s2_lengths t"
  defines "u \<equiv> snd (stage2_map_kernel a t)"
  shows "s2_pml4 u = (replicate 512 0)[511 := table_entry (a_pud a), 0 := table_entry (a_pudlow a)]"
    "s2_pudlow u = (replicate 512 0)[0 := table_entry (a_pmdlow a)]"
    "s2_pud u = (replicate 512 0)[510 := table_entry (a_pmd a)]"
    "s2_pmd u = (replicate 512 0)[0 := table_entry (a_pt a)]"
    "s2_pmdlow u = (replicate 512 0)[0 := table_entry (a_ptlow a)]"
    "s2_pt u = page_entries" "s2_ptlow u = page_entries"
  unfolding u_def
  by (simp_all add: stage2_map_kernel_def Let_def fill_stage2_fields clear_stage2_fields [OF assms(1)]
      del: upt_rec_numeral)

definition stage2_view :: "stage2_addrs \<Rightarrow> stage2_tables \<Rightarrow> u64 \<Rightarrow> u64 \<Rightarrow> u64" where
  "stage2_view a t p i =
     (if p = a_pml4 a then s2_pml4 t ! unat i else if p = a_pud a then s2_pud t ! unat i
      else if p = a_pmd a then s2_pmd t ! unat i else if p = a_pt a then s2_pt t ! unat i
      else if p = a_pudlow a then s2_pudlow t ! unat i else if p = a_pmdlow a then s2_pmdlow t ! unat i
      else if p = a_ptlow a then s2_ptlow t ! unat i else 0)"

definition addrs_ok :: "stage2_addrs \<Rightarrow> bool" where
  "addrs_ok a \<longleftrightarrow> (let as = [a_pml4 a, a_pud a, a_pmd a, a_pt a, a_pudlow a, a_pmdlow a, a_ptlow a]
     in distinct as \<and> (\<forall>x \<in> set as. frame_ok x))"

lemma page_entries_walk:
  assumes "unat va < 0x200000"
  shows "page_entries ! unat (PT_INDEX va) AND PRESENT \<noteq> 0"
    and "(page_entries ! unat (PT_INDEX va) AND ADDRESS_MASK) OR (va AND 0xFFF) = va"
proof -
  have "unat (PT_INDEX va) = unat va div 2 ^ 12 mod 512"
    unfolding PT_INDEX_def by (rule unat_index)
  moreover have "unat va div 4096 < 512" using assms by (simp add: less_mult_imp_div_less)
  ultimately have e: "page_entries ! unat (PT_INDEX va) = of_nat (unat va div 4096 * 0x1000) OR 0x83"
    by (simp add: page_entries_def)
  have "unat va < 2 ^ 52" using assms by simp
  from small_page_entry [OF this e]
  show "page_entries ! unat (PT_INDEX va) AND PRESENT \<noteq> 0"
    and "(page_entries ! unat (PT_INDEX va) AND ADDRESS_MASK) OR (va AND 0xFFF) = va" .
qed

definition KERNEL_ADDR :: u64 where "KERNEL_ADDR = 0xFFFFFFFF80000000"

lemma high_indices:
  assumes "unat va < 0x200000"
  shows "PML4_INDEX (KERNEL_ADDR + va) = 511" "PUD_INDEX (KERNEL_ADDR + va) = 510"
    "PMD_INDEX (KERNEL_ADDR + va) = 0" "PT_INDEX (KERNEL_ADDR + va) = PT_INDEX va"
    "(KERNEL_ADDR + va) AND 0xFFF = va AND 0xFFF"
proof -
  let ?K = "KERNEL_ADDR + va" and ?k = "18446744071562067968 :: nat"
  have "unat ?K = unat KERNEL_ADDR + unat va"
    using assms by (intro unat_add_no_wrap_word) (simp add: KERNEL_ADDR_def)
  then have u: "unat ?K = ?k + unat va" by (simp add: KERNEL_ADDR_def)
  have eq: "drop_bit n ?K AND 0x1FF = i" if "unat ?K div 2 ^ n mod 512 = unat i" for n and i :: u64
    using that word_eq_of_unat [of "drop_bit n ?K AND 0x1FF"] unat_index [of n ?K] by simp
  have k39: "?k = 33554431 * 2 ^ 39 + 547608330240" and k30: "?k = 17179869182 * 2 ^ 30"
    and k21: "?k = 8796093021184 * 2 ^ 21" and k12: "?k = 4503599626846208 * 2 ^ 12" by simp_all
  have "unat ?K div 2 ^ 39 = 33554431"
    using assms unfolding u by (intro div_nat_eqI) simp_all
  then show "PML4_INDEX ?K = 511" unfolding PML4_INDEX_def by (intro eq) simp
  have "unat ?K div 2 ^ 30 = 17179869182"
    using assms unfolding u by (intro div_nat_eqI) simp_all
  then show "PUD_INDEX ?K = 510" unfolding PUD_INDEX_def by (intro eq) simp
  have "unat ?K div 2 ^ 21 = 8796093021184"
    using assms unfolding u by (intro div_nat_eqI) simp_all
  then show "PMD_INDEX ?K = 0" unfolding PMD_INDEX_def by (intro eq) simp
  have "unat ?K div 2 ^ 12 = 4503599626846208 + unat va div 2 ^ 12"
    unfolding u k12 by (subst div_mult_self3) simp_all
  then have "unat ?K div 2 ^ 12 mod 512 = (unat va div 2 ^ 12) mod 512"
    by (simp add: mod_add_left_eq [symmetric])
  then show "PT_INDEX ?K = PT_INDEX va"
    unfolding PT_INDEX_def by (intro eq) (simp only: unat_index)
  have m: "(0xFFF :: u64) = mask 12" by (simp add: mask_eq_exp_minus_1)
  have "(?k + unat va) mod 2 ^ 12 = unat va mod 2 ^ 12"
    unfolding k12 by (simp add: mod_add_left_eq [symmetric])
  then have "unat (take_bit 12 ?K) = unat (take_bit 12 va)"
    unfolding unat_take_bit_u64 u .
  then have "take_bit 12 ?K = take_bit 12 va" by (metis word_eq_of_unat)
  then show "?K AND 0xFFF = va AND 0xFFF" unfolding m by (simp add: take_bit_eq_mask)
qed

lemma stage2_walk:
  assumes "s2_lengths t" and "addrs_ok a" and "unat va < 0x200000"
  defines "v \<equiv> stage2_view a (snd (stage2_map_kernel a t))"
  shows "hw_walk v (a_pml4 a) va = Some va" and "hw_walk v (a_pml4 a) (KERNEL_ADDR + va) = Some va"
proof -
  note tabs = stage2_map_tables [OF assms(1), of a]
  have d: "a_pud a \<noteq> a_pml4 a" "a_pmd a \<noteq> a_pml4 a" "a_pmd a \<noteq> a_pud a" "a_pt a \<noteq> a_pml4 a"
    "a_pt a \<noteq> a_pud a" "a_pt a \<noteq> a_pmd a" "a_pudlow a \<noteq> a_pml4 a" "a_pudlow a \<noteq> a_pud a"
    "a_pudlow a \<noteq> a_pmd a" "a_pudlow a \<noteq> a_pt a" "a_pmdlow a \<noteq> a_pml4 a" "a_pmdlow a \<noteq> a_pud a"
    "a_pmdlow a \<noteq> a_pmd a" "a_pmdlow a \<noteq> a_pt a" "a_pmdlow a \<noteq> a_pudlow a"
    "a_ptlow a \<noteq> a_pml4 a" "a_ptlow a \<noteq> a_pud a" "a_ptlow a \<noteq> a_pmd a" "a_ptlow a \<noteq> a_pt a"
    "a_ptlow a \<noteq> a_pudlow a" "a_ptlow a \<noteq> a_pmdlow a"
    and f: "frame_ok (a_pud a)" "frame_ok (a_pmd a)" "frame_ok (a_pt a)" "frame_ok (a_pudlow a)"
      "frame_ok (a_pmdlow a)" "frame_ok (a_ptlow a)"
    using assms(2) unfolding addrs_ok_def Let_def by auto
  have root: "v (a_pml4 a) 0 = table_entry (a_pudlow a)" "v (a_pml4 a) 511 = table_entry (a_pud a)"
    by (simp_all add: v_def stage2_view_def tabs)
  have low: "v (a_pudlow a) 0 = table_entry (a_pmdlow a)" "v (a_pmdlow a) 0 = table_entry (a_ptlow a)"
    and high: "v (a_pud a) 510 = table_entry (a_pmd a)" "v (a_pmd a) 0 = table_entry (a_pt a)"
    and pt: "v (a_ptlow a) i = page_entries ! unat i" "v (a_pt a) i = page_entries ! unat i" for i
    using d by (simp_all add: v_def stage2_view_def tabs)
  have idx: "PML4_INDEX va = 0" "PUD_INDEX va = 0" "PMD_INDEX va = 0"
    unfolding PML4_INDEX_def PUD_INDEX_def PMD_INDEX_def
    using assms(3) by (auto intro!: index_zero)
  note leaf = page_entries_walk [OF assms(3)]
  note hi = high_indices [OF assms(3)]
  show "hw_walk v (a_pml4 a) va = Some va"
    using leaf by (simp add: hw_walk_def Let_def idx root low pt table_entry_fields f)
  show "hw_walk v (a_pml4 a) (KERNEL_ADDR + va) = Some va"
    using leaf by (simp only: hw_walk_def Let_def hi root high pt table_entry_fields f) simp
qed

section \<open>Properties\<close>

text \<open>Lemma identity_map_1gb_range. After \<open>identity_map_1gb\<close> the processor translates the addresses
  below 40 MiB to themselves and, within the first 512 GiB, no other address: twenty 2 MiB
  pages are mapped and not the gigabyte of the name. What the tables held before is gone.\<close>
theorem identity_map_1gb_range:
  assumes "lengths_512 [lm_pml4 t, lm_pud t, lm_pmd t, lm_pmd2 t]"
    and "frame_ok pml4" and "frame_ok pud" and "frame_ok pmd" and "distinct [pml4, pud, pmd]"
    and "unat va < 2 ^ 39"
  shows "hw_walk (longmode_view pml4 pud pmd (identity_map_1gb pud pmd t)) pml4 va =
    (if unat va < 40 * 1024 * 1024 then Some va else None)"
  using identity_walk [OF assms] by simp

definition sample_longmode :: longmode_tables where
  "sample_longmode = \<lparr>lm_pml4 = replicate 512 7, lm_pud = replicate 512 7,
     lm_pmd = replicate 512 7, lm_pmd2 = replicate 512 7\<rparr>"

theorem identity_map_1gb_range_witness:
  "hw_walk (longmode_view 0x9000 0xA000 0xB000 (identity_map_1gb 0xA000 0xB000 sample_longmode))
     0x9000 0x1234567 = Some 0x1234567 \<and>
   hw_walk (longmode_view 0x9000 0xA000 0xB000 (identity_map_1gb 0xA000 0xB000 sample_longmode))
     0x9000 0x3000000 = None"
proof -
  have l: "lengths_512 [lm_pml4 sample_longmode, lm_pud sample_longmode, lm_pmd sample_longmode,
      lm_pmd2 sample_longmode]" by (simp add: sample_longmode_def lengths_512_def)
  have f: "frame_ok 0x9000" "frame_ok 0xA000" "frame_ok 0xB000"
    by (simp_all add: frame_ok_def ADDRESS_MASK_def)
  show ?thesis
    using identity_map_1gb_range [OF l f, of "0x1234567"] identity_map_1gb_range [OF l f, of "0x3000000"]
    by simp
qed

text \<open>C23 stage2_map_kernel_walk. With the tables \<open>map_kernel\<close> of stage 2 builds and loads, the
  processor reaches the first 2 MiB of physical memory both at their own addresses and from
  0xFFFFFFFF80000000 on, where the kernel is linked, for any page-aligned distinct tables.\<close>
theorem stage2_map_kernel_walk:
  assumes "s2_lengths t" and "addrs_ok a" and "unat va < 0x200000"
    and "stage2_map_kernel a t = (root, u)"
  shows "hw_walk (stage2_view a u) root va = Some va \<and>
    hw_walk (stage2_view a u) root (KERNEL_ADDR + va) = Some va"
proof -
  have "u = snd (stage2_map_kernel a t)" and "root = a_pml4 a"
    using assms(4) by (auto simp: stage2_map_kernel_def Let_def)
  then show ?thesis using stage2_walk [OF assms(1-3)] by simp
qed

definition sample_stage2 :: stage2_tables where
  "sample_stage2 = (let z = replicate 512 0 in
     \<lparr>s2_pml4 = z, s2_pud = z, s2_pmd = z, s2_pt = z, s2_pudlow = z, s2_pmdlow = z, s2_ptlow = z\<rparr>)"

definition sample_addrs :: stage2_addrs where
  "sample_addrs = \<lparr>a_pml4 = 0x10000, a_pud = 0x11000, a_pmd = 0x12000, a_pt = 0x13000,
     a_pudlow = 0x14000, a_pmdlow = 0x15000, a_ptlow = 0x16000\<rparr>"

lemma sample_stage2_ok: "s2_lengths sample_stage2" "addrs_ok sample_addrs"
  by (simp_all add: sample_stage2_def s2_lengths_def lengths_512_def Let_def sample_addrs_def
      addrs_ok_def frame_ok_def ADDRESS_MASK_def)

theorem stage2_map_kernel_walk_witness:
  "\<exists>root u. stage2_map_kernel sample_addrs sample_stage2 = (root, u) \<and>
     hw_walk (stage2_view sample_addrs u) root (KERNEL_ADDR + 0x1234) = Some 0x1234"
proof -
  obtain root u where e: "stage2_map_kernel sample_addrs sample_stage2 = (root, u)" by fastforce
  then show ?thesis
    using stage2_map_kernel_walk [OF sample_stage2_ok _ e, of "0x1234"] by simp
qed

end
