(* ===== verification/Stage2.thy ===== *)
theory Stage2
  imports Fat32 BootPaging
begin

text \<open>
  The second stage of the boot loader, \<open>bootloader/stage2.c\<close>: its own copy of the FAT32 code,
  the byte-wise parser of the boot sector, and \<open>loader_main\<close>, which loads \<open>BOOT BIN\<close> to
  the address the kernel is linked at. The sector read enters it as the parameter \<open>rd\<close>; the
  properties take the file's own \<open>read_data\<close> for it.
\<close>

section \<open>The loader's own library\<close>

text \<open>
  The file repeats routines of the kernel line by line, with its copy of the packed structure of
  the boot sector. \<open>log\<close> is not called.
\<close>

type_synonym BPB = bpb_t

definition s2_outb :: "u16 \<Rightarrow> u8 \<Rightarrow> trace \<Rightarrow> trace" where [simp]: "s2_outb = outb"

definition s2_inb :: "device \<Rightarrow> u16 \<Rightarrow> trace \<Rightarrow> u8 \<times> trace" where [simp]: "s2_inb = inb"

definition s2_inw :: "device \<Rightarrow> u16 \<Rightarrow> trace \<Rightarrow> u16 \<times> trace" where [simp]: "s2_inw = inw"

definition s2_log :: "reader \<Rightarrow> trace \<Rightarrow> trace option" where [simp]: "s2_log = log_message"

definition s2_strcmp :: "reader \<Rightarrow> reader \<Rightarrow> u64 \<Rightarrow> u8" where [simp]: "s2_strcmp = strcmp"

definition s2_memmove :: "memory \<Rightarrow> u64 \<Rightarrow> u64 \<Rightarrow> u64 \<Rightarrow> memory" where [simp]: "s2_memmove = memmove"

section \<open>The loader's own disk driver\<close>

definition read_data :: "device \<Rightarrow> u32 \<Rightarrow> trace \<Rightarrow> (u8 list \<times> trace) option" where
  "read_data dev lba h =
     (let h = s2_outb HEAD (ucast (0xE0 OR (drop_bit 24 lba AND 0xF))) h;
          h = s2_outb SECTOR_COUNT 1 h;
          h = s2_outb LBALOW (ucast (lba AND 0xFF)) h;
          h = s2_outb LBAMID (ucast (drop_bit 8 lba AND 0xFF)) h;
          h = s2_outb LBAHIGH (ucast (drop_bit 16 lba AND 0xFF)) h;
          h = s2_outb COMMAND 0x20 h
      in case poll_while dev 0x1F7 (\<lambda>v. v AND 0x80 \<noteq> 0) h of None \<Rightarrow> None
         | Some h \<Rightarrow>
           (case poll_while dev 0x1F7 (\<lambda>v. v AND 0x08 = 0) h of None \<Rightarrow> None
            | Some h \<Rightarrow>
                (let (data, h) = read_words dev 256 h in Some (data, s2_outb FEATURES 0 h))))"

lemma read_data_eq: "read_data dev = read_sector dev"
  unfolding fun_eq_iff read_data_def read_sector_def issue_read_def STATUS_def Let_def s2_outb_def by simp

section \<open>Parsing the boot sector\<close>

definition two_bytes :: "u8 list \<Rightarrow> nat \<Rightarrow> u16" where
  "two_bytes bytes i = ucast ((ucast (bytes ! i) :: u32) OR push_bit 8 (ucast (bytes ! (i + 1))))"

definition four_bytes :: "u8 list \<Rightarrow> nat \<Rightarrow> u32" where
  "four_bytes bytes i = ucast (bytes ! i) OR push_bit 8 (ucast (bytes ! (i + 1))) OR
     push_bit 16 (ucast (bytes ! (i + 2))) OR push_bit 24 (ucast (bytes ! (i + 3)))"

text \<open>\<open>i\<close> is how far the pointer \<open>bytes\<close> has moved.\<close>

definition parse_bpb :: "u8 list \<Rightarrow> BPB \<Rightarrow> BPB" where
  "parse_bpb bytes b =
     (let i = 0;
          b = b\<lparr>firstBytes := [bytes ! i, bytes ! (i + 1), bytes ! (i + 2)]\<rparr>; i = i + 3;
          b = b\<lparr>OEM_identifier := map (\<lambda>k. bytes ! (i + k)) [0..<8]\<rparr>; i = i + 8;
          b = b\<lparr>bytes_per_sector := two_bytes bytes i\<rparr>; i = i + 2;
          b = b\<lparr>sectors_per_cluster := bytes ! i\<rparr>; i = i + 1;
          b = b\<lparr>reserverd_sectors := two_bytes bytes i\<rparr>; i = i + 2;
          b = b\<lparr>number_of_fats := bytes ! i\<rparr>; i = i + 1;
          b = b\<lparr>number_of_roots := two_bytes bytes i\<rparr>; i = i + 2;
          b = b\<lparr>number_of_lvolume_sectors := two_bytes bytes i\<rparr>; i = i + 2;
          b = b\<lparr>media_desc_type := bytes ! i\<rparr>; i = i + 1;
          b = b\<lparr>notused := two_bytes bytes i\<rparr>; i = i + 2;
          b = b\<lparr>sectors_per_track := two_bytes bytes i\<rparr>; i = i + 2;
          b = b\<lparr>heads_num := two_bytes bytes i\<rparr>; i = i + 2;
          b = b\<lparr>hidden_sectors_num := four_bytes bytes i\<rparr>; i = i + 4;
          b = b\<lparr>lsectors_count := four_bytes bytes i\<rparr>; i = i + 4;
          b = b\<lparr>sectors_per_fat := four_bytes bytes i\<rparr>; i = i + 4;
          b = b\<lparr>flags_epb := two_bytes bytes i\<rparr>; i = i + 2;
          b = b\<lparr>version := two_bytes bytes i\<rparr>; i = i + 2;
          b = b\<lparr>root_directory_cluster_number := four_bytes bytes i\<rparr>; i = i + 4;
          b = b\<lparr>fsinfo_sector_num := two_bytes bytes i\<rparr>
      in b)"

section \<open>State\<close>

record s2_file =
  s2_short_name :: "u8 list"
  s2_first_cluster :: u32
  s2_size :: "u8 list"

record stage2 =
  s2_bpb :: BPB
  s2_files :: "s2_file list"
  s2_buffer :: "u8 list"
  s2_clusters :: s32
  s2_tables :: stage2_tables

section \<open>The root directory\<close>

definition s2_set_file :: "sfn_t \<Rightarrow> s2_file \<Rightarrow> s2_file" where
  "s2_set_file sfn f =
     f\<lparr>s2_first_cluster := sfn_cluster sfn, s2_size := sfn_size sfn, s2_short_name := sfn_name sfn\<rparr>"

function s2_directory_loop ::
  "u8 list \<Rightarrow> nat \<Rightarrow> s2_file list \<Rightarrow> nat \<Rightarrow> u8 \<Rightarrow> s2_file list res" where
  "s2_directory_loop buf i fs fileIndex foundfile =
     (if i < BUFFER_SIZE then
        (if buf ! i = 0 then Inr fs
         else if buf ! i = ENTRY_UNUSED then s2_directory_loop buf (i + 32) fs fileIndex foundfile
         else if buf ! (i + 11) = ENTRY_LFN then s2_directory_loop buf (i + 32) fs fileIndex 1
         else if buf ! (i + 11) = ENTRY_DIR then s2_directory_loop buf (i + 32) fs fileIndex foundfile
         else if foundfile = 1 then
           (if length fs \<le> fileIndex then Inl Out_Of_Bounds
            else s2_directory_loop buf (i + 32)
              (fs[fileIndex := s2_set_file (decode_sfn (slice i 32 buf)) (fs ! fileIndex)]) (Suc fileIndex) 0)
         else s2_directory_loop buf (i + 32) fs fileIndex foundfile)
      else Inr fs)"
  by pat_completeness auto
termination
  by (relation "measure (\<lambda>(buf, i, fs, k, found). BUFFER_SIZE - i)") auto

declare s2_directory_loop.simps [simp del]

definition s2_process_directory_area ::
  "(u32 \<Rightarrow> 's \<Rightarrow> (u8 list \<times> 's) option) \<Rightarrow> stage2 \<Rightarrow> 's \<Rightarrow> (stage2 \<times> 's) res option" where
  "s2_process_directory_area rd st s =
     (case rd (PARTITION_START + ucast (reserverd_sectors (s2_bpb st)) +
               sectors_per_fat (s2_bpb st) * ucast (number_of_fats (s2_bpb st))) s of
        None \<Rightarrow> None
      | Some (d, s) \<Rightarrow>
          Some (seq (s2_directory_loop d 0 (s2_files st) 0 0)
            (\<lambda>fs. Inr (st\<lparr>s2_files := fs, s2_buffer := d\<rparr>, s))))"

section \<open>Loading the kernel\<close>

text \<open>Every link that is not the end mark counts in the global \<open>clusters\<close>.\<close>

definition s2_read_nextcluster :: "u32 list \<Rightarrow> u32 \<Rightarrow> s32 \<Rightarrow> (u32 \<times> s32) res" where
  "s2_read_nextcluster fattable cluster clusters =
     (if length fattable \<le> unat cluster then Inl Out_Of_Bounds
      else
        let next = fattable ! unat cluster
        in Inr (if next = 0xFFFFFFF then (0, clusters) else (next, clusters + 1)))"

partial_function (option) s2_chain_loop ::
  "(u32 \<Rightarrow> 's \<Rightarrow> (u8 list \<times> 's) option) \<Rightarrow> bpb_t \<Rightarrow> u32 list \<Rightarrow>
     u32 \<Rightarrow> s32 \<Rightarrow> memory \<Rightarrow> s32 \<Rightarrow> 's \<Rightarrow> (memory \<times> s32 \<times> 's) res option" where
  "s2_chain_loop rd b fat_table next memIndex m clusters s =
     (case s2_read_nextcluster fat_table next clusters of
        Inl e \<Rightarrow> Some (Inl e)
      | Inr (next, clusters) \<Rightarrow>
          if next = 0 then Some (Inr (m, clusters, s))
          else
            (case rd (cluster_lba b next) s of
               None \<Rightarrow> None
             | Some (d, s) \<Rightarrow>
                 s2_chain_loop rd b fat_table next (memIndex + 1)
                   (store_bytes m (KERNEL_ADDR + int_to_u64 (memIndex * 0x200)) d) clusters s))"

fun s2_find_cluster :: "reader \<Rightarrow> s2_file list \<Rightarrow> u32 \<Rightarrow> u32" where
  "s2_find_cluster path [] cluster = cluster"
| "s2_find_cluster path (f # fs) cluster =
     s2_find_cluster path fs
       (if s2_strcmp path (bytes_of (s2_short_name f)) 11 = 0 then s2_first_cluster f else cluster)"

definition boot_path :: reader where
  "boot_path = bytes_of (chars ''BOOT    BIN'')"

text \<open>
  The result is the memory, the state and the call of the kernel, its address and the two
  arguments passed on. That no file was found is not tested.
\<close>

definition loader_main ::
  "(u32 \<Rightarrow> 's \<Rightarrow> (u8 list \<times> 's) option) \<Rightarrow> stage2_addrs \<Rightarrow> u32 \<Rightarrow> u32 \<Rightarrow> stage2 \<Rightarrow>
     memory \<Rightarrow> 's \<Rightarrow> (memory \<times> stage2 \<times> (u64 \<times> u32 \<times> u32) \<times> 's) res option" where
  "loader_main rd addrs vesa memorymap st m s =
     (let st = st\<lparr>s2_clusters := 0, s2_tables := snd (stage2_map_kernel addrs (s2_tables st))\<rparr> in
      case rd PARTITION_START s of None \<Rightarrow> None
      | Some (d, s) \<Rightarrow>
        (let st = st\<lparr>s2_buffer := d, s2_bpb := decode_bpb d\<rparr> in
         case s2_process_directory_area rd st s of None \<Rightarrow> None
         | Some (Inl e) \<Rightarrow> Some (Inl e)
         | Some (Inr (st, s)) \<Rightarrow>
           (let b = s2_bpb st; cluster = s2_find_cluster boot_path (take 5 (s2_files st)) 0 in
            case rd (PARTITION_START + ucast (reserverd_sectors b)) s of None \<Rightarrow> None
            | Some (fat, s) \<Rightarrow>
              (case rd (cluster_lba b cluster) s of None \<Rightarrow> None
               | Some (e, s) \<Rightarrow>
                   map_option (\<lambda>r. seq r (\<lambda>(m, clusters, s).
                       Inr (m, st\<lparr>s2_clusters := clusters\<rparr>, (KERNEL_ADDR, vesa, memorymap), s)))
                     (s2_chain_loop rd b (decode_fat fat) cluster 1
                        (store_bytes m KERNEL_ADDR e) (s2_clusters st) s)))))"

section \<open>Agreement with the kernel's copy\<close>

definition s2_file_of :: "file_t \<Rightarrow> s2_file" where
  "s2_file_of f = \<lparr>s2_short_name = short_name f, s2_first_cluster = first_cluster f, s2_size = file_size f\<rparr>"

lemma s2_file_of_simps [simp]:
  "s2_file_of (read_filename_from_lfn f l) = s2_file_of f"
  "s2_file_of (set_file e f) = s2_set_file e (s2_file_of f)"
  by (simp_all add: s2_file_of_def set_file_def s2_set_file_def)

lemma map_s2_file_lfn [simp]:
  "map s2_file_of (fs[0 := read_filename_from_lfn (fs ! 0) l]) = map s2_file_of fs"
  by (cases fs) simp_all

lemma map_s2_set_file [simp]:
  "map s2_file_of (fs[k := set_file e (fs ! k)]) =
     (map s2_file_of fs)[k := s2_set_file e (s2_file_of (fs ! k))]"
  by (simp add: map_update)

lemma s2_directory_loop_eq:
  "s2_directory_loop buf i (map s2_file_of fs) k found =
     seq (directory_loop buf i fs k found) (\<lambda>fs'. Inr (map s2_file_of fs'))"
proof (induction buf i fs k found rule: directory_loop.induct)
  case (1 buf i fs k found)
  show ?case
  proof (cases "i < BUFFER_SIZE \<and> buf ! i \<noteq> 0")
    case False
    then show ?thesis
      by (subst s2_directory_loop.simps, subst directory_loop.simps) auto
  next
    case True
    then have b: "i < BUFFER_SIZE" "buf ! i \<noteq> 0" by auto
    show ?thesis
      using "1.IH"(1) [OF b] "1.IH"(2) [OF b] "1.IH"(3) [OF b] "1.IH"(4) [OF b] "1.IH"(5) [OF b] b
      by (subst s2_directory_loop.simps, subst directory_loop.simps)
        (simp add: not_le)
  qed
qed

lemma ucast_two_bytes:
  "ucast ((ucast (a :: u8) :: u32) OR push_bit 8 (ucast (b :: u8))) =
     ((ucast a OR push_bit 8 (ucast b)) :: u16)"
  by (rule bit_word_eqI) (auto simp: bit_simps)

lemma two_bytes_le16: "two_bytes d i = le16 d i"
  by (simp add: two_bytes_def le16_def ucast_two_bytes)

lemma ucast_four_bytes:
  "(ucast ((ucast (a :: u8) OR push_bit 8 (ucast (b :: u8))) :: u16) OR
     push_bit 16 (ucast ((ucast (c :: u8) OR push_bit 8 (ucast (d :: u8))) :: u16)) :: u32) =
   ucast a OR push_bit 8 (ucast b) OR push_bit 16 (ucast c) OR push_bit 24 (ucast d)"
proof -
  have w: "(ucast ((ucast (x :: u8) OR push_bit 8 (ucast (y :: u8))) :: u16) :: u32) =
      ucast x OR push_bit 8 (ucast y)" for x y
    by (rule bit_word_eqI) (auto simp: bit_simps dest: bit_imp_le_length)
  show ?thesis unfolding w by (simp add: push_bit_or or.assoc)
qed

lemma four_bytes_le32: "four_bytes d i = le32 d i"
  by (simp add: four_bytes_def le32_def le16_def ucast_four_bytes numeral_3_eq_3)

lemma parse_bpb_eq: "50 \<le> length d \<Longrightarrow> parse_bpb d b = decode_bpb d"
proof -
  assume d: "50 \<le> length d"
  have head: "slice 0 3 d = [d ! 0, d ! 1, d ! 2]"
    using d by (intro nth_equalityI) (auto simp: slice_def less_Suc_eq numeral_3_eq_3 numeral_2_eq_2)
  have oem: "map (\<lambda>k. d ! (3 + k)) [0..<8] = slice 3 8 d"
    using d by (intro nth_equalityI) (auto simp: slice_def)
  show ?thesis
    by (cases b) (simp add: parse_bpb_def Let_def two_bytes_le16 four_bytes_le32 decode_bpb_def head
        oem [simplified] numeral_2_eq_2 del: upt_rec_numeral)
qed

text \<open>The two chain loops, on memory and device state.\<close>

lemma s2_chain_loop_eq:
  "chain t c cs \<Longrightarrow> sector_source rd disk \<Longrightarrow>
     \<exists>s' e. s2_chain_loop rd b t c k m n s =
       Some (Inr (store_sectors KERNEL_ADDR k (map (cluster_sector disk b) cs) m,
         n + of_nat (length cs) + e, s')) \<and> e \<in> {0, 1}"
proof (induction cs arbitrary: c k m n s)
  case Nil
  then show ?case
    by (subst s2_chain_loop.simps)
      (auto simp: read_nextcluster_def s2_read_nextcluster_def Let_def split: if_splits)
next
  case (Cons x cs)
  obtain s1 where s1: "rd (cluster_lba b x) s = Some (cluster_sector disk b x, s1)"
    using sector_source.rd_ok [OF Cons.prems(2)] unfolding cluster_sector_def by blast
  have nxt: "s2_read_nextcluster t c n = Inr (x, n + 1)" and x: "x \<noteq> 0" "chain t x cs"
    using Cons.prems(1) by (auto simp: read_nextcluster_def s2_read_nextcluster_def Let_def split: if_splits)
  obtain s2 e where "s2_chain_loop rd b t x (k + 1)
      (store_bytes m (KERNEL_ADDR + int_to_u64 (k * 0x200)) (cluster_sector disk b x)) (n + 1) s1 =
      Some (Inr (store_sectors KERNEL_ADDR (k + 1) (map (cluster_sector disk b) cs)
        (store_bytes m (KERNEL_ADDR + int_to_u64 (k * 0x200)) (cluster_sector disk b x)),
        n + 1 + of_nat (length cs) + e, s2))" and "e \<in> {0, 1}"
    using Cons.IH [OF x(2) Cons.prems(2)] by blast
  then show ?case
    using s1 nxt x(1) by (subst s2_chain_loop.simps) (auto simp: algebra_simps)
qed

lemma store_chain:
  assumes "chain (decode_fat d) c cs" and "\<And>c. length (g c) = 512"
  shows "store_sectors a 1 (map g cs) (store_bytes m a (g c)) = store_bytes m a (concat (map g (c # cs)))"
proof -
  have "\<forall>d \<in> set ([g c] @ map g cs). length d = 512" using assms(2) by auto
  moreover have "512 * length ([g c] @ map g cs) < 2 ^ 31" using chain_length [OF assms(1)] by simp
  ultimately show ?thesis using store_sectors_concat [of "[g c]" "map g cs" a m] by simp
qed

definition dir_sector :: "(u32 \<Rightarrow> u8 list) \<Rightarrow> bpb_t \<Rightarrow> u8 list" where
  "dir_sector disk b = disk ((PARTITION_START + ucast (reserverd_sectors b) +
     sectors_per_fat b * ucast (number_of_fats b)) AND 0xFFFFFFF)"

text \<open>\<open>loader_main\<close> up to the chain.\<close>

lemma loader_main_start:
  assumes "ata_drive dev disk" and "b = decode_bpb (disk 0x800)"
    and "s2_directory_loop (dir_sector disk b) 0 (s2_files st) 0 0 = Inr fs"
    and "s2_find_cluster boot_path (take 5 fs) 0 = c"
  shows "\<exists>s' st'. loader_main (read_sector dev) addrs vesa memorymap st m s =
     map_option (\<lambda>r. seq r (\<lambda>(m, clusters, s). Inr (m, st'\<lparr>s2_clusters := clusters\<rparr>, (KERNEL_ADDR, vesa, memorymap), s)))
       (s2_chain_loop (read_sector dev) b (decode_fat (fat_sector disk b)) c 1
          (store_bytes m KERNEL_ADDR (cluster_sector disk b c)) 0 s') \<and>
     s2_bpb st' = b \<and> s2_files st' = fs \<and>
     s2_tables st' = snd (stage2_map_kernel addrs (s2_tables st))"
proof -
  note rd = sector_source.rd_ok [OF ata_sector_source [OF assms(1)]]
  obtain s1 where s1: "read_sector dev PARTITION_START s = Some (disk 0x800, s1)"
    using rd [of PARTITION_START s] by (auto simp: PARTITION_START_def)
  obtain s2 where s2: "read_sector dev (PARTITION_START + ucast (reserverd_sectors b) +
      sectors_per_fat b * ucast (number_of_fats b)) s1 = Some (dir_sector disk b, s2)"
    using rd unfolding dir_sector_def by blast
  obtain s3 where s3: "read_sector dev (PARTITION_START + ucast (reserverd_sectors b)) s2 =
      Some (fat_sector disk b, s3)"
    using rd unfolding fat_sector_def by blast
  obtain s4 where s4: "read_sector dev (cluster_lba b c) s3 = Some (cluster_sector disk b c, s4)"
    using rd unfolding cluster_sector_def by blast
  let ?st = "st\<lparr>s2_tables := snd (stage2_map_kernel addrs (s2_tables st)), s2_bpb := b,
      s2_files := fs, s2_buffer := dir_sector disk b\<rparr>"
  show ?thesis
    by (rule exI [of _ s4], rule exI [of _ ?st])
      (simp add: loader_main_def Let_def s1 s2_process_directory_area_def assms(2)[symmetric]
        s2 assms(3) s3 assms(4) s4)
qed

lemma loader_result:
  assumes "ata_drive dev disk" and "b = decode_bpb (disk 0x800)"
    and "s2_directory_loop (dir_sector disk b) 0 (s2_files st) 0 0 = Inr fs"
    and "s2_find_cluster boot_path (take 5 fs) 0 = c"
    and "chain (decode_fat (fat_sector disk b)) c cs"
  shows "\<exists>st' s'. loader_main (read_data dev) addrs vesa memorymap st m s =
      Some (Inr (store_bytes m KERNEL_ADDR (concat (map (cluster_sector disk b) (c # cs))),
                 st', (KERNEL_ADDR, vesa, memorymap), s')) \<and>
    s2_bpb st' = b \<and> s2_tables st' = snd (stage2_map_kernel addrs (s2_tables st))"
proof -
  note src = ata_sector_source [OF assms(1)]
  obtain s1 st1 where 1: "loader_main (read_sector dev) addrs vesa memorymap st m s =
     map_option (\<lambda>r. seq r (\<lambda>(m, clusters, s). Inr (m, st1\<lparr>s2_clusters := clusters\<rparr>, (KERNEL_ADDR, vesa, memorymap), s)))
       (s2_chain_loop (read_sector dev) b (decode_fat (fat_sector disk b)) c 1
          (store_bytes m KERNEL_ADDR (cluster_sector disk b c)) 0 s1)"
    "s2_bpb st1 = b" "s2_tables st1 = snd (stage2_map_kernel addrs (s2_tables st))"
    using loader_main_start [OF assms(1-4)] by metis
  obtain s2 n where 2: "s2_chain_loop (read_sector dev) b (decode_fat (fat_sector disk b)) c 1
          (store_bytes m KERNEL_ADDR (cluster_sector disk b c)) 0 s1 =
      Some (Inr (store_sectors KERNEL_ADDR 1 (map (cluster_sector disk b) cs)
        (store_bytes m KERNEL_ADDR (cluster_sector disk b c)), n, s2))"
    using s2_chain_loop_eq [OF assms(5) src] by metis
  have "length (cluster_sector disk b x) = 512" for x
    unfolding cluster_sector_def by (rule sector_source.sector_length [OF src])
  then show ?thesis
    using 1 2 store_chain [OF assms(5), of "cluster_sector disk b"]
    by (intro exI [of _ "st1\<lparr>s2_clusters := n\<rparr>"] exI [of _ s2]) (simp add: read_data_eq)
qed

section \<open>Properties\<close>

text \<open>Lemma parse_bpb_is_memmove. The byte-wise parser of the boot sector gives the same structure as
  copying the bytes over the packed structure, which is what the loader does instead.\<close>
theorem parse_bpb_is_memmove:
  assumes "50 \<le> length bytes"
  shows "parse_bpb bytes b = decode_bpb bytes"
  by (rule parse_bpb_eq [OF assms])

theorem parse_bpb_is_memmove_witness:
  "parse_bpb boot_sector (decode_bpb (replicate 512 0)) = decode_bpb boot_sector"
  by (rule parse_bpb_is_memmove) (simp add: sample_lengths)

text \<open>C22 directory_scans_agree. The loader's scan of a directory sector and the kernel's agree: they
  fail on the same sectors, and otherwise give the same table, long names aside.\<close>
theorem directory_scans_agree:
  "s2_directory_loop buf 0 (map s2_file_of fs) 0 0 =
     seq (directory_loop buf 0 fs 0 0) (\<lambda>fs'. Inr (map s2_file_of fs'))"
  by (rule s2_directory_loop_eq)

text \<open>C15 loader_loads_kernel. When the directory lists \<open>BOOT BIN\<close> with cluster \<open>c\<close> and the table
  links \<open>c\<close> to \<open>cs\<close> and the end mark, the loader returns, memory from 0xFFFFFFFF80000000 on
  holds the sectors of the chain in order and nothing else has changed, the tables are those
  of \<open>map_kernel\<close>, and the kernel is entered at that address with the loader's arguments.\<close>
theorem loader_loads_kernel:
  assumes "ata_drive dev disk" and "b = decode_bpb (disk 0x800)"
    and "s2_directory_loop (dir_sector disk b) 0 (s2_files st) 0 0 = Inr fs"
    and "s2_find_cluster boot_path (take 5 fs) 0 = c"
    and "chain (decode_fat (fat_sector disk b)) c cs"
  shows "\<exists>st' s'. loader_main (read_data dev) addrs vesa memorymap st m s =
      Some (Inr (store_bytes m KERNEL_ADDR (concat (map (cluster_sector disk b) (c # cs))),
                 st', (KERNEL_ADDR, vesa, memorymap), s')) \<and>
    s2_bpb st' = b \<and> s2_tables st' = snd (stage2_map_kernel addrs (s2_tables st))"
  by (rule loader_result [OF assms])

definition boot_sfn :: "u8 list" where
  "boot_sfn = chars ''BOOT    BIN'' @ 0x20 # replicate 14 0 @ [3, 0] @ replicate 4 0"

definition boot_disk :: "u32 \<Rightarrow> u8 list" where
  "boot_disk lba = (if lba = 0x822 then pair_bytes [(font_lfn, boot_sfn)] @ replicate 448 0
     else sample_disk lba)"

definition empty_s2_file :: s2_file where
  "empty_s2_file = s2_file_of empty_file"

definition initial_stage2 :: stage2 where
  "initial_stage2 = \<lparr>s2_bpb = decode_bpb (replicate 512 0), s2_files = replicate 5 empty_s2_file,
     s2_buffer = replicate 512 0, s2_clusters = 0, s2_tables = sample_stage2\<rparr>"

lemma boot_entries: "file_entry boot_sfn" "length boot_sfn = 32"
  "slice 0 11 boot_sfn = chars ''BOOT    BIN''" "sfn_cluster (decode_sfn boot_sfn) = 3"
  by (simp_all add: file_entry_def boot_sfn_def chars_def ENTRY_UNUSED_def ENTRY_LFN_def
      ENTRY_DIR_def nth_append slice_def sfn_cluster_low le16_def)

lemma boot_drive: "ata_drive (drive boot_disk) boot_disk"
  by (rule drive_ok) (simp add: boot_disk_def boot_entries sample_disk_def sample_lengths pair_bytes_def)

lemma boot_disk_bpb: "decode_bpb (boot_disk 0x800) = decode_bpb boot_sector"
  by (simp add: boot_disk_def sample_disk_def)

lemma boot_sectors:
  "dir_sector boot_disk (decode_bpb boot_sector) = pair_bytes [(font_lfn, boot_sfn)] @ replicate 448 0"
  "fat_sector boot_disk (decode_bpb boot_sector) = sample_fat"
  by (simp_all add: dir_sector_def fat_sector_def sample_bpb PARTITION_START_def boot_disk_def sample_disk_def)

definition boot_files :: "s2_file list" where
  "boot_files = map s2_file_of (enter_pairs (replicate 5 empty_file) 0 [(font_lfn, boot_sfn)])"

lemma boot_scan:
  "s2_directory_loop (dir_sector boot_disk (decode_bpb boot_sector)) 0 (s2_files initial_stage2) 0 0 =
     Inr boot_files"
proof -
  have "s2_files initial_stage2 = map s2_file_of (replicate 5 empty_file)"
    by (simp add: initial_stage2_def empty_s2_file_def)
  moreover have "directory_loop (dir_sector boot_disk (decode_bpb boot_sector)) 0 (replicate 5 empty_file) 0 0 =
      Inr (enter_pairs (replicate 5 empty_file) 0 [(font_lfn, boot_sfn)])"
    using directory_pairs_loop [of 0 "dir_sector boot_disk (decode_bpb boot_sector)"
        "[(font_lfn, boot_sfn)]" "replicate 448 0" "replicate 5 empty_file" 0]
      sample_entries boot_entries sample_lengths by (simp add: boot_sectors pair_bytes_def)
  ultimately show ?thesis by (simp only: s2_directory_loop_eq seq_Inr boot_files_def)
qed

lemma replicate_5: "replicate 5 x = [x, x, x, x, x]"
  by (simp add: numeral_eq_Suc)

lemma boot_find: "s2_find_cluster boot_path (take 5 boot_files) 0 = 3"
proof -
  have "strcmp boot_path (bytes_of (replicate 11 0)) 11 = 1"
    by (auto simp: strcmp_eq boot_path_def bytes_of_def chars_def intro!: exI [of _ 0])
  moreover have "strcmp boot_path (bytes_of (chars ''BOOT    BIN'')) 11 = 0"
    by (simp add: strcmp_eq boot_path_def)
  ultimately show ?thesis
    by (simp add: boot_files_def s2_file_of_def s2_set_file_def empty_file_def boot_entries
        Let_def set_file_def read_filename_from_lfn_def replicate_5)
qed

theorem loader_loads_kernel_witness:
  "\<exists>m' st' s'. loader_main (read_data (drive boot_disk)) sample_addrs 0x5000 0x6000 initial_stage2 (\<lambda>_. 0) [] =
      Some (Inr (m', st', (KERNEL_ADDR, 0x5000, 0x6000), s')) \<and> m' KERNEL_ADDR = 0x23 \<and> m' (KERNEL_ADDR + 0x200) = 0x24"
proof -
  let ?b = "decode_bpb boot_sector"
  have "chain (decode_fat (fat_sector boot_disk ?b)) 3 [4]"
    by (simp add: boot_sectors sample_next)
  moreover have "concat (map (cluster_sector boot_disk ?b) [3, 4]) = replicate 512 0x23 @ replicate 512 0x24"
    by (simp add: cluster_sector_def cluster_lba_def sample_bpb PARTITION_START_def boot_disk_def
        sample_disk_def)
  ultimately show ?thesis
    using loader_loads_kernel [OF boot_drive boot_disk_bpb [symmetric] boot_scan boot_find,
        of "[4]" sample_addrs "0x5000" "0x6000" "\<lambda>_. 0" "[]"]
    by (auto simp: store_bytes_apply in_range_def nth_append)
qed

text \<open>Lemma loader_ignores_missing_kernel. When no file \<open>BOOT BIN\<close> is listed the loader does not notice:
  it goes on with cluster 0, loads a sector of the table's area, and follows entry 0 of the
  table, which holds the media mark and not a link, out of the table's bounds.\<close>
theorem loader_ignores_missing_kernel:
  assumes "ata_drive dev disk" and "b = decode_bpb (disk 0x800)"
    and "s2_directory_loop (dir_sector disk b) 0 (s2_files st) 0 0 = Inr fs"
    and "s2_find_cluster boot_path (take 5 fs) 0 = 0"
    and "decode_fat (fat_sector disk b) ! 0 = v" and "128 \<le> unat v" and "v \<noteq> 0x0FFFFFFF"
  shows "loader_main (read_data dev) addrs vesa memorymap st m s = Some (Inl Out_Of_Bounds)"
proof -
  let ?t = "decode_fat (fat_sector disk b)"
  note rd = sector_source.rd_ok [OF ata_sector_source [OF assms(1)]]
  obtain s1 st1 where 1: "loader_main (read_sector dev) addrs vesa memorymap st m s =
     map_option (\<lambda>r. seq r (\<lambda>(m, clusters, s). Inr (m, st1\<lparr>s2_clusters := clusters\<rparr>, (KERNEL_ADDR, vesa, memorymap), s)))
       (s2_chain_loop (read_sector dev) b ?t 0 1
          (store_bytes m KERNEL_ADDR (cluster_sector disk b 0)) 0 s1)"
    using loader_main_start [OF assms(1-4)] by metis
  obtain d s2 where s2: "read_sector dev (cluster_lba b v) s1 = Some (d, s2)"
    using rd by blast
  have v: "v \<noteq> 0" using assms(6) by auto
  have "s2_read_nextcluster ?t 0 n = Inr (v, n + 1)" "s2_read_nextcluster ?t v n = Inl Out_Of_Bounds" for n
    using assms(5-7) by (simp_all add: s2_read_nextcluster_def Let_def)
  then have "s2_chain_loop (read_sector dev) b ?t 0 1 m' 0 s1 = Some (Inl Out_Of_Bounds)" for m'
    using v s2 by (subst s2_chain_loop.simps, simp) (subst s2_chain_loop.simps, simp)
  then show ?thesis using 1 by (simp add: read_data_eq)
qed

definition no_kernel_disk :: "u32 \<Rightarrow> u8 list" where
  "no_kernel_disk lba = (if lba = 0x800 then boot_sector
     else if lba = 0x820 then (replicate 512 0)[0 := 0xF8, 1 := 0xFF, 2 := 0xFF, 3 := 0x0F]
     else replicate 512 0)"

theorem loader_ignores_missing_kernel_witness:
  "loader_main (read_data (drive no_kernel_disk)) sample_addrs 0x5000 0x6000 initial_stage2 (\<lambda>_. 0) [] =
     Some (Inl Out_Of_Bounds)"
proof -
  have drv: "ata_drive (drive no_kernel_disk) no_kernel_disk"
    by (rule drive_ok) (simp add: no_kernel_disk_def sample_lengths)
  have b: "decode_bpb boot_sector = decode_bpb (no_kernel_disk 0x800)" by (simp add: no_kernel_disk_def)
  have dir: "dir_sector no_kernel_disk (decode_bpb boot_sector) = replicate 512 0"
    and fat: "decode_fat (fat_sector no_kernel_disk (decode_bpb boot_sector)) ! 0 = 0x0FFFFFF8"
    by (simp_all add: dir_sector_def fat_sector_def sample_bpb PARTITION_START_def no_kernel_disk_def
        decode_fat_nth le32_def le16_def del: add_2_eq_Suc add_2_eq_Suc')
  have scan: "s2_directory_loop (dir_sector no_kernel_disk (decode_bpb boot_sector)) 0
      (s2_files initial_stage2) 0 0 = Inr (s2_files initial_stage2)"
    unfolding dir by (subst s2_directory_loop.simps) (simp add: BUFFER_SIZE_def)
  have "strcmp boot_path (bytes_of (replicate 11 0)) 11 = 1"
    by (auto simp: strcmp_eq boot_path_def bytes_of_def chars_def intro!: exI [of _ 0])
  then have "s2_find_cluster boot_path (take 5 (s2_files initial_stage2)) 0 = 0"
    by (simp add: initial_stage2_def empty_s2_file_def s2_file_of_def empty_file_def replicate_5)
  from loader_ignores_missing_kernel [OF drv b scan this fat]
  show ?thesis by simp
qed

end
