(* ===== verification/LongMode.thy ===== *)
theory LongMode
  imports Stage2
begin

text \<open>
  From protected mode to the kernel: the call in \<open>bootloader/setup_pmode.asm\<close>,
  \<open>_setup_lmode\<close> of \<open>bootloader/setup_longmode.c\<close>, the two routines of
  \<open>bootloader/switch64.asm\<close> it calls, and the loader of \<open>stage2.c\<close>, entered at 0xD000.
\<close>

section \<open>The processor\<close>

record cpu =
  c_cr0 :: u32
  c_cr3 :: u32
  c_cr4 :: u32
  c_efer :: u64
  c_interrupts :: bool

text \<open>The call at the end of \<open>switch_to_64\<close>, with the two registers that hold its arguments.\<close>

record entry_call =
  call_target :: u64
  call_rdi :: u64
  call_rsi :: u64

definition enable_pae :: "cpu \<Rightarrow> cpu" where
  "enable_pae c = c\<lparr>c_cr4 := c_cr4 c OR push_bit 5 1\<rparr>"

text \<open>
  The arguments lie on the stack as 32-bit words, the 64-bit one first, behind the saved \<open>ebp\<close> and
  the return address; \<open>behind\<close> is the word after them, which the second 64-bit load also reads.
\<close>

definition stack_quad :: "u32 list \<Rightarrow> nat \<Rightarrow> u64" where
  "stack_quad st k = ucast (st ! k) OR push_bit 32 (ucast (st ! Suc k))"

definition switch_to_64 :: "u64 \<Rightarrow> u32 \<Rightarrow> u32 \<Rightarrow> u32 \<Rightarrow> u32 \<Rightarrow> u32 \<Rightarrow> cpu \<Rightarrow> cpu \<times> entry_call" where
  "switch_to_64 pml4 vesa memorymap behind ebp ret c =
     (let st = [ebp, ret, ucast pml4, ucast (drop_bit 32 pml4), vesa, memorymap, behind];
          c = c\<lparr>c_interrupts := False\<rparr>;
          c = c\<lparr>c_efer := c_efer c OR push_bit 8 1\<rparr>;
          c = c\<lparr>c_cr3 := st ! 2\<rparr>;
          c = c\<lparr>c_cr0 := c_cr0 c OR push_bit 31 1\<rparr>
      in (c, \<lparr>call_target = 0xD000, call_rdi = stack_quad st 4, call_rsi = stack_quad st 5\<rparr>))"

text \<open>The addresses of the four tables; \<open>pmd2\<close> is only cleared.\<close>

definition setup_lmode ::
    "u64 \<Rightarrow> u64 \<Rightarrow> u64 \<Rightarrow> u32 \<Rightarrow> u32 \<Rightarrow> u32 \<Rightarrow> u32 \<Rightarrow> u32 \<Rightarrow> longmode_tables \<Rightarrow> cpu \<Rightarrow>
     longmode_tables \<times> cpu \<times> entry_call" where
  "setup_lmode pml4 pud pmd vesa memorymap behind ebp ret t c =
     (let t = identity_map_1gb pud pmd t;
          c = enable_pae c
      in (t, switch_to_64 pml4 vesa memorymap behind ebp ret c))"

text \<open>
  The caller pushes the address of the mode information and then that of the memory map, which
  so is the first argument, called \<open>vesa\<close> from here to the kernel's \<open>start\<close>.
\<close>

definition callC ::
    "u64 \<Rightarrow> u64 \<Rightarrow> u64 \<Rightarrow> u32 \<Rightarrow> u32 \<Rightarrow> u32 \<Rightarrow> u32 \<Rightarrow> u32 \<Rightarrow> longmode_tables \<Rightarrow> cpu \<Rightarrow>
     longmode_tables \<times> cpu \<times> entry_call" where
  "callC pml4 pud pmd system_info memory_map behind ebp ret t c =
     setup_lmode pml4 pud pmd memory_map system_info behind ebp ret t c"

text \<open>The file's own copies of the port routine and the log, which nothing calls.\<close>

definition lm_outb :: "u16 \<Rightarrow> u8 \<Rightarrow> trace \<Rightarrow> trace" where "lm_outb = outb"

definition lm_log :: "reader \<Rightarrow> trace \<Rightarrow> trace option" where "lm_log = log_message"

section \<open>Facts\<close>

definition long_mode :: "cpu \<Rightarrow> bool" where
  "long_mode c \<longleftrightarrow> bit (c_cr0 c) 0 \<and> bit (c_cr0 c) 31 \<and> bit (c_cr4 c) 5 \<and> bit (c_efer c) 8"

lemma ucast_stack_quad: "ucast (stack_quad st k) = st ! k"
  unfolding stack_quad_def
  by (rule bit_word_eqI) (auto simp: bit_simps dest: bit_imp_le_length)

lemma callC_state:
  assumes "callC pml4 pud pmd system_info memory_map behind ebp ret t c = (t', c', e)"
  shows "t' = identity_map_1gb pud pmd t" and "c_cr3 c' = ucast pml4"
    and "bit (c_cr0 c) 0 \<Longrightarrow> long_mode c'" and "call_target e = 0xD000"
    and "ucast (call_rdi e) = memory_map" and "ucast (call_rsi e) = system_info"
  using assms
  by (auto simp: callC_def setup_lmode_def switch_to_64_def enable_pae_def long_mode_def Let_def
      ucast_stack_quad bit_simps)

section \<open>Properties\<close>

text \<open>C7 callC_hands_over. From protected mode with tables below 4 GiB the calls end in long mode,
  with the root register on tables that map exactly the first 40 MiB of the low 512 GiB to
  themselves, at the loader; and the loader, given its two argument registers, passes the
  address of the memory map and that of the mode information on to the kernel in this order.\<close>
theorem callC_hands_over:
  assumes "callC pml4 pud pmd system_info memory_map behind ebp ret t c = (t', c', e)" and "bit (c_cr0 c) 0"
    and "lengths_512 [lm_pml4 t, lm_pud t, lm_pmd t, lm_pmd2 t]"
    and "frame_ok pml4" and "frame_ok pud" and "frame_ok pmd" and "distinct [pml4, pud, pmd]"
    and "unat pml4 < 2 ^ 32"
    and "loader_main rd addrs (ucast (call_rdi e)) (ucast (call_rsi e)) st m s = Some (Inr (m', st', call, s'))"
  shows "long_mode c' \<and> call_target e = 0xD000 \<and>
    (\<forall>va. unat va < 2 ^ 39 \<longrightarrow> hw_walk (longmode_view pml4 pud pmd t') (ucast (c_cr3 c')) va =
      (if unat va < 40 * 1024 * 1024 then Some va else None)) \<and>
    call = (KERNEL_ADDR, memory_map, system_info)"
proof -
  note e = callC_state [OF assms(1)]
  have "(ucast pml4 :: u32) = of_nat (unat pml4)" by simp
  then have "unat (ucast pml4 :: u32) = unat pml4" using assms(8) by (simp only: unat_of_nat_u32)
  then have "unat (ucast (ucast pml4 :: u32) :: u64) = unat pml4" by (simp add: unat_ucast_u32)
  then have "ucast (c_cr3 c') = pml4" unfolding e(2) by (subst word_unat_eq_iff)
  moreover have "call = (KERNEL_ADDR, ucast (call_rdi e), ucast (call_rsi e))"
    using assms(9)
    by (auto simp: loader_main_def Let_def elim!: seq_InrE split: option.splits sum.splits prod.splits)
  ultimately show ?thesis
    using e(1,3-6) assms(2) identity_walk [OF assms(3-7)] by auto
qed

definition protected_mode :: cpu where
  "protected_mode = \<lparr>c_cr0 = 0x11, c_cr3 = 0, c_cr4 = 0, c_efer = 0, c_interrupts = False\<rparr>"

lemma boot_chain: "chain (decode_fat (fat_sector boot_disk (decode_bpb boot_sector))) 3 [4]"
  by (simp add: boot_sectors sample_next)

lemma boot_loader_runs:
  "\<exists>m' st' call s'. loader_main (read_data (drive boot_disk)) sample_addrs vesa memorymap initial_stage2 m s =
     Some (Inr (m', st', call, s'))"
  using loader_result [OF boot_drive boot_disk_bpb [symmetric] boot_scan boot_find boot_chain] by blast

theorem callC_hands_over_witness:
  "\<exists>t' c' e m' st' s'. callC 0x9000 0xA000 0xB000 0x8000 0x8200 0 0 0 sample_longmode protected_mode = (t', c', e) \<and>
     long_mode c' \<and> loader_main (read_data (drive boot_disk)) sample_addrs (ucast (call_rdi e)) (ucast (call_rsi e))
       initial_stage2 (\<lambda>_. 0) [] = Some (Inr (m', st', (KERNEL_ADDR, 0x8200, 0x8000), s'))"
proof -
  obtain t' c' e where e: "callC 0x9000 0xA000 0xB000 0x8000 0x8200 0 0 0 sample_longmode protected_mode = (t', c', e)"
    by (metis prod_cases3)
  obtain m' st' s' call where r: "loader_main (read_data (drive boot_disk)) sample_addrs
      (ucast (call_rdi e)) (ucast (call_rsi e)) initial_stage2 (\<lambda>_. 0) [] = Some (Inr (m', st', call, s'))"
    using boot_loader_runs by blast
  have "bit (c_cr0 protected_mode) 0" by (simp add: protected_mode_def)
  moreover have "lengths_512 [lm_pml4 sample_longmode, lm_pud sample_longmode, lm_pmd sample_longmode,
      lm_pmd2 sample_longmode]" by (simp add: sample_longmode_def lengths_512_def)
  moreover have "frame_ok 0x9000" "frame_ok 0xA000" "frame_ok 0xB000"
    by (simp_all add: frame_ok_def ADDRESS_MASK_def)
  ultimately show ?thesis using callC_hands_over [OF e _ _ _ _ _ _ _ r] e r by auto
qed



end
