(* ===== verification/Vesa.thy ===== *)
theory Vesa
  imports ByteMemory
begin

text \<open>
  The linear framebuffer, \<open>kernel/utils/vesa.c\<close> with \<open>kernel/include/vesa.h\<close>: the mode
  information the boot loader leaves in memory, the pixel macros, and \<open>draw_rectangle\<close>.
  A pixel is written with one 32-bit store. The lemmas number the pixels of a 32-bit mode
  along memory, row after row, so that a series of pixel writes is a series of updates of
  numbered cells.
\<close>

section \<open>State\<close>

record vbe_mode_info =
  vbe_attributes :: u16
  vbe_window_a :: u8
  vbe_window_b :: u8
  vbe_granularity :: u16
  vbe_window_size :: u16
  vbe_segment_a :: u16
  vbe_segment_b :: u16
  vbe_win_func_ptr :: u32
  vbe_pitch :: u16
  vbe_width :: u16
  vbe_height :: u16
  vbe_w_char :: u8
  vbe_y_char :: u8
  vbe_planes :: u8
  vbe_bpp :: u8
  vbe_banks :: u8
  vbe_memory_model :: u8
  vbe_bank_size :: u8
  vbe_image_pages :: u8
  vbe_reserved0 :: u8
  vbe_red_mask :: u8
  vbe_red_position :: u8
  vbe_green_mask :: u8
  vbe_green_position :: u8
  vbe_blue_mask :: u8
  vbe_blue_position :: u8
  vbe_reserved_mask :: u8
  vbe_reserved_position :: u8
  vbe_direct_color_attributes :: u8
  vbe_framebuffer :: u32
  vbe_off_screen_mem_off :: u32
  vbe_off_screen_mem_size :: u16
  vbe_reserved1 :: "u8 list"

text \<open>The copy over the packed structure of 256 bytes, read field by field.\<close>

definition init_vesa :: "memory \<Rightarrow> u32 \<Rightarrow> vbe_mode_info" where
  "init_vesa m ptr =
     (let p = ucast ptr :: u64 in
      \<lparr>vbe_attributes = load16 m p, vbe_window_a = m (p + 2), vbe_window_b = m (p + 3),
       vbe_granularity = load16 m (p + 4), vbe_window_size = load16 m (p + 6),
       vbe_segment_a = load16 m (p + 8), vbe_segment_b = load16 m (p + 10),
       vbe_win_func_ptr = load32 m (p + 12), vbe_pitch = load16 m (p + 16),
       vbe_width = load16 m (p + 18), vbe_height = load16 m (p + 20),
       vbe_w_char = m (p + 22), vbe_y_char = m (p + 23), vbe_planes = m (p + 24),
       vbe_bpp = m (p + 25), vbe_banks = m (p + 26), vbe_memory_model = m (p + 27),
       vbe_bank_size = m (p + 28), vbe_image_pages = m (p + 29), vbe_reserved0 = m (p + 30),
       vbe_red_mask = m (p + 31), vbe_red_position = m (p + 32),
       vbe_green_mask = m (p + 33), vbe_green_position = m (p + 34),
       vbe_blue_mask = m (p + 35), vbe_blue_position = m (p + 36),
       vbe_reserved_mask = m (p + 37), vbe_reserved_position = m (p + 38),
       vbe_direct_color_attributes = m (p + 39), vbe_framebuffer = load32 m (p + 40),
       vbe_off_screen_mem_off = load32 m (p + 44), vbe_off_screen_mem_size = load16 m (p + 48),
       vbe_reserved1 = map (\<lambda>k. m (p + 50 + of_nat k)) [0..<206]\<rparr>)"

definition get_framebuffer :: "vbe_mode_info \<Rightarrow> u32" where
  "get_framebuffer info = vbe_framebuffer info"

text \<open>\<open>get_vesainfo\<close> returns a pointer to the one structure, which nothing changes later.\<close>

definition get_vesainfo :: "vbe_mode_info \<Rightarrow> vbe_mode_info" where
  "get_vesainfo info = info"

section \<open>Pixels\<close>

text \<open>
  The address is computed in 32 bits, the framebuffer address being a \<open>uint32_t\<close>; \<open>bpp / 8\<close>
  is a division of non-negative values.
\<close>

definition pixel_address :: "vbe_mode_info \<Rightarrow> u32 \<Rightarrow> u32 \<Rightarrow> u64" where
  "pixel_address info x y =
     ucast (y * ucast (vbe_pitch info) + x * (ucast (vbe_bpp info) div 8) + vbe_framebuffer info)"

definition SET_PIXEL_COLOR :: "vbe_mode_info \<Rightarrow> u32 \<Rightarrow> u32 \<Rightarrow> u32 \<Rightarrow> memory \<Rightarrow> memory" where
  "SET_PIXEL_COLOR info x y c m = store32 m (pixel_address info x y) c"

definition CLEAR_PIXEL :: "vbe_mode_info \<Rightarrow> u32 \<Rightarrow> u32 \<Rightarrow> memory \<Rightarrow> memory" where
  "CLEAR_PIXEL info x y m = store32 m (pixel_address info x y) 0"

text \<open>The loops count with \<open>int\<close>s from 0; a negative bound is no iteration.\<close>

definition draw_rectangle ::
  "vbe_mode_info \<Rightarrow> s32 \<Rightarrow> s32 \<Rightarrow> s32 \<Rightarrow> s32 \<Rightarrow> memory \<Rightarrow> memory" where
  "draw_rectangle info x y width height =
     fold (\<lambda>i. fold (\<lambda>j. SET_PIXEL_COLOR info (x + of_nat j) (y + of_nat i) 0x00FF00)
                [0..<nat (sint width)])
       [0..<nat (sint height)]"

section \<open>Stores of numbered cells\<close>

text \<open>
  What the drawing routines rely on: a store of numbered cells in which a write changes one
  cell. A list of writes leaves in each cell the last value written to it.
\<close>

locale cell_store =
  fixes valid :: "'i \<Rightarrow> nat \<Rightarrow> bool"
    and cell :: "'i \<Rightarrow> 'm \<Rightarrow> nat \<Rightarrow> 'c"
    and put :: "'i \<Rightarrow> nat \<Rightarrow> 'c \<Rightarrow> 'm \<Rightarrow> 'm"
  assumes cell_put: "valid i k \<Longrightarrow> valid i j \<Longrightarrow> cell i (put i k c m) j = (if j = k then c else cell i m j)"
begin

lemma cell_puts:
  assumes "\<forall>(k, c) \<in> set w. valid i k" and "valid i j"
  shows "cell i (fold (\<lambda>(k, c). put i k c) w m) j =
    (case map_of (rev w) j of None \<Rightarrow> cell i m j | Some c \<Rightarrow> c)"
  using assms(1)
proof (induction w rule: rev_induct)
  case Nil
  then show ?case by simp
next
  case (snoc x w)
  then show ?case using assms(2) by (cases x) (auto simp: cell_put)
qed

lemma cell_puts_const:
  assumes "\<forall>k \<in> set ks. valid i k" and "valid i j"
  shows "cell i (fold (\<lambda>k. put i k c) ks m) j = (if j \<in> set ks then c else cell i m j)"
  using assms(1)
proof (induction ks rule: rev_induct)
  case Nil
  then show ?case by simp
next
  case (snoc k ks)
  then show ?case using assms(2) by (auto simp: cell_put)
qed

end

text \<open>
  The pixels of a mode with 32 bits per pixel: pixel \<open>k\<close> is the word \<open>4 * k\<close> bytes behind the
  start of the framebuffer. It is valid when the word lies in the 32-bit address space.
\<close>

definition px_valid :: "vbe_mode_info \<Rightarrow> nat \<Rightarrow> bool" where
  "px_valid info k \<longleftrightarrow> unat (vbe_framebuffer info) + 4 * k + 4 \<le> 2 ^ 32"

definition px_addr :: "vbe_mode_info \<Rightarrow> nat \<Rightarrow> u64" where
  "px_addr info k = of_nat (unat (vbe_framebuffer info) + 4 * k)"

definition px :: "vbe_mode_info \<Rightarrow> memory \<Rightarrow> nat \<Rightarrow> u32" where
  "px info m k = load32 m (px_addr info k)"

definition px_put :: "vbe_mode_info \<Rightarrow> nat \<Rightarrow> u32 \<Rightarrow> memory \<Rightarrow> memory" where
  "px_put info k c m = store32 m (px_addr info k) c"

lemma px_separate:
  "px_valid i k \<Longrightarrow> px_valid i j \<Longrightarrow> j \<noteq> k \<Longrightarrow> separate (px_addr i k) 4 (px_addr i j) 4"
proof -
  have *: "separate (px_addr i a) 4 (px_addr i b) 4" if "px_valid i b" "a < b" for a b
    using that unfolding px_addr_def px_valid_def by (intro separate_nat) auto
  assume "px_valid i k" "px_valid i j" "j \<noteq> k"
  then show ?thesis
    using *[of j k] *[of k j] by (cases "j < k") (auto simp: separate_sym)
qed

interpretation pixels: cell_store px_valid px px_put
  by unfold_locales
    (auto simp: px_def px_put_def acc32.ld_st_separate px_separate)

section \<open>Coordinates\<close>

text \<open>A 32-bit mode: four bytes a pixel, and rows of a whole number of pixels.\<close>

definition mode32 :: "vbe_mode_info \<Rightarrow> nat \<Rightarrow> bool" where
  "mode32 info stride \<longleftrightarrow> vbe_bpp info = 32 \<and> unat (vbe_pitch info) = 4 * stride"

lemma ucast_of_nat_u32: "n < 2 ^ 32 \<Longrightarrow> (ucast (of_nat n :: u32) :: u64) = of_nat n"
  by (rule word_unat_eq_iff [THEN iffD2])
    (simp add: unat_ucast_u32 unsigned_of_nat take_bit_nat_eq_self unat_of_nat_u64)

lemma pixel_address_px:
  assumes "mode32 info stride" and "px_valid info (Y * stride + X)"
  shows "pixel_address info (of_nat X) (of_nat Y) = px_addr info (Y * stride + X)"
proof -
  have p: "(ucast (vbe_pitch info) :: u32) = of_nat (4 * stride)"
  proof -
    have "unat (vbe_pitch info) = 4 * stride" using assms(1) by (simp add: mode32_def)
    then show ?thesis by (metis of_nat_unat)
  qed
  have b: "(ucast (vbe_bpp info) div 8 :: u32) = 4"
    using assms(1) by (simp add: mode32_def)
  have "of_nat Y * ucast (vbe_pitch info) + of_nat X * (ucast (vbe_bpp info) div 8) +
      vbe_framebuffer info = (of_nat (unat (vbe_framebuffer info) + 4 * (Y * stride + X)) :: u32)"
    unfolding p b by (simp add: algebra_simps)
  then show ?thesis
    using assms(2) unfolding pixel_address_def px_addr_def
    by (simp add: ucast_of_nat_u32 px_valid_def del: of_nat_add)
qed

lemma set_pixel_px:
  "mode32 info stride \<Longrightarrow> px_valid info (Y * stride + X) \<Longrightarrow>
     SET_PIXEL_COLOR info (of_nat X) (of_nat Y) c = px_put info (Y * stride + X) c"
  "mode32 info stride \<Longrightarrow> px_valid info (Y * stride + X) \<Longrightarrow>
     CLEAR_PIXEL info (of_nat X) (of_nat Y) = px_put info (Y * stride + X) 0"
  by (simp_all add: fun_eq_iff SET_PIXEL_COLOR_def CLEAR_PIXEL_def px_put_def pixel_address_px)

lemma px_valid_mono: "px_valid info k \<Longrightarrow> j \<le> k \<Longrightarrow> px_valid info j"
  by (simp add: px_valid_def)

text \<open>Two points with columns below the stride are the same pixel only if they are equal.\<close>

lemma px_index_inj:
  "a < s \<Longrightarrow> b < s \<Longrightarrow> y * s + a = z * s + b \<longleftrightarrow> y = z \<and> a = (b :: nat)"
proof
  assume "a < s" "b < s" "y * s + a = z * s + b"
  then have "(y * s + a) div s = (z * s + b) div s" "(y * s + a) mod s = (z * s + b) mod s" by simp_all
  with \<open>a < s\<close> \<open>b < s\<close> show "y = z \<and> a = b" by simp
qed simp

text \<open>A nest of two counted loops over pixel writes is a single list of writes.\<close>

lemma fold_concat_lists:
  "fold (\<lambda>j. fold f (xs j)) js m = fold f (concat (map xs js)) m"
  by (induction js arbitrary: m) simp_all

lemma sint_of_nat_s32: "n < 2 ^ 31 \<Longrightarrow> sint (of_nat n :: s32) = int n"
  by (simp add: signed_of_nat signed_take_bit_int_eq_self)

definition rectangle_pixels :: "nat \<Rightarrow> nat \<Rightarrow> nat \<Rightarrow> nat \<Rightarrow> nat \<Rightarrow> nat list" where
  "rectangle_pixels stride X Y w h =
     concat (map (\<lambda>i. map (\<lambda>j. (Y + i) * stride + (X + j)) [0..<w]) [0..<h])"

lemma set_rectangle_pixels:
  "set (rectangle_pixels stride X Y w h) =
     {(Y + i) * stride + (X + j) |i j. i < h \<and> j < w}"
  by (auto simp: rectangle_pixels_def) blast

lemma draw_rectangle_px:
  assumes "mode32 info stride" and "w < 2 ^ 31" and "h < 2 ^ 31"
    and "\<forall>k \<in> set (rectangle_pixels stride X Y w h). px_valid info k"
  shows "draw_rectangle info (of_nat X) (of_nat Y) (of_nat w) (of_nat h) m =
    fold (\<lambda>k. px_put info k 0x00FF00) (rectangle_pixels stride X Y w h) m"
proof -
  have row: "fold (\<lambda>j. SET_PIXEL_COLOR info (of_nat X + of_nat j) (of_nat Y + of_nat i) 0x00FF00) [0..<w] m =
      fold (\<lambda>k. px_put info k 0x00FF00) (map (\<lambda>j. (Y + i) * stride + (X + j)) [0..<w]) m"
    if "i < h" for i m
    unfolding fold_map comp_def
  proof (intro fold_cong refl)
    fix j assume "j \<in> set [0..<w]"
    with that assms(4) have "px_valid info ((Y + i) * stride + (X + j))"
      by (auto simp: set_rectangle_pixels)
    from set_pixel_px(1) [OF assms(1) this]
    show "SET_PIXEL_COLOR info (of_nat X + of_nat j) (of_nat Y + of_nat i) 0x00FF00 =
        px_put info ((Y + i) * stride + (X + j)) 0x00FF00"
      by simp
  qed
  have "fold (\<lambda>i. fold (\<lambda>j. SET_PIXEL_COLOR info (of_nat X + of_nat j) (of_nat Y + of_nat i) 0x00FF00) [0..<w]) [0..<h] m =
      fold (\<lambda>i. fold (\<lambda>k. px_put info k 0x00FF00) (map (\<lambda>j. (Y + i) * stride + (X + j)) [0..<w])) [0..<h] m"
    by (intro fold_cong refl) (simp add: row fun_eq_iff)
  also have "\<dots> = fold (\<lambda>k. px_put info k 0x00FF00) (rectangle_pixels stride X Y w h) m"
    unfolding rectangle_pixels_def by (rule fold_concat_lists)
  finally show ?thesis
    using assms(2,3) by (simp add: draw_rectangle_def sint_of_nat_s32)
qed

lemma draw_rectangle_cell:
  assumes "mode32 info stride" and "X + w \<le> stride" and "Y + h \<le> rows" and "a < stride" and "b < rows"
    and "px_valid info (rows * stride)" and "rows < 2 ^ 31" and "stride < 2 ^ 31"
  shows "px info (draw_rectangle info (of_nat X) (of_nat Y) (of_nat w) (of_nat h) m) (b * stride + a) =
    (if X \<le> a \<and> a < X + w \<and> Y \<le> b \<and> b < Y + h then 0x00FF00 else px info m (b * stride + a))"
proof -
  have le: "y * stride + x \<le> rows * stride" if "y < rows" "x < stride" for x y
    using that mult_le_mono1 [of "Suc y" rows stride] by simp
  have v: "px_valid info (y * stride + x)" if "y < rows" "x < stride" for x y
    by (rule px_valid_mono [OF assms(6) le [OF that]])
  have valid: "\<forall>k \<in> set (rectangle_pixels stride X Y w h). px_valid info k"
    using assms(2,3) by (auto simp: set_rectangle_pixels intro!: v)
  have "b * stride + a \<in> set (rectangle_pixels stride X Y w h) \<longleftrightarrow>
      (\<exists>i j. b = Y + i \<and> a = X + j \<and> i < h \<and> j < w)"
    using assms(2,4) px_index_inj [OF assms(4)] by (fastforce simp: set_rectangle_pixels)
  also have "\<dots> \<longleftrightarrow> X \<le> a \<and> a < X + w \<and> Y \<le> b \<and> b < Y + h"
    by (metis le_add1 le_add_diff_inverse add_less_cancel_left nat_add_left_cancel_less)
  finally show ?thesis
    using assms valid v [OF assms(5,4)]
    by (subst draw_rectangle_px) (auto simp: pixels.cell_puts_const)
qed

text \<open>Lemma draw_rectangle_paints. In a mode with 32 bits per pixel, drawing a rectangle that lies
  in the rows of the screen makes exactly its pixels green and leaves every other pixel of the
  screen as it was.\<close>
theorem draw_rectangle_paints:
  assumes "mode32 info stride" and "X + w \<le> stride" and "Y + h \<le> rows" and "a < stride" and "b < rows"
    and "px_valid info (rows * stride)" and "rows < 2 ^ 31" and "stride < 2 ^ 31"
  shows "px info (draw_rectangle info (of_nat X) (of_nat Y) (of_nat w) (of_nat h) m) (b * stride + a) =
    (if X \<le> a \<and> a < X + w \<and> Y \<le> b \<and> b < Y + h then 0x00FF00 else px info m (b * stride + a))"
  using assms by (rule draw_rectangle_cell)

definition sample_info :: vbe_mode_info where
  "sample_info = (init_vesa (\<lambda>_. 0) 0)\<lparr>vbe_pitch := 4096, vbe_width := 1024, vbe_height := 768,
     vbe_bpp := 32, vbe_framebuffer := 0xFD000000\<rparr>"

theorem draw_rectangle_paints_witness:
  "px sample_info (draw_rectangle sample_info 150 100 100 100 (\<lambda>_. 0)) (120 * 1024 + 200) = 0x00FF00"
  using draw_rectangle_paints [of sample_info 1024 150 100 100 100 768 200 120 "\<lambda>_. 0"]
  by (simp add: mode32_def px_valid_def sample_info_def)

end
