(* ===== verification/Vga.thy ===== *)
theory Vga
  imports Vesa
begin

text \<open>
  The VGA text console, \<open>kernel/utils/vga.c\<close>: a cursor and the text buffer at \<open>0xB8000\<close>, two
  bytes a character, 160 bytes a line, 25 lines. The cursor column \<open>x\<close> counts bytes.
\<close>

section \<open>State and operations\<close>

record vga =
  vga_x :: u32
  vga_y :: u32
  vga_color :: u8
  vga_buffer :: u64
  vga_mem :: memory

definition VGA_WIDTH :: u32 where "VGA_WIDTH = 160"
definition VGA_HEIGHT :: u32 where "VGA_HEIGHT = 25"

definition init_vga :: "vga \<Rightarrow> vga" where
  "init_vga v = v\<lparr>vga_x := 0, vga_y := 0, vga_color := 0xA, vga_buffer := 0xB8000\<rparr>"

definition newline :: "vga \<Rightarrow> vga" where
  "newline v =
     (let v = (if vga_y v = 25 then v\<lparr>vga_y := 0, vga_x := 0\<rparr> else v);
          v = v\<lparr>vga_x := 0\<rparr>
      in v\<lparr>vga_y := vga_y v + 1\<rparr>)"

text \<open>\<open>position.buffer+position.x+position.y*VGA_WIDTH\<close>: the product is a 32-bit one.\<close>

definition vga_address :: "vga \<Rightarrow> u64" where
  "vga_address v = vga_buffer v + ucast (vga_x v) + ucast (vga_y v * VGA_WIDTH)"

definition write_char :: "u8 \<Rightarrow> vga \<Rightarrow> vga" where
  "write_char c v =
     (let v = (if vga_x v = 80
               then let v = v\<lparr>vga_x := 0\<rparr> in (if vga_y v \<noteq> 25 then v\<lparr>vga_y := vga_y v + 1\<rparr> else v)
               else v\<lparr>vga_x := vga_x v + 2\<rparr>);
          v = v\<lparr>vga_mem := (vga_mem v)(vga_address v := c)\<rparr>
      in v\<lparr>vga_mem := (vga_mem v)(vga_address v + 1 := vga_color v)\<rparr>)"

text \<open>The two loops that move the lines up, one byte after the other.\<close>

definition scroll_byte :: "u64 \<Rightarrow> nat \<Rightarrow> nat \<Rightarrow> memory \<Rightarrow> memory" where
  "scroll_byte buffer y x m =
     m(buffer + of_nat (x + (y - 1) * 160) := m (buffer + of_nat (x + y * 160)))"

definition scroll_lines :: "u64 \<Rightarrow> memory \<Rightarrow> memory" where
  "scroll_lines buffer = fold (\<lambda>y. fold (scroll_byte buffer y) [0..<160]) [1..<25]"

primrec write_loop :: "reader \<Rightarrow> nat \<Rightarrow> nat \<Rightarrow> vga \<Rightarrow> vga" where
  "write_loop message i 0 v = v"
| "write_loop message i (Suc k) v = write_loop message (Suc i) k (write_char (message i) v)"

definition write_message :: "reader \<Rightarrow> u32 \<Rightarrow> u32 \<Rightarrow> vga \<Rightarrow> vga" where
  "write_message message len line v =
     (let v = (if vga_y v = 25 then v\<lparr>vga_mem := scroll_lines (vga_buffer v) (vga_mem v)\<rparr> else v);
          v = write_loop message 0 (unat len) v;
          v = v\<lparr>vga_x := 0\<rparr>
      in v\<lparr>vga_y := vga_y v + 1\<rparr>)"

text \<open>The conversion is commented out: the buffer is 50 zero bytes.\<close>

definition write_hex :: "u64 \<Rightarrow> vga \<Rightarrow> vga option" where
  "write_hex hex v =
     (let buffer = bytes_of (replicate 50 0)
      in map_option (\<lambda>len. write_message buffer (ucast len) 0 v) (strlen_declared buffer))"

section \<open>Where characters go\<close>

text \<open>
  The cell of the \<open>p\<close>th step from the start of line \<open>Y\<close>: 41 cells a line, because the column
  wraps at byte 80.
\<close>

definition vga_offset :: "nat \<Rightarrow> nat \<Rightarrow> nat" where
  "vga_offset Y p = 160 * (Y + p div 41) + 2 * (p mod 41)"

definition vga_cell :: "nat \<Rightarrow> nat \<Rightarrow> u64" where
  "vga_cell Y p = 0xB8000 + of_nat (vga_offset Y p)"

lemma vga_offset_inj:
  assumes "e < 2" "e' < 2"
  shows "vga_offset Y p + e = vga_offset Y q + e' \<longleftrightarrow> p = q \<and> e = e'"
proof
  assume a: "vga_offset Y p + e = vga_offset Y q + e'"
  have m: "2 * (p mod 41) + e < 160" "2 * (q mod 41) + e' < 160"
    using assms mod_less_divisor [of 41 p] mod_less_divisor [of 41 q] by simp_all
  from a have "(Y + p div 41) * 160 + (2 * (p mod 41) + e) = (Y + q div 41) * 160 + (2 * (q mod 41) + e')"
    by (simp add: vga_offset_def)
  with px_index_inj [OF m] have "Y + p div 41 = Y + q div 41" "2 * (p mod 41) + e = 2 * (q mod 41) + e'"
    by blast+
  moreover from this(2) have "p mod 41 = q mod 41 \<and> e = e'"
    using px_index_inj [OF assms, of "p mod 41" "q mod 41"] by (simp add: mult.commute)
  ultimately have "p div 41 * 41 + p mod 41 = q div 41 * 41 + q mod 41" and e: "e = e'"
    by simp_all
  then show "p = q \<and> e = e'" unfolding div_mult_mod_eq by simp
qed simp

lemma vga_offset_less: "Y + p div 41 \<le> L \<Longrightarrow> vga_offset Y p < 160 * L + 82"
proof -
  assume "Y + p div 41 \<le> L"
  then have "160 * (Y + p div 41) \<le> 160 * L" by simp
  moreover have "2 * (p mod 41) < 82" using mod_less_divisor [of 41 p] by simp
  ultimately show ?thesis unfolding vga_offset_def by (rule add_le_less_mono)
qed

lemma of_nat_u64_eq: "a < 2 ^ 64 \<Longrightarrow> b < 2 ^ 64 \<Longrightarrow> (of_nat a :: u64) = of_nat b \<longleftrightarrow> a = b"
  by (metis unat_of_nat_u64)

lemma vga_cell_inj:
  assumes "Y + p div 41 \<le> 25" "Y + q div 41 \<le> 25" "e < 2" "e' < 2"
  shows "vga_cell Y p + of_nat e = vga_cell Y q + of_nat e' \<longleftrightarrow> p = q \<and> e = e'"
proof -
  have "vga_cell Y p + of_nat e = vga_cell Y q + of_nat e' \<longleftrightarrow>
      (of_nat (vga_offset Y p + e) :: u64) = of_nat (vga_offset Y q + e')"
    by (simp add: vga_cell_def add.assoc)
  also have "\<dots> \<longleftrightarrow> vga_offset Y p + e = vga_offset Y q + e'"
    using vga_offset_less [OF assms(1)] vga_offset_less [OF assms(2)] assms(3,4)
    by (intro of_nat_u64_eq) simp_all
  finally show ?thesis using vga_offset_inj [OF assms(3,4)] by simp
qed

text \<open>The state of the cursor after \<open>p\<close> steps from the start of line \<open>Y\<close>.\<close>

definition vga_at :: "nat \<Rightarrow> nat \<Rightarrow> vga \<Rightarrow> bool" where
  "vga_at Y p v \<longleftrightarrow> vga_buffer v = 0xB8000 \<and> vga_x v = of_nat (2 * (p mod 41)) \<and>
     vga_y v = of_nat (Y + p div 41)"

lemma unat_of_nat_small: "n < 2 ^ 32 \<Longrightarrow> unat (of_nat n :: u32) = n"
  by (simp add: unsigned_of_nat take_bit_nat_eq_self)

lemma vga_address_cell:
  assumes "vga_at Y p v" and "Y + p div 41 \<le> 25"
  shows "vga_address v = vga_cell Y p"
proof -
  have "(ucast (of_nat (2 * (p mod 41)) :: u32) :: u64) = of_nat (2 * (p mod 41))"
    by (intro ucast_of_nat_u32) (simp add: less_trans [OF mod_less_divisor])
  moreover have "(of_nat (Y + p div 41) * VGA_WIDTH :: u32) = of_nat (160 * (Y + p div 41))"
    by (simp add: VGA_WIDTH_def)
  moreover have "(ucast (of_nat (160 * (Y + p div 41)) :: u32) :: u64) = of_nat (160 * (Y + p div 41))"
    using assms(2) by (intro ucast_of_nat_u32) simp
  ultimately show ?thesis
    using assms(1) by (simp only: vga_address_def vga_at_def vga_cell_def vga_offset_def) simp
qed

lemma step_div_mod:
  "Suc p mod 41 = (if p mod 41 = 40 then 0 else Suc (p mod 41))"
  "Suc p div 41 = (if p mod 41 = 40 then Suc (p div 41) else p div 41)"
  by (simp_all add: mod_Suc div_Suc)

lemma write_char_step:
  assumes "vga_at Y p v" and "Y + Suc p div 41 \<le> 25"
  shows "vga_at Y (Suc p) (write_char c v) \<and> vga_color (write_char c v) = vga_color v \<and>
    vga_mem (write_char c v) = (vga_mem v)(vga_cell Y (Suc p) := c, vga_cell Y (Suc p) + 1 := vga_color v)"
proof -
  let ?v = "if vga_x v = 80
      then let v = v\<lparr>vga_x := 0\<rparr> in (if vga_y v \<noteq> 25 then v\<lparr>vga_y := vga_y v + 1\<rparr> else v)
      else v\<lparr>vga_x := vga_x v + 2\<rparr>"
  have "unat (of_nat (2 * (p mod 41)) :: u32) = 2 * (p mod 41)"
    by (intro unat_of_nat_small) (simp add: less_trans [OF mod_less_divisor])
  then have x: "vga_x v = 80 \<longleftrightarrow> p mod 41 = 40"
    using assms(1) unfolding vga_at_def by (auto simp: word_unat_eq_iff)
  have "Y + p div 41 \<le> 25" using assms(2) div_le_mono [of p "Suc p" 41] by simp
  then have "unat (of_nat (Y + p div 41) :: u32) = Y + p div 41"
    by (intro unat_of_nat_small) simp
  then have y: "vga_y v \<noteq> 25" if "p mod 41 = 40"
    using assms that unfolding vga_at_def step_div_mod by (auto simp: word_unat_eq_iff)
  have at: "vga_at Y (Suc p) ?v"
    using assms(1) x y unfolding vga_at_def step_div_mod by (auto simp: Let_def)
  then have a: "vga_address ?v = vga_cell Y (Suc p)" using assms(2) by (rule vga_address_cell)
  have upd: "vga_address (w\<lparr>vga_mem := m\<rparr>) = vga_address w" for w m by (simp add: vga_address_def)
  have "vga_color ?v = vga_color v" "vga_mem ?v = vga_mem v" by (simp_all add: Let_def)
  moreover have "write_char c v = ?v\<lparr>vga_mem := (vga_mem ?v)(vga_cell Y (Suc p) := c,
      vga_cell Y (Suc p) + 1 := vga_color ?v)\<rparr>"
    unfolding write_char_def Let_def upd using a [unfolded Let_def] by (simp only: upd) simp
  ultimately show ?thesis using at by (simp add: vga_at_def)
qed

lemma write_loop_cells:
  assumes "vga_at Y p v" and "Y + (p + k) div 41 \<le> 25"
  shows "vga_at Y (p + k) (write_loop msg i k v) \<and> vga_color (write_loop msg i k v) = vga_color v \<and>
    (\<forall>j<k. vga_mem (write_loop msg i k v) (vga_cell Y (p + j + 1)) = msg (i + j) \<and>
       vga_mem (write_loop msg i k v) (vga_cell Y (p + j + 1) + 1) = vga_color v) \<and>
    (\<forall>a. (\<forall>j<k. a \<noteq> vga_cell Y (p + j + 1) \<and> a \<noteq> vga_cell Y (p + j + 1) + 1) \<longrightarrow>
       vga_mem (write_loop msg i k v) a = vga_mem v a)"
  using assms
proof (induction k arbitrary: p i v)
  case 0
  then show ?case by simp
next
  case (Suc k)
  have mono: "Y + q div 41 \<le> 25" if "q \<le> p + Suc k" for q
    using div_le_mono [OF that, of 41] Suc.prems(2) by simp
  let ?v = "write_char (msg i) v"
  have step: "vga_at Y (Suc p) ?v" "vga_color ?v = vga_color v"
    "vga_mem ?v = (vga_mem v)(vga_cell Y (Suc p) := msg i, vga_cell Y (Suc p) + 1 := vga_color v)"
    using write_char_step [OF Suc.prems(1), of "msg i"] mono [of "Suc p"] by simp_all
  have "Y + (Suc p + k) div 41 \<le> 25" using Suc.prems(2) by simp
  note IH = Suc.IH [OF step(1) this, of "Suc i"]
  let ?w = "write_loop msg (Suc i) k ?v"
  have fresh: "vga_cell Y (Suc p) + of_nat e \<noteq> vga_cell Y (Suc p + j + 1) + of_nat e'"
    if "j < k" "e < 2" "e' < 2" for j e e'
    using vga_cell_inj [of Y "Suc p" "Suc p + j + 1" e e'] mono [of "Suc p"] mono [of "Suc p + j + 1"] that
    by simp
  have keep: "vga_mem ?w (vga_cell Y (Suc p) + of_nat e) = vga_mem ?v (vga_cell Y (Suc p) + of_nat e)"
    if "e < 2" for e
    using IH fresh [where e = e, OF _ that] fresh [where e = e and e' = 0, OF _ that]
      fresh [where e = e and e' = 1, OF _ that] by (simp del: add_Suc)
  have ne: "vga_cell Y (Suc p) \<noteq> vga_cell Y (Suc p) + 1" by simp
  have first: "vga_mem ?w (vga_cell Y (p + 0 + 1)) = msg (i + 0)"
    "vga_mem ?w (vga_cell Y (p + 0 + 1) + 1) = vga_color v"
    using keep [of 0] keep [of 1] step(3) ne by auto
  have rest: "vga_mem ?w (vga_cell Y (p + Suc j + 1)) = msg (i + Suc j) \<and>
      vga_mem ?w (vga_cell Y (p + Suc j + 1) + 1) = vga_color v" if "j < k" for j
    using IH that step(2) by simp
  have frame: "vga_mem ?w a = vga_mem v a"
    if "\<forall>j<Suc k. a \<noteq> vga_cell Y (p + j + 1) \<and> a \<noteq> vga_cell Y (p + j + 1) + 1" for a
  proof -
    have "\<forall>j<k. a \<noteq> vga_cell Y (Suc p + j + 1) \<and> a \<noteq> vga_cell Y (Suc p + j + 1) + 1"
      using that by (metis Suc_less_eq add_Suc add_Suc_right)
    then have "vga_mem ?w a = vga_mem ?v a" using IH by blast
    also have "a \<noteq> vga_cell Y (Suc p) \<and> a \<noteq> vga_cell Y (Suc p) + 1"
      using that [rule_format, of 0] by simp
    then have "vga_mem ?v a = vga_mem v a" using step(3) by simp
    finally show ?thesis .
  qed
  have "vga_at Y (p + Suc k) ?w" "vga_color ?w = vga_color v" using IH step(2) by simp_all
  moreover have "\<forall>j<Suc k. vga_mem ?w (vga_cell Y (p + j + 1)) = msg (i + j) \<and>
       vga_mem ?w (vga_cell Y (p + j + 1) + 1) = vga_color v"
    using first rest by (auto simp: less_Suc_eq_0_disj)
  ultimately show ?case using frame by simp
qed

text \<open>C34 write_message_cells. A message written from the start of a line goes, 41 characters to a
  line of 80, into the cells from the second one of the line on, each with the colour behind
  it; no other byte changes, and the cursor moves to the start of the next line.\<close>
theorem write_message_cells:
  assumes "vga_x v = 0" and "vga_buffer v = 0xB8000" and "vga_y v = of_nat Y"
    and "Y + unat len div 41 < 25"
  shows "vga_x (write_message msg len line v) = 0 \<and>
    vga_y (write_message msg len line v) = of_nat (Y + unat len div 41 + 1) \<and>
    (\<forall>j<unat len. vga_mem (write_message msg len line v) (vga_cell Y (j + 1)) = msg j \<and>
       vga_mem (write_message msg len line v) (vga_cell Y (j + 1) + 1) = vga_color v) \<and>
    (\<forall>a. (\<forall>j<unat len. a \<noteq> vga_cell Y (j + 1) \<and> a \<noteq> vga_cell Y (j + 1) + 1) \<longrightarrow>
       vga_mem (write_message msg len line v) a = vga_mem v a)"
proof -
  have at: "vga_at Y 0 v" using assms by (simp add: vga_at_def)
  have "Y + (0 + unat len) div 41 \<le> 25" using assms(4) by simp
  note cells = write_loop_cells [OF at this, of msg 0]
  have "unat (of_nat Y :: u32) = Y" using assms(4) by (intro unat_of_nat_small) simp
  then have "vga_y v \<noteq> 25" using assms(3,4) by (auto simp: word_unat_eq_iff)
  then have "write_message msg len line v = (let w = write_loop msg 0 (unat len) v in
      w\<lparr>vga_x := 0, vga_y := vga_y w + 1\<rparr>)"
    by (simp add: write_message_def Let_def)
  then show ?thesis using cells by (simp add: Let_def vga_at_def)
qed

theorem write_message_cells_witness:
  "vga_mem (write_message (bytes_of (chars ''OK'')) 2 0 \<lparr>vga_x = 0, vga_y = 3, vga_color = 0xA,
     vga_buffer = 0xB8000, vga_mem = \<lambda>_. 0\<rparr>) 0xB81E4 = of_char CHR ''K''"
proof -
  let ?v = "\<lparr>vga_x = 0, vga_y = 3, vga_color = 0xA, vga_buffer = 0xB8000, vga_mem = \<lambda>_. 0\<rparr>"
  have "3 + unat (2 :: u32) div 41 < 25" by simp
  from write_message_cells [of ?v 3 2 "bytes_of (chars ''OK'')" 0, OF _ _ _ this]
  have "\<forall>j<unat (2 :: u32). vga_mem (write_message (bytes_of (chars ''OK'')) 2 0 ?v) (vga_cell 3 (j + 1)) =
      bytes_of (chars ''OK'') j" by simp
  from this [rule_format, of 1] show ?thesis
    by (simp add: bytes_of_def chars_def vga_cell_def vga_offset_def)
qed

section \<open>The last line\<close>

lemma concat_lines:
  "concat (map (\<lambda>y. map (\<lambda>x. x + y * 160) [0..<160]) [1..<Suc n]) = [160..<160 * Suc n]"
proof (induction n)
  case 0
  then show ?case by simp
next
  case (Suc n)
  have "map (\<lambda>x. x + Suc n * 160) [0..<160] = [160 * Suc n..<160 * Suc (Suc n)]"
    by (rule nth_equalityI) (simp_all add: add.commute del: upt_Suc)
  moreover have "[160..<160 * Suc n + 160] = [160..<160 * Suc n] @ [160 * Suc n..<160 * Suc n + 160]"
    by (rule upt_add_eq_append) simp
  moreover have "[1..<Suc (Suc n)] = [1..<Suc n] @ [Suc n]" by simp
  ultimately show ?case using Suc by (simp del: upt_Suc add: add.commute)
qed

definition move_up :: "u64 \<Rightarrow> nat \<Rightarrow> memory \<Rightarrow> memory" where
  "move_up b k m = m(b + of_nat (k - 160) := m (b + of_nat k))"

lemma scroll_lines_fold: "scroll_lines b m = fold (move_up b) [160..<4000] m"
proof -
  have "fold (scroll_byte b y) [0..<160] m = fold (move_up b) (map (\<lambda>x. x + y * 160) [0..<160]) m"
    if "1 \<le> y" for y m
    unfolding fold_map comp_def
  proof (rule fold_cong [OF refl refl])
    fix x
    have "x + (y - 1) * 160 = x + y * 160 - 160" using that by (cases y) simp_all
    then show "scroll_byte b y x = move_up b (x + y * 160)"
      by (simp add: fun_eq_iff scroll_byte_def move_up_def)
  qed
  then have "scroll_lines b m =
      fold (\<lambda>y. fold (move_up b) (map (\<lambda>x. x + y * 160) [0..<160])) [1..<25] m"
    unfolding scroll_lines_def by (intro fold_cong [OF refl refl] ext) simp
  also have "\<dots> = fold (move_up b) (concat (map (\<lambda>y. map (\<lambda>x. x + y * 160) [0..<160]) [1..<Suc 24])) m"
    by (simp only: fold_concat_lists) simp
  finally show ?thesis unfolding concat_lines by simp
qed

lemma offset_eq: "k < 2 ^ 64 \<Longrightarrow> j < 2 ^ 64 \<Longrightarrow> b + of_nat k = b + (of_nat j :: u64) \<longleftrightarrow> k = j"
  by (simp add: of_nat_u64_eq)

lemma move_up_prefix:
  "160 \<le> n \<Longrightarrow> n \<le> 4000 \<Longrightarrow> k < 4000 \<Longrightarrow>
     fold (move_up b) [160..<n] m (b + of_nat k) =
       m (b + of_nat (if k < n - 160 then k + 160 else k))"
proof (induction n arbitrary: k rule: nat_induct_at_least)
  case base
  then show ?case by simp
next
  case (Suc n)
  let ?m = "fold (move_up b) [160..<n] m"
  have "fold (move_up b) [160..<Suc n] m = ?m(b + of_nat (n - 160) := ?m (b + of_nat n))"
    using Suc.hyps by (simp add: move_up_def)
  moreover have "b + of_nat k = b + (of_nat (n - 160) :: u64) \<longleftrightarrow> k = n - 160"
    using Suc by (intro offset_eq) simp_all
  ultimately show ?case using Suc by auto
qed

lemma scroll_lines_byte:
  "k < 4000 \<Longrightarrow> scroll_lines b m (b + of_nat k) = m (b + of_nat (if k < 3840 then k + 160 else k))"
  unfolding scroll_lines_fold by (subst move_up_prefix) simp_all

text \<open>Lemma write_message_off_screen. With the cursor on line 25, behind the last line, a message of
  at most 40 characters scrolls the 25 lines up by one, keeps the last line doubled, and is
  itself written behind the screen's 4000 bytes; the cursor moves on to line 26, so that no
  later message scrolls or appears.\<close>
theorem write_message_off_screen:
  assumes "vga_x v = 0" and "vga_buffer v = 0xB8000" and "vga_y v = 25" and "unat len \<le> 40"
  shows "vga_y (write_message msg len line v) = 26 \<and>
    (\<forall>k<4000. vga_mem (write_message msg len line v) (0xB8000 + of_nat k) =
       vga_mem v (0xB8000 + of_nat (if k < 3840 then k + 160 else k)))"
proof -
  let ?s = "v\<lparr>vga_mem := scroll_lines (vga_buffer v) (vga_mem v)\<rparr>"
  have at: "vga_at 25 0 ?s" using assms by (simp add: vga_at_def)
  have d: "(0 + unat len) div 41 = 0" using assms(4) by simp
  then have "25 + (0 + unat len) div 41 \<le> 25" by simp
  note cells = write_loop_cells [OF at this, of msg 0]
  let ?w = "write_loop msg 0 (unat len) ?s"
  have w: "write_message msg len line v = ?w\<lparr>vga_x := 0, vga_y := vga_y ?w + 1\<rparr>"
    using assms(3) by (simp add: write_message_def Let_def)
  have "vga_mem ?w (0xB8000 + of_nat k) = vga_mem ?s (0xB8000 + of_nat k)" if k: "k < 4000" for k
  proof -
    have "0xB8000 + of_nat k \<noteq> vga_cell 25 (0 + j + 1) + of_nat e" if "j < unat len" "e < 2" for j e
    proof -
      have "(j + 1) div 41 = 0" using that(1) assms(4) by simp
      then have "4000 \<le> vga_offset 25 (j + 1) + e" "vga_offset 25 (j + 1) + e < 2 ^ 64"
        using vga_offset_less [of 25 "j + 1" 25] that(2) by (simp_all add: vga_offset_def)
      then have "of_nat k \<noteq> (of_nat (vga_offset 25 (j + 1) + e) :: u64)"
        using k by (subst of_nat_u64_eq) simp_all
      then show ?thesis by (simp add: vga_cell_def add.assoc)
    qed
    from this [of _ 0] this [of _ 1] show ?thesis using cells by simp
  qed
  moreover have "vga_y ?w = 25" using cells d by (simp add: vga_at_def)
  ultimately show ?thesis
    using assms(2) unfolding w by (simp add: scroll_lines_byte)
qed

theorem write_message_off_screen_witness:
  "vga_mem (write_message (bytes_of (chars ''OK'')) 2 0 \<lparr>vga_x = 0, vga_y = 25, vga_color = 0xA,
     vga_buffer = 0xB8000, vga_mem = (\<lambda>a. if a = 0xB80A0 then 7 else 0)\<rparr>) 0xB8000 = 7"
proof -
  let ?v = "\<lparr>vga_x = 0, vga_y = 25, vga_color = 0xA, vga_buffer = 0xB8000,
    vga_mem = (\<lambda>a. if a = 0xB80A0 then 7 else 0)\<rparr>"
  have "\<forall>k<4000. vga_mem (write_message (bytes_of (chars ''OK'')) 2 0 ?v) (0xB8000 + of_nat k) =
      vga_mem ?v (0xB8000 + of_nat (if k < 3840 then k + 160 else k))"
    using write_message_off_screen [of ?v 2 "bytes_of (chars ''OK'')" 0] by simp
  from this [rule_format, of 0] show ?thesis by simp
qed

end
