(* ===== verification/Terminal.thy ===== *)
theory Terminal
  imports Vesa
begin

text \<open>
  The text terminal, \<open>kernel/utils/text_terminal.c\<close>: a buffer of rows with a cursor, the
  glyphs of a PSF font, and the screen the characters are drawn on. The buffer rows are
  arrays of the kernel image and are kept as lists; an index outside them is the fault
  \<open>Out_Of_Bounds\<close>. The screen is byte memory. The lock the file declares is never taken;
  \<open>interrupts\<close> is the processor's interrupt flag, which scrolling clears and then sets.
\<close>

section \<open>State\<close>

record text_terminal =
  cursor_x :: u32
  cursor_y :: u32
  term_color :: u32
  term_height :: u32
  term_width :: u32

record terminal_row =
  characters :: "u8 list"
  row_length :: u32

record psf2 =
  psf_magic :: u32
  psf_version :: u32
  psf_headersize :: u32
  psf_flags :: u32
  psf_numglyphs :: u32
  psf_bytesperglyph :: u32
  psf_height :: u32
  psf_width :: u32

record console =
  glyphs :: "u8 list list"
  psf_header :: psf2
  terminal :: text_terminal
  rows :: "terminal_row list"
  vesa_info :: vbe_mode_info
  screen :: memory
  interrupts :: bool

section \<open>Numbers\<close>

text \<open>
  \<open>itoa\<close> collects the digits in a 21-byte array from the lowest up, then copies them out in
  reverse. The result is the bytes written through \<open>sp\<close>; the C function returns their
  number and writes no terminating zero.
\<close>

definition digit_char :: "u64 \<Rightarrow> u8" where
  "digit_char i = (if i < 10 then ucast i + 48 else ucast i + 97 - 10)"

function itoa_loop :: "u64 \<Rightarrow> u64 \<Rightarrow> u8 list \<Rightarrow> u8 list res" where
  "itoa_loop v radix tmp =
     (if 21 \<le> length tmp then Inl Out_Of_Bounds
      else
        let i = v mod radix; v = v div radix; tmp = tmp @ [digit_char i]
        in if v \<noteq> 0 then itoa_loop v radix tmp else Inr tmp)"
  by pat_completeness auto
termination
  by (relation "measure (\<lambda>(v, radix, tmp). 21 - length tmp)") auto

declare itoa_loop.simps [simp del]

definition itoa :: "u64 \<Rightarrow> s32 \<Rightarrow> u8 list res" where
  "itoa value radix =
     (if sint radix < 2 \<or> sint radix > 36 then Inr []
      else seq (itoa_loop value (int_to_u64 radix) []) (\<lambda>tmp. Inr (rev tmp)))"

section \<open>Glyphs\<close>

definition draw_pixel :: "console \<Rightarrow> u32 \<Rightarrow> u32 \<Rightarrow> memory \<Rightarrow> memory" where
  "draw_pixel t x y = SET_PIXEL_COLOR (vesa_info t) x y (term_color (terminal t))"

definition render_glyph :: "u8 list \<Rightarrow> u32 \<Rightarrow> u32 \<Rightarrow> console \<Rightarrow> console" where
  "render_glyph glyph x y t =
     t\<lparr>screen :=
       fold (\<lambda>row. fold (\<lambda>col m.
           if (ucast (glyph ! row) :: s32) AND push_bit (7 - col) 1 \<noteq> 0
           then draw_pixel t (x + of_nat col) (y + of_nat row) m else m) [0..<8])
         [0..<16] (screen t)\<rparr>"

text \<open>Both loops run to their bound inclusively.\<close>

definition clear_glyph :: "u32 \<Rightarrow> u32 \<Rightarrow> console \<Rightarrow> console" where
  "clear_glyph x y t =
     t\<lparr>screen :=
       fold (\<lambda>row. fold (\<lambda>col. CLEAR_PIXEL (vesa_info t) (x + of_nat col) (y + of_nat row)) [0..<9])
         [0..<17] (screen t)\<rparr>"

text \<open>
  \<open>char\<close> is signed: the byte \<open>0xC3\<close> is the case \<open>-61\<close>, every other byte with its top bit set is
  a negative index into \<open>glyphs\<close>.
\<close>

definition print_char :: "u8 \<Rightarrow> u32 \<Rightarrow> u32 \<Rightarrow> console \<Rightarrow> console res" where
  "print_char c x y t =
     (let px = x * psf_width (psf_header t); py = y * psf_height (psf_header t) in
      if sint c = -61 then Inr (render_glyph (glyphs t ! 228) px py t)
      else if sint c < 0 then Inl Out_Of_Bounds
      else Inr (render_glyph (glyphs t ! unat c) px py t))"

section \<open>Scrolling\<close>

definition set_row :: "nat \<Rightarrow> terminal_row \<Rightarrow> console \<Rightarrow> console" where
  "set_row y r t = t\<lparr>rows := (rows t)[y := r]\<rparr>"

text \<open>\<open>memset\<close> and \<open>memmove\<close> on the arrays of two rows, the bytes they do not touch kept.\<close>

definition shift_row :: "terminal_row \<Rightarrow> terminal_row \<Rightarrow> terminal_row res" where
  "shift_row row below =
     (let n = unat (row_length row); k = unat (row_length below) in
      if length (characters row) < n \<or> length (characters row) < k then Inl Out_Of_Bounds
      else
        let cs = replicate n 0 @ drop n (characters row);
            cs = take k (characters below) @ drop k cs
        in Inr \<lparr>characters = cs, row_length = row_length below\<rparr>)"

text \<open>The characters of the new row \<open>y\<close> from column \<open>b\<close> on, of which \<open>k\<close> are left.\<close>

primrec redraw_row :: "nat \<Rightarrow> nat \<Rightarrow> nat \<Rightarrow> console \<Rightarrow> console res" where
  "redraw_row y b 0 t = Inr t"
| "redraw_row y b (Suc k) t =
     (let cs = characters (rows t ! y) in
      if length cs \<le> b then Inl Out_Of_Bounds
      else
        seq (if cs ! b \<noteq> 0xA then print_char (cs ! b) (of_nat b) (of_nat y) t else Inr t)
          (redraw_row y (Suc b) k))"

definition scroll_row :: "nat \<Rightarrow> console \<Rightarrow> console res" where
  "scroll_row y t =
     (if length (rows t) \<le> y then Inl Out_Of_Bounds
      else
        let t = fold (\<lambda>x. clear_glyph (of_nat x * psf_width (psf_header t))
                                      (of_nat y * psf_height (psf_header t)))
                  [0..<unat (row_length (rows t ! y))] t
        in if length (rows t) \<le> y + 1 then Inl Out_Of_Bounds
           else seq (shift_row (rows t ! y) (rows t ! (y + 1)))
                (\<lambda>r. redraw_row y 0 (unat (row_length r)) (set_row y r t)))"

text \<open>The loop over the rows of the terminal, of which \<open>k\<close> are left.\<close>

primrec scroll_loop :: "nat \<Rightarrow> nat \<Rightarrow> console \<Rightarrow> console res" where
  "scroll_loop y 0 t = Inr t"
| "scroll_loop y (Suc k) t = seq (scroll_row y t) (scroll_loop (Suc y) k)"

definition scroll :: "console \<Rightarrow> console res" where
  "scroll t =
     seq (scroll_loop 0 (unat (term_height (terminal t))) (t\<lparr>interrupts := False\<rparr>)) (\<lambda>t.
       Inr (t\<lparr>interrupts := True\<rparr>))"

section \<open>Printing\<close>

definition move_cursor :: "u32 \<Rightarrow> u32 \<Rightarrow> console \<Rightarrow> console" where
  "move_cursor x y t = t\<lparr>terminal := (terminal t)\<lparr>cursor_x := x, cursor_y := y\<rparr>\<rparr>"

text \<open>The block \<open>printcount\<close> has twice: on to the next row, scrolling on the last one.\<close>

definition next_row :: "console \<Rightarrow> console res" where
  "next_row t =
     (let cy = cursor_y (terminal t) in
      seq (if cy + 1 = term_height (terminal t) then scroll t
           else Inr (move_cursor (cursor_x (terminal t)) (cy + 1) t))
        (\<lambda>t. Inr (move_cursor 0 (cursor_y (terminal t)) t)))"

definition store_char :: "u8 \<Rightarrow> console \<Rightarrow> console res" where
  "store_char c t =
     (let x = unat (cursor_x (terminal t)); y = unat (cursor_y (terminal t)) in
      if length (rows t) \<le> y \<or> length (characters (rows t ! y)) \<le> x then Inl Out_Of_Bounds
      else
        let r = rows t ! y;
            t = set_row y (r\<lparr>characters := (characters r)[x := c], row_length := row_length r + 1\<rparr>) t
        in Inr (move_cursor (cursor_x (terminal t) + 1) (cursor_y (terminal t)) t))"

definition put_char :: "u8 \<Rightarrow> console \<Rightarrow> console res" where
  "put_char c t =
     (if c = 0xA then next_row t
      else
        seq (if cursor_x (terminal t) = term_width (terminal t) then next_row t else Inr t) (\<lambda>t.
        seq (print_char c (cursor_x (terminal t)) (cursor_y (terminal t)) t) (\<lambda>t.
          store_char c t)))"

text \<open>The loop over the first \<open>len\<close> characters, of which \<open>k\<close> are left.\<close>

primrec printcount_loop :: "reader \<Rightarrow> nat \<Rightarrow> nat \<Rightarrow> console \<Rightarrow> console res" where
  "printcount_loop str i 0 t = Inr t"
| "printcount_loop str i (Suc k) t = seq (put_char (str i) t) (printcount_loop str (Suc i) k)"

definition printcount :: "reader \<Rightarrow> s32 \<Rightarrow> console \<Rightarrow> console res" where
  "printcount str len t = printcount_loop str 0 (nat (sint len)) t"

text \<open>\<open>None\<close>: the scan for the terminating zero never ends.\<close>

definition print :: "reader \<Rightarrow> console \<Rightarrow> console res option" where
  "print str t = map_option (\<lambda>len. printcount str (ucast len) t) (strlen_declared str)"

definition print_int :: "u64 \<Rightarrow> console \<Rightarrow> console res option" where
  "print_int n t =
     oseq (Some (itoa n 10)) (\<lambda>buffer.
     oseq (Some (printcount (bytes_of buffer) (of_nat (length buffer)) t)) (\<lambda>t.
       print (bytes_of [0xA]) t))"

definition print_hex :: "u64 \<Rightarrow> console \<Rightarrow> console res option" where
  "print_hex n t =
     oseq (print (bytes_of (chars ''0x'')) t) (\<lambda>t.
     oseq (Some (itoa n 16)) (\<lambda>buffer.
     oseq (Some (printcount (bytes_of buffer) (of_nat (length buffer)) t)) (\<lambda>t.
       print (bytes_of [0xA]) t)))"

text \<open>
  \<open>printxy\<close> clears with the character index as a pixel offset and then draws; the buffer
  rows are not involved.
\<close>

primrec printxy_loop :: "reader \<Rightarrow> nat \<Rightarrow> nat \<Rightarrow> u32 \<Rightarrow> u32 \<Rightarrow> console \<Rightarrow> console res" where
  "printxy_loop str i 0 x y t = Inr t"
| "printxy_loop str i (Suc k) x y t =
     seq (print_char (str i) (x + of_nat i) y t) (printxy_loop str (Suc i) k x y)"

definition printxy :: "reader \<Rightarrow> s32 \<Rightarrow> s32 \<Rightarrow> console \<Rightarrow> console res option" where
  "printxy str x y t =
     map_option (\<lambda>len.
         let t = fold (\<lambda>i t. clear_glyph (of_nat i + x * psf_width (psf_header t))
                                         (y * psf_height (psf_header t)) t) [0..<unat len] t
         in printxy_loop str 0 (unat len) x y t)
       (strlen_declared str)"

text \<open>
  The 40-byte buffer on the stack is not initialised and \<open>itoa\<close> adds no zero byte: \<open>stack\<close> is
  what the memory behind the digits holds.
\<close>

definition print_int_xy :: "reader \<Rightarrow> s32 \<Rightarrow> s32 \<Rightarrow> s32 \<Rightarrow> console \<Rightarrow> console res option" where
  "print_int_xy stack num x y t =
     oseq (Some (itoa (int_to_u64 num) 10)) (\<lambda>buffer.
       printxy (\<lambda>i. if i < length buffer then buffer ! i else stack i) x y t)"

section \<open>Set-up\<close>

definition install_font :: "memory \<Rightarrow> u64 \<Rightarrow> console \<Rightarrow> console" where
  "install_font m font t =
     t\<lparr>psf_header :=
         \<lparr>psf_magic = load32 m font, psf_version = load32 m (font + 4),
          psf_headersize = load32 m (font + 8), psf_flags = load32 m (font + 12),
          psf_numglyphs = load32 m (font + 16), psf_bytesperglyph = load32 m (font + 20),
          psf_height = load32 m (font + 24), psf_width = load32 m (font + 28)\<rparr>,
       glyphs := map (\<lambda>i. map (\<lambda>j. m (font + 32 + of_nat (i * 16) + of_nat j)) [0..<16]) [0..<256]\<rparr>"

text \<open>\<open>x\<close> keeps the value the first loop leaves it with, the width in pixels.\<close>

definition draw_border :: "console \<Rightarrow> console" where
  "draw_border t =
     (let w = term_width (terminal t) * 8; h = term_height (terminal t) * 16;
          m = fold (\<lambda>x. draw_pixel t (of_nat x) 0) [0..<unat w] (screen t);
          m = fold (\<lambda>y m. draw_pixel t ((w + w) - 1) (of_nat y) (draw_pixel t w (of_nat y) m))
                [0..<unat h] m;
          m = fold (\<lambda>x. draw_pixel t (of_nat x) (h - 1)) [0..<unat w] m
      in t\<lparr>screen := m\<rparr>)"

definition init_text_terminal :: "memory \<Rightarrow> u64 \<Rightarrow> vbe_mode_info \<Rightarrow> console \<Rightarrow> console res" where
  "init_text_terminal m font info t =
     (let t = install_font m font t; v = get_vesainfo info; hd = psf_header t in
      if psf_height hd = 0 \<or> psf_width hd = 0 then Inl Div_By_Zero
      else Inr (t\<lparr>vesa_info := v,
             terminal := \<lparr>cursor_x = 0, cursor_y = 0, term_color = 0x000F00,
                          term_height = ucast (vbe_height v) div psf_height hd,
                          term_width = ucast (vbe_width v) div psf_width hd\<rparr>,
             rows := replicate 96 \<lparr>characters = replicate 128 0, row_length = 0\<rparr>\<rparr>))"

end
