(* ===== verification/Itoa.thy ===== *)
theory Itoa
  imports Terminal
begin

text \<open>
  The number printer \<open>itoa\<close> of \<open>kernel/utils/text_terminal.c\<close>: the digits it writes read back
  as the number, and the numbers for which its 21-byte digit array is too small.
\<close>

section \<open>Digits\<close>

text \<open>The digit characters of a number, lowest first, and the number a text of digits denotes.\<close>

function low_digits :: "nat \<Rightarrow> nat \<Rightarrow> u8 list" where
  "low_digits r v =
     digit_char (of_nat (v mod r)) #
       (if r < 2 \<or> v div r = 0 then [] else low_digits r (v div r))"
  by pat_completeness auto
termination
  by (relation "measure snd") (auto intro!: div_less_dividend gr0I)

declare low_digits.simps [simp del]

definition digit_value :: "u8 \<Rightarrow> nat" where
  "digit_value c = (if unat c < 58 then unat c - 48 else unat c - 87)"

definition parse_number :: "nat \<Rightarrow> u8 list \<Rightarrow> nat" where
  "parse_number r bs = foldl (\<lambda>n c. n * r + digit_value c) 0 bs"

lemma unat_ucast_small: "n < 256 \<Longrightarrow> unat (ucast (of_nat n :: u64) :: u8) = n"
  by (simp add: unat_ucast_u8 unat_of_nat_u64)

lemma unat_add_const:
  "n + k < 256 \<Longrightarrow> unat (ucast (of_nat n :: u64) + of_nat k :: u8) = n + k"
  by (simp add: unat_word_ariths unat_ucast_small unsigned_of_nat take_bit_nat_eq_self)

lemma unat_digit_char:
  assumes "d < 36"
  shows "unat (digit_char (of_nat d)) = (if d < 10 then d + 48 else d + 87)"
proof -
  have "(of_nat d :: u64) < 10 \<longleftrightarrow> d < 10"
    using assms by (simp add: word_less_nat_alt unat_of_nat_u64)
  moreover have "ucast (of_nat d :: u64) + 97 - 10 = (ucast (of_nat d :: u64) + of_nat 87 :: u8)"
    by simp
  ultimately show ?thesis
    using assms unat_add_const [of d 48] unat_add_const [of d 87]
    by (simp add: digit_char_def add.commute)
qed

lemma digit_value_char [simp]: "d < 36 \<Longrightarrow> digit_value (digit_char (of_nat d)) = d"
  by (simp add: digit_value_def unat_digit_char)

lemma parse_snoc: "parse_number r (bs @ [c]) = parse_number r bs * r + digit_value c"
  by (simp add: parse_number_def)

lemma parse_low_digits:
  "2 \<le> r \<Longrightarrow> r \<le> 36 \<Longrightarrow> parse_number r (rev (low_digits r v)) = v"
proof (induction r v rule: low_digits.induct)
  case (1 r v)
  have m: "v mod r < 36" using "1.prems" by (meson less_le_trans mod_less_divisor zero_less_numeral)
  show ?case
  proof (cases "v div r = 0")
    case True
    then have "v mod r = v" using "1.prems" by (metis mod_div_trivial mod_less div_eq_0_iff not_numeral_le_zero)
    then show ?thesis
      using True m by (subst low_digits.simps) (simp add: parse_number_def)
  next
    case False
    then have "parse_number r (rev (low_digits r (v div r))) = v div r"
      using "1.prems" by (intro "1.IH") auto
    then show ?thesis
      using False m "1.prems" by (subst low_digits.simps) (simp add: parse_snoc)
  qed
qed

lemma last_low_digits:
  assumes "2 \<le> r" and "r \<le> 36"
  shows "last (low_digits r v) = 48 \<Longrightarrow> v = 0"
  using assms
proof (induction r v rule: low_digits.induct)
  case (1 r v)
  have m: "v mod r < 36" using "1.prems" by (meson less_le_trans mod_less_divisor zero_less_numeral)
  show ?case
  proof (cases "v div r = 0")
    case True
    then have v: "v mod r = v" using "1.prems" by (metis mod_less div_eq_0_iff not_numeral_le_zero)
    have "digit_char (of_nat v) = 48"
      using "1.prems"(1) True v by (subst (asm) low_digits.simps) simp
    then have "digit_value (digit_char (of_nat v)) = 0" by (simp add: digit_value_def)
    then show ?thesis using m v by simp
  next
    case False
    have "last (low_digits r v) = last (low_digits r (v div r))"
      using False "1.prems" by (subst low_digits.simps) (auto simp: low_digits.simps [of r "v div r"])
    with "1.prems" False have "v div r = 0" by (intro "1.IH") auto
    with False show ?thesis by simp
  qed
qed

lemma length_low_digits_pos [simp]: "low_digits r v \<noteq> []"
  by (subst low_digits.simps) simp

section \<open>The loop\<close>

lemma unat_int_to_u64_radix: "r < 2 ^ 31 \<Longrightarrow> int_to_u64 (of_nat r) = of_nat r"
  by (rule int_to_u64_of_nat)

lemma unat_div_mod_radix:
  assumes "r < 2 ^ 31"
  shows "unat (v div of_nat r :: u64) = unat v div r" "(v mod of_nat r :: u64) = of_nat (unat v mod r)"
proof -
  have r: "unat (of_nat r :: u64) = r" using assms by (simp add: unat_of_nat_u64)
  show "unat (v div of_nat r :: u64) = unat v div r" by (simp add: unat_div r)
  have "unat (v mod of_nat r :: u64) = unat v mod r" by (simp add: unat_mod r)
  then show "(v mod of_nat r :: u64) = of_nat (unat v mod r)" by (rule word_eq_of_unat)
qed

lemma itoa_loop_eq:
  assumes "2 \<le> r" and "r \<le> 36" and "length tmp < 21"
  shows "itoa_loop v (of_nat r) tmp =
    (if unat v < r ^ (21 - length tmp) then Inr (tmp @ low_digits r (unat v)) else Inl Out_Of_Bounds)"
  using assms(3)
proof (induction k \<equiv> "20 - length tmp" arbitrary: v tmp)
  case 0
  then have len: "length tmp = 20" by simp
  have r: "r < 2 ^ 31" using assms by simp
  note dm = unat_div_mod_radix [OF r]
  have z: "v div of_nat r = 0 \<longleftrightarrow> unat v < r"
    using assms by (simp add: unat_eq_zero [symmetric] dm div_eq_0_iff)
  show ?case
    using len assms by (subst itoa_loop.simps, subst low_digits.simps)
      (simp add: Let_def dm z itoa_loop.simps div_eq_0_iff)
next
  case (Suc k)
  then have len: "length tmp = 19 - k" "k \<le> 19" by auto
  have r: "r < 2 ^ 31" using assms by simp
  note dm = unat_div_mod_radix [OF r]
  have z: "v div of_nat r = 0 \<longleftrightarrow> unat v < r"
    using assms by (simp add: unat_eq_zero [symmetric] dm div_eq_0_iff)
  have pow: "21 - length tmp = Suc (Suc k)" using len by simp
  show ?case
  proof (cases "unat v < r")
    case True
    have "r \<le> r ^ (21 - length tmp)" using assms unfolding pow by simp
    then show ?thesis
      using True z Suc.prems by (subst itoa_loop.simps, subst low_digits.simps) (simp add: Let_def dm)
  next
    case False
    let ?tmp = "tmp @ [digit_char (of_nat (unat v mod r))]"
    have l: "20 - length ?tmp = k" "length ?tmp < 21" "21 - length ?tmp = Suc k" using len by auto
    have "itoa_loop v (of_nat r) tmp = itoa_loop (v div of_nat r) (of_nat r) ?tmp"
      using False z Suc.prems by (subst itoa_loop.simps) (simp add: Let_def dm)
    also have "\<dots> = (if unat (v div of_nat r) < r ^ Suc k
        then Inr (?tmp @ low_digits r (unat (v div of_nat r))) else Inl Out_Of_Bounds)"
      using Suc.hyps(1) [OF l(1) [symmetric] l(2)] l(3) by simp
    also have "unat (v div of_nat r) < r ^ Suc k \<longleftrightarrow> unat v < r ^ (21 - length tmp)"
      using assms unfolding dm pow by (simp add: div_less_iff_less_mult mult.commute)
    also have "?tmp @ low_digits r (unat (v div of_nat r)) = tmp @ low_digits r (unat v)"
      using False assms unfolding dm by (subst (2) low_digits.simps) (simp add: div_eq_0_iff)
    finally show ?thesis .
  qed
qed

lemma itoa_eq:
  assumes "2 \<le> r" and "r \<le> 36"
  shows "itoa v (of_nat r) =
    (if unat v < r ^ 21 then Inr (rev (low_digits r (unat v))) else Inl Out_Of_Bounds)"
proof -
  have "sint (of_nat r :: s32) = int r" using assms by (intro sint_of_nat_s32) simp
  moreover have "int_to_u64 (of_nat r) = of_nat r" using assms by (intro int_to_u64_of_nat) simp
  ultimately show ?thesis
    using assms itoa_loop_eq [OF assms, of "[]" v] by (simp add: itoa_def)
qed

lemma length_low_digits: "2 \<le> r \<Longrightarrow> v < r ^ Suc k \<Longrightarrow> length (low_digits r v) \<le> Suc k"
proof (induction k arbitrary: v)
  case 0
  then show ?case by (subst low_digits.simps) (simp add: div_eq_0_iff)
next
  case (Suc k)
  have "v div r < r ^ Suc k" using Suc.prems by (simp add: div_less_iff_less_mult mult.commute)
  with Suc show ?case by (subst low_digits.simps) simp
qed

lemma unat_less_10_20: "unat (v :: u64) < 10 ^ Suc 19" and unat_less_16_16: "unat (v :: u64) < 16 ^ Suc 15"
  using unat_less_2p64 [of v] by simp_all

lemma itoa_decimal: "itoa v 10 = Inr (rev (low_digits 10 (unat v)))"
  using itoa_eq [of 10 v] unat_less_2p64 [of v] by simp

lemma itoa_hexadecimal: "itoa v 16 = Inr (rev (low_digits 16 (unat v)))"
  using itoa_eq [of 16 v] unat_less_2p64 [of v] by simp

text \<open>C24 itoa_round_trip. For every radix from 2 to 36, \<open>itoa\<close> writes between one and 21 digits,
  without a leading zero unless the number is zero, that read back as the number; exactly the
  numbers of more than 21 digits overrun the digit array, which for a radix below 9 exist.\<close>
theorem itoa_round_trip:
  assumes "2 \<le> r" and "r \<le> 36"
  shows "(if unat v < r ^ 21
     then \<exists>bs. itoa v (of_nat r) = Inr bs \<and> bs \<noteq> [] \<and> length bs \<le> 21 \<and>
        parse_number r bs = unat v \<and> (hd bs = 48 \<longrightarrow> v = 0)
     else itoa v (of_nat r) = Inl Out_Of_Bounds) \<and>
    (9 \<le> r \<longrightarrow> unat v < r ^ 21)"
proof -
  have "unat v < r ^ 21" if "9 \<le> r"
  proof -
    have "unat v < 9 ^ 21" using unat_less_2p64 [of v] by simp
    also have "(9 :: nat) ^ 21 \<le> r ^ 21" using that by (rule power_mono) simp
    finally show ?thesis .
  qed
  moreover have "v = 0" if "last (low_digits r (unat v)) = 48"
    using last_low_digits [OF assms that] by (simp add: unat_eq_zero)
  moreover have "length (low_digits r (unat v)) \<le> 21" if "unat v < r ^ 21"
    using length_low_digits [OF assms(1), of "unat v" 20] that by simp
  ultimately show ?thesis
    using assms by (auto simp: itoa_eq parse_low_digits hd_rev)
qed

theorem itoa_round_trip_witness:
  "(\<exists>bs. itoa 65535 16 = Inr bs \<and> parse_number 16 bs = 65535) \<and> itoa (2 ^ 63) 2 = Inl Out_Of_Bounds"
  using itoa_round_trip [of 16 65535] itoa_round_trip [of 2 "2 ^ 63"] by auto

end
