(* ===== verification/TerminalText.thy ===== *)
theory TerminalText
  imports Itoa
begin

text \<open>
  What the text terminal of \<open>kernel/utils/text_terminal.c\<close> promises: its buffer holds the last
  rows of everything printed, laid out by wrapping at the width. The specification is the
  unbounded list of rows; the buffer, the cursor and the scrolling implement it.
\<close>

section \<open>The specification\<close>

text \<open>
  A history is the non-empty list of all rows ever begun. A character goes to the end of the
  last row, or to a new row when the last one is full; a newline begins a new row.
\<close>

definition add_char :: "nat \<Rightarrow> u8 list list \<Rightarrow> u8 \<Rightarrow> u8 list list" where
  "add_char W hist c =
     (if c = 0xA then hist @ [[]]
      else if length (last hist) = W then hist @ [[c]]
      else butlast hist @ [last hist @ [c]])"

definition layout :: "nat \<Rightarrow> u8 list \<Rightarrow> u8 list list" where
  "layout W cs = foldl (add_char W) [[]] cs"

definition last_rows :: "nat \<Rightarrow> 'a list \<Rightarrow> 'a list" where
  "last_rows H hs = drop (length hs - H) hs"

lemma add_char_not_Nil [simp]: "add_char W hist c \<noteq> []"
  by (simp add: add_char_def)

lemma length_last_rows [simp]: "length (last_rows H hs) = min H (length hs)"
  by (auto simp: last_rows_def)

lemma last_rows_short: "length hs \<le> H \<Longrightarrow> last_rows H hs = hs"
  by (simp add: last_rows_def)

lemma last_rows_snoc: "last_rows H (last_rows H hs @ [r]) = last_rows H (hs @ [r])"
proof (cases "H \<le> length hs")
  case True
  then have "Suc (length hs) - H = Suc (length hs - H)" by (rule Suc_diff_le)
  with True show ?thesis by (cases H) (simp_all add: last_rows_def)
next
  case False
  then show ?thesis by (simp add: last_rows_def)
qed

lemma last_rows_butlast:
  assumes "hs \<noteq> []" and "0 < H"
  shows "butlast (last_rows H hs) @ [r] = last_rows H (butlast hs @ [r])"
    and "last (last_rows H hs) = last hs"
proof -
  have lt: "length hs - H < length hs" using assms by simp
  show "last (last_rows H hs) = last hs"
    using lt by (simp add: last_rows_def)
  show "butlast (last_rows H hs) @ [r] = last_rows H (butlast hs @ [r])"
    using lt assms by (simp add: last_rows_def butlast_drop drop_append)
qed

section \<open>The buffer\<close>

text \<open>A character that has a glyph: ASCII, or the byte \<open>0xC3\<close>.\<close>

definition printable :: "u8 \<Rightarrow> bool" where
  "printable c \<longleftrightarrow> sint c = -61 \<or> 0 \<le> sint c"

definition glyph_index :: "u8 \<Rightarrow> nat" where
  "glyph_index c = (if sint c = -61 then 228 else unat c)"

definition row_text :: "terminal_row \<Rightarrow> u8 list" where
  "row_text r = take (unat (row_length r)) (characters r)"

definition row_ok :: "nat \<Rightarrow> terminal_row \<Rightarrow> bool" where
  "row_ok W r \<longleftrightarrow> length (characters r) = 128 \<and> unat (row_length r) \<le> W \<and>
     (\<forall>c \<in> set (row_text r). printable c \<and> c \<noteq> 0xA)"

definition console_ok :: "nat \<Rightarrow> nat \<Rightarrow> console \<Rightarrow> bool" where
  "console_ok H W t \<longleftrightarrow>
     0 < H \<and> H \<le> 95 \<and> 0 < W \<and> W \<le> 128 \<and>
     term_height (terminal t) = of_nat H \<and> term_width (terminal t) = of_nat W \<and>
     length (rows t) = 96 \<and> (\<forall>r \<in> set (rows t). row_ok W r) \<and>
     unat (cursor_y (terminal t)) < H \<and>
     row_length (rows t ! unat (cursor_y (terminal t))) = cursor_x (terminal t) \<and>
     (\<forall>r < 96. unat (cursor_y (terminal t)) < r \<longrightarrow> row_length (rows t ! r) = 0)"

definition displayed :: "console \<Rightarrow> u8 list list" where
  "displayed t = map row_text (take (unat (cursor_y (terminal t)) + 1) (rows t))"

lemma length_row_text: "row_ok W r \<Longrightarrow> W \<le> 128 \<Longrightarrow> length (row_text r) = unat (row_length r)"
  by (simp add: row_text_def row_ok_def)

lemma row_text_zero [simp]: "row_length r = 0 \<Longrightarrow> row_text r = []"
  by (simp add: row_text_def)

section \<open>Drawing changes the screen only\<close>

definition draw_char :: "u8 \<Rightarrow> u32 \<Rightarrow> u32 \<Rightarrow> console \<Rightarrow> console" where
  "draw_char c x y t =
     render_glyph (glyphs t ! glyph_index c) (x * psf_width (psf_header t)) (y * psf_height (psf_header t)) t"

lemma print_char_printable: "printable c \<Longrightarrow> print_char c x y t = Inr (draw_char c x y t)"
  by (auto simp: print_char_def draw_char_def glyph_index_def printable_def Let_def)

lemma print_char_unprintable: "\<not> printable c \<Longrightarrow> print_char c x y t = Inl Out_Of_Bounds"
  by (auto simp: print_char_def printable_def Let_def)

lemma screen_update: "screen (t\<lparr>screen := m\<rparr>) = m"
  by simp

text \<open>Two consoles that agree up to the rows and the screen.\<close>

definition same_device :: "console \<Rightarrow> console \<Rightarrow> bool" where
  "same_device t t' \<longleftrightarrow> glyphs t' = glyphs t \<and> psf_header t' = psf_header t \<and>
     terminal t' = terminal t \<and> vesa_info t' = vesa_info t \<and> interrupts t' = interrupts t"

lemma same_device_refl [simp]: "same_device t t"
  and same_device_trans: "same_device t t' \<Longrightarrow> same_device t' t'' \<Longrightarrow> same_device t t''"
  by (simp_all add: same_device_def)

lemma draw_char_rest [simp]: "same_device t (draw_char c x y t)" "rows (draw_char c x y t) = rows t"
  "terminal (draw_char c x y t) = terminal t"
  by (simp_all add: draw_char_def render_glyph_def same_device_def)

lemma clear_glyphs_rest:
  "same_device t (fold (\<lambda>x. clear_glyph (f x) (g x)) xs t)"
  "rows (fold (\<lambda>x. clear_glyph (f x) (g x)) xs t) = rows t"
  by (induction xs arbitrary: t) (auto simp: clear_glyph_def same_device_def)

lemma set_row_rest [simp]: "same_device t (set_row y r t)" "rows (set_row y r t) = (rows t)[y := r]"
  "terminal (set_row y r t) = terminal t"
  by (simp_all add: set_row_def same_device_def)

section \<open>Scrolling\<close>

lemma shift_row_ok:
  assumes "row_ok W r" and "row_ok W b" and "W \<le> 128"
  shows "\<exists>r'. shift_row r b = Inr r' \<and> row_ok W r' \<and> row_text r' = row_text b \<and> row_length r' = row_length b"
  using assms by (auto simp: shift_row_def row_ok_def row_text_def Let_def min_def)

lemma redraw_row_ok:
  assumes "k + b \<le> length (characters (rows t ! y))"
    and "\<forall>i < k. printable (characters (rows t ! y) ! (b + i)) \<and> characters (rows t ! y) ! (b + i) \<noteq> 0xA"
  shows "redraw_row y b k t =
    Inr (fold (\<lambda>i t. draw_char (characters (rows t ! y) ! i) (of_nat i) (of_nat y) t) [b..<b + k] t)"
  using assms
proof (induction k arbitrary: b t)
  case 0
  then show ?case by simp
next
  case (Suc k)
  let ?cs = "characters (rows t ! y)"
  let ?t = "draw_char (?cs ! b) (of_nat b) (of_nat y) t"
  have "printable (?cs ! b) \<and> ?cs ! b \<noteq> 0xA" using Suc.prems(2) by (metis add.right_neutral zero_less_Suc)
  then have "redraw_row y b (Suc k) t = redraw_row y (Suc b) k ?t"
    using Suc.prems(1) by (simp add: print_char_printable)
  also have "\<dots> = Inr (fold (\<lambda>i t. draw_char (characters (rows t ! y) ! i) (of_nat i) (of_nat y) t)
      [Suc b..<Suc b + k] ?t)"
    using Suc.prems by (intro Suc.IH) (auto simp del: add_Suc add_Suc_right simp: add_Suc_shift)
  finally show ?case by (simp add: upt_conv_Cons del: upt_Suc)
qed

lemma fold_draw_rest:
  "same_device t (fold (\<lambda>i t. draw_char (f t i) (g i) (h i) t) xs t)"
  "rows (fold (\<lambda>i t. draw_char (f t i) (g i) (h i) t) xs t) = rows t"
proof (induction xs arbitrary: t)
  case (Cons a xs)
  {
    case 1
    show ?case
      unfolding fold_simps comp_apply by (rule same_device_trans [OF draw_char_rest(1) Cons(1)])
  next
    case 2
    show ?case using Cons(2) by simp
  }
qed simp_all

text \<open>One turn of the loop, with the screen it leaves written out.\<close>

definition cleared :: "nat \<Rightarrow> console \<Rightarrow> console" where
  "cleared y t = fold (\<lambda>x. clear_glyph (of_nat x * psf_width (psf_header t))
                                      (of_nat y * psf_height (psf_header t)))
                  [0..<unat (row_length (rows t ! y))] t"

definition draw_row :: "nat \<Rightarrow> console \<Rightarrow> console" where
  "draw_row y t = fold (\<lambda>i t. draw_char (characters (rows t ! y) ! i) (of_nat i) (of_nat y) t)
     [0..<unat (row_length (rows t ! y))] t"

lemma cleared_rest: "same_device t (cleared y t)" "rows (cleared y t) = rows t"
  unfolding cleared_def by (rule clear_glyphs_rest)+

lemma draw_row_rest: "same_device t (draw_row y t)" "rows (draw_row y t) = rows t"
  unfolding draw_row_def by (rule fold_draw_rest)+

lemma scroll_row_cleared:
  "scroll_row y t =
     (if length (rows t) \<le> y then Inl Out_Of_Bounds
      else if length (rows (cleared y t)) \<le> y + 1 then Inl Out_Of_Bounds
      else seq (shift_row (rows (cleared y t) ! y) (rows (cleared y t) ! (y + 1)))
             (\<lambda>r. redraw_row y 0 (unat (row_length r)) (set_row y r (cleared y t))))"
  by (simp add: scroll_row_def cleared_def Let_def)

lemma scroll_row_ok:
  assumes "length (rows t) = 96" and "y < 95" and "\<forall>r \<in> set (rows t). row_ok W r" and "W \<le> 128"
  shows "\<exists>r. scroll_row y t = Inr (draw_row y (set_row y r (cleared y t))) \<and>
    row_ok W r \<and> row_text r = row_text (rows t ! (y + 1)) \<and> row_length r = row_length (rows t ! (y + 1))"
proof -
  have ok: "row_ok W (rows t ! y)" "row_ok W (rows t ! (y + 1))" using assms by auto
  obtain r where r: "shift_row (rows t ! y) (rows t ! (y + 1)) = Inr r" "row_ok W r"
    "row_text r = row_text (rows t ! (y + 1))" "row_length r = row_length (rows t ! (y + 1))"
    using shift_row_ok [OF ok assms(4)] by blast
  have nth: "rows (set_row y r (cleared y t)) ! y = r" using assms by (simp add: cleared_rest)
  have len: "length (characters r) = 128" and le: "unat (row_length r) \<le> 128"
    using r(2) assms(4) by (auto simp: row_ok_def)
  have "printable (characters r ! i) \<and> characters r ! i \<noteq> 0xA" if "i < unat (row_length r)" for i
  proof -
    have "characters r ! i \<in> set (row_text r)"
      using that len le unfolding row_text_def in_set_conv_nth by (intro exI [of _ i]) simp
    then show ?thesis using r(2) by (auto simp: row_ok_def)
  qed
  then have "redraw_row y 0 (unat (row_length r)) (set_row y r (cleared y t)) =
      Inr (draw_row y (set_row y r (cleared y t)))"
    using nth len le by (subst redraw_row_ok) (auto simp: draw_row_def)
  moreover have "scroll_row y t =
      seq (shift_row (rows t ! y) (rows t ! (y + 1)))
        (\<lambda>r. redraw_row y 0 (unat (row_length r)) (set_row y r (cleared y t)))"
    using assms by (simp add: scroll_row_cleared cleared_rest)
  ultimately show ?thesis using r by auto
qed

lemma scroll_loop_ok:
  assumes "length (rows t) = 96" and "y + k \<le> 95" and "\<forall>r \<in> set (rows t). row_ok W r" and "W \<le> 128"
  shows "\<exists>t'. scroll_loop y k t = Inr t' \<and> same_device t t' \<and> length (rows t') = 96 \<and>
    (\<forall>r \<in> set (rows t'). row_ok W r) \<and>
    (\<forall>r < 96. row_text (rows t' ! r) = row_text (rows t ! (if y \<le> r \<and> r < y + k then r + 1 else r)) \<and>
       row_length (rows t' ! r) = row_length (rows t ! (if y \<le> r \<and> r < y + k then r + 1 else r)))"
  using assms
proof (induction k arbitrary: y t)
  case 0
  then show ?case by auto
next
  case (Suc k)
  then obtain r where r: "scroll_row y t = Inr (draw_row y (set_row y r (cleared y t)))" "row_ok W r"
    "row_text r = row_text (rows t ! (y + 1))" "row_length r = row_length (rows t ! (y + 1))"
    using scroll_row_ok [of t y W] by auto
  let ?t = "draw_row y (set_row y r (cleared y t))"
  have rows: "rows ?t = (rows t)[y := r]" by (simp add: draw_row_rest cleared_rest)
  have dev: "same_device t ?t"
    using draw_row_rest cleared_rest set_row_rest same_device_trans by metis
  have "\<exists>t'. scroll_loop (Suc y) k ?t = Inr t' \<and> same_device ?t t' \<and> length (rows t') = 96 \<and>
    (\<forall>r \<in> set (rows t'). row_ok W r) \<and>
    (\<forall>i < 96. row_text (rows t' ! i) = row_text (rows ?t ! (if Suc y \<le> i \<and> i < Suc y + k then i + 1 else i)) \<and>
       row_length (rows t' ! i) = row_length (rows ?t ! (if Suc y \<le> i \<and> i < Suc y + k then i + 1 else i)))"
  proof (intro Suc.IH)
    show "\<forall>r \<in> set (rows ?t). row_ok W r"
      using Suc.prems(3) r(2) set_update_subset_insert [of "rows t" y r] unfolding rows by blast
  qed (use Suc.prems rows in auto)
  then obtain t' where t': "scroll_loop (Suc y) k ?t = Inr t'" "same_device ?t t'" "length (rows t') = 96"
    "\<forall>r \<in> set (rows t'). row_ok W r"
    and c: "\<And>i. i < 96 \<Longrightarrow> row_text (rows t' ! i) = row_text (rows ?t ! (if Suc y \<le> i \<and> i < Suc y + k then i + 1 else i)) \<and>
       row_length (rows t' ! i) = row_length (rows ?t ! (if Suc y \<le> i \<and> i < Suc y + k then i + 1 else i))"
    by blast
  have "row_text (rows t' ! i) = row_text (rows t ! (if y \<le> i \<and> i < y + Suc k then i + 1 else i)) \<and>
       row_length (rows t' ! i) = row_length (rows t ! (if y \<le> i \<and> i < y + Suc k then i + 1 else i))"
    if "i < 96" for i
  proof (cases "i = y")
    case True
    then show ?thesis using c [OF that] r(3,4) Suc.prems unfolding rows by simp
  next
    case False
    then have e: "(Suc y \<le> i \<and> i < Suc y + k) = (y \<le> i \<and> i < y + Suc k)" by auto
    have "y \<noteq> (if y \<le> i \<and> i < y + Suc k then i + 1 else i)" using False by auto
    then show ?thesis using c [OF that] unfolding rows e by simp
  qed
  then show ?case using t' same_device_trans [OF dev t'(2)] r(1) by (intro exI [of _ t']) simp
qed

section \<open>One character\<close>

lemma move_cursor_simps [simp]:
  "cursor_x (terminal (move_cursor x y t)) = x" "cursor_y (terminal (move_cursor x y t)) = y"
  "term_height (terminal (move_cursor x y t)) = term_height (terminal t)"
  "term_width (terminal (move_cursor x y t)) = term_width (terminal t)"
  "rows (move_cursor x y t) = rows t" "glyphs (move_cursor x y t) = glyphs t"
  "psf_header (move_cursor x y t) = psf_header t" "vesa_info (move_cursor x y t) = vesa_info t"
  "screen (move_cursor x y t) = screen t"
  by (simp_all add: move_cursor_def)

lemma displayed_nth:
  "length (rows t) = 96 \<Longrightarrow> unat (cursor_y (terminal t)) < 96 \<Longrightarrow>
     displayed t = map (\<lambda>r. row_text (rows t ! r)) [0..<unat (cursor_y (terminal t)) + 1]"
  by (rule nth_equalityI) (auto simp: displayed_def simp del: upt_Suc)

lemma next_row_last:
  assumes "console_ok H W t"
  shows "cursor_y (terminal t) + 1 = term_height (terminal t) \<longleftrightarrow> unat (cursor_y (terminal t)) + 1 = H"
    and "unat (cursor_y (terminal t) + 1) = unat (cursor_y (terminal t)) + 1"
    and "unat (of_nat H :: u32) = H"
proof -
  have ok: "H \<le> 95" "term_height (terminal t) = of_nat H" "unat (cursor_y (terminal t)) < H"
    using assms by (auto simp: console_ok_def)
  show cy1: "unat (cursor_y (terminal t) + 1) = unat (cursor_y (terminal t)) + 1"
    using ok by (simp add: unat_word_ariths)
  show h: "unat (of_nat H :: u32) = H" using ok by (simp add: unat_of_nat_u32)
  show "cursor_y (terminal t) + 1 = term_height (terminal t) \<longleftrightarrow> unat (cursor_y (terminal t)) + 1 = H"
    by (metis cy1 h ok(2) word_unat_eq_iff)
qed

text \<open>On the last row the terminal scrolls: every row moves up by one.\<close>

lemma next_row_scrolls:
  assumes "console_ok H W t" and "unat (cursor_y (terminal t)) + 1 = H"
  shows "\<exists>t'. next_row t = Inr t' \<and> console_ok H W t' \<and> cursor_x (terminal t') = 0 \<and>
    displayed t' = last_rows H (displayed t @ [[]])"
proof -
  let ?cy = "unat (cursor_y (terminal t))" and ?t0 = "t\<lparr>interrupts := False\<rparr>"
  have ok: "0 < H" "0 + H \<le> 95" "W \<le> 128" "term_height (terminal t) = of_nat H" "length (rows ?t0) = 96"
    "\<forall>r \<in> set (rows ?t0). row_ok W r" "?cy < H" "length (rows t) = 96"
    and below: "\<And>r. r < 96 \<Longrightarrow> ?cy < r \<Longrightarrow> row_length (rows t ! r) = 0"
    using assms by (auto simp: console_ok_def)
  obtain t' where t': "scroll_loop 0 H ?t0 = Inr t'" "same_device ?t0 t'" "length (rows t') = 96"
    "\<forall>r \<in> set (rows t'). row_ok W r"
    and c: "\<And>r. r < 96 \<Longrightarrow> row_text (rows t' ! r) = row_text (rows t ! (if r < H then r + 1 else r)) \<and>
       row_length (rows t' ! r) = row_length (rows t ! (if r < H then r + 1 else r))"
    using scroll_loop_ok [OF ok(5,2,6,3)] by auto
  let ?t = "move_cursor 0 (cursor_y (terminal t)) (t'\<lparr>interrupts := True\<rparr>)"
  have tm: "terminal t' = terminal t" using t'(2) by (simp add: same_device_def)
  have "next_row t = Inr ?t"
    using assms(2) t'(1) next_row_last [OF assms(1)] ok(4) by (simp add: next_row_def scroll_def tm)
  moreover have "row_length (rows t' ! r) = 0" if "r < 96" "?cy \<le> r" for r
    using c [OF that(1)] that below [of "r + 1"] below [of r] assms(2) ok by (auto split: if_splits)
  then have "console_ok H W ?t"
    using assms t' c ok by (auto simp: console_ok_def tm)
  moreover have "displayed ?t = last_rows H (displayed t @ [[]])"
  proof -
    have disp: "displayed t = map (\<lambda>r. row_text (rows t ! r)) [0..<?cy + 1]"
      using ok by (intro displayed_nth) auto
    have "displayed ?t = map (\<lambda>r. row_text (rows t' ! r)) [0..<H]"
      using t'(3) ok assms(2) by (subst displayed_nth) (auto simp: tm)
    also have "\<dots> = map (\<lambda>r. row_text (rows t ! Suc r)) [0..<H]"
      using c ok by (intro map_cong refl) auto
    also have "\<dots> = map (\<lambda>r. row_text (rows t ! r)) [Suc 0..<Suc H]"
      by (simp only: map_Suc_upt [symmetric] map_map comp_def)
    also have "\<dots> = map (\<lambda>r. row_text (rows t ! r)) [Suc 0..<H] @ [[]]"
      using below [of H] ok by simp
    also have "\<dots> = last_rows H (displayed t @ [[]])"
      using assms(2) unfolding disp by (simp add: last_rows_def drop_map del: upt_Suc)
    finally show ?thesis .
  qed
  ultimately show ?thesis by auto
qed

lemma next_row_ok:
  assumes "console_ok H W t"
  shows "\<exists>t'. next_row t = Inr t' \<and> console_ok H W t' \<and> cursor_x (terminal t') = 0 \<and>
    displayed t' = last_rows H (displayed t @ [[]])"
proof (cases "unat (cursor_y (terminal t)) + 1 = H")
  case True
  then show ?thesis by (rule next_row_scrolls [OF assms])
next
  case False
  let ?cy = "unat (cursor_y (terminal t))"
  let ?t = "move_cursor 0 (cursor_y (terminal t) + 1) t"
  have ok: "0 < H" "H \<le> 95" "length (rows t) = 96" "?cy < H"
    and below: "\<And>r. r < 96 \<Longrightarrow> ?cy < r \<Longrightarrow> row_length (rows t ! r) = 0"
    using assms by (auto simp: console_ok_def)
  note cy1 = next_row_last(2) [OF assms]
  have disp: "displayed t = map (\<lambda>r. row_text (rows t ! r)) [0..<?cy + 1]"
    using ok by (intro displayed_nth) auto
  have "next_row t = Inr ?t"
    using False next_row_last [OF assms] by (simp add: next_row_def move_cursor_def)
  moreover have "console_ok H W ?t"
    using assms False ok below by (auto simp: console_ok_def cy1)
  moreover have "displayed ?t = map (\<lambda>r. row_text (rows t ! r)) [0..<?cy + 1 + 1]"
    using ok False by (subst displayed_nth) (auto simp: cy1)
  then have "displayed ?t = displayed t @ [[]]"
    using below [of "?cy + 1"] ok unfolding disp by simp
  ultimately show ?thesis
    using False ok by (auto simp: last_rows_short disp)
qed

lemma displayed_last:
  assumes "console_ok H W t"
  shows "last (displayed t) = row_text (rows t ! unat (cursor_y (terminal t)))"
    and "displayed t \<noteq> []"
    and "length (last (displayed t)) = unat (cursor_x (terminal t))"
proof -
  let ?cy = "unat (cursor_y (terminal t))"
  have ok: "length (rows t) = 96" "?cy < 96" "W \<le> 128" "row_ok W (rows t ! ?cy)"
    "row_length (rows t ! ?cy) = cursor_x (terminal t)"
    using assms by (auto simp: console_ok_def)
  then have d: "displayed t = map (\<lambda>r. row_text (rows t ! r)) [0..<?cy + 1]"
    by (intro displayed_nth)
  show "last (displayed t) = row_text (rows t ! ?cy)" and "displayed t \<noteq> []"
    unfolding d by simp_all
  then show "length (last (displayed t)) = unat (cursor_x (terminal t))"
    using length_row_text [OF ok(4,3)] ok(5) by simp
qed

lemma store_char_ok:
  assumes "console_ok H W t" and "unat (cursor_x (terminal t)) < W" and "printable c" and "c \<noteq> 0xA"
  shows "\<exists>t'. store_char c t = Inr t' \<and> console_ok H W t' \<and>
    displayed t' = butlast (displayed t) @ [last (displayed t) @ [c]]"
proof -
  let ?cy = "unat (cursor_y (terminal t))" and ?cx = "unat (cursor_x (terminal t))"
  let ?r = "rows t ! ?cy"
  let ?r' = "?r\<lparr>characters := (characters ?r)[?cx := c], row_length := row_length ?r + 1\<rparr>"
  let ?t = "move_cursor (cursor_x (terminal t) + 1) (cursor_y (terminal t)) (set_row ?cy ?r' t)"
  have ok: "length (rows t) = 96" "?cy < 96" "W \<le> 128" "row_ok W ?r"
    "row_length ?r = cursor_x (terminal t)"
    using assms by (auto simp: console_ok_def)
  have len: "length (characters ?r) = 128" using ok(4) by (simp add: row_ok_def)
  have x1: "unat (cursor_x (terminal t) + 1) = ?cx + 1"
    using assms(2) ok(3) by (simp add: unat_word_ariths)
  have tx: "row_text ?r' = row_text ?r @ [c]"
    using len assms(2) ok by (simp add: row_text_def x1 take_Suc_conv_app_nth)
  have "store_char c t = Inr ?t"
    using ok assms(2) len by (simp add: store_char_def Let_def)
  moreover have "row_ok W ?r'"
    using ok assms len tx x1 by (auto simp: row_ok_def)
  then have "console_ok H W ?t"
    using assms ok
    by (auto simp: console_ok_def dest!: subsetD [OF set_update_subset_insert])
  moreover have "displayed ?t = butlast (displayed t) @ [last (displayed t) @ [c]]"
  proof -
    have "displayed ?t = map (\<lambda>i. row_text ((rows t)[?cy := ?r'] ! i)) [0..<?cy + 1]"
      using ok by (subst displayed_nth) simp_all
    also have "\<dots> = map (\<lambda>i. row_text (rows t ! i)) [0..<?cy] @ [row_text ?r @ [c]]"
      using ok tx by simp
    also have "\<dots> = butlast (displayed t) @ [last (displayed t) @ [c]]"
      using ok displayed_last(1) [OF assms(1)] by (subst displayed_nth) simp_all
    finally show ?thesis .
  qed
  ultimately show ?thesis by blast
qed

lemma displayed_length_le: "console_ok H W t \<Longrightarrow> length (last (displayed t)) \<le> W"
proof -
  assume ok: "console_ok H W t"
  then have "row_ok W (rows t ! unat (cursor_y (terminal t)))" and
    "row_length (rows t ! unat (cursor_y (terminal t))) = cursor_x (terminal t)"
    by (auto simp: console_ok_def)
  then show ?thesis by (simp add: displayed_last(3) [OF ok] row_ok_def)
qed

text \<open>Where the next character goes there is room for it.\<close>

lemma put_char_room:
  assumes "console_ok H W t"
    and "(if cursor_x (terminal t) = term_width (terminal t) then next_row t else Inr t) = Inr t1"
  shows "console_ok H W t1 \<and> unat (cursor_x (terminal t1)) < W"
proof -
  have W: "0 < W" "W \<le> 128" "term_width (terminal t) = of_nat W" using assms(1) by (auto simp: console_ok_def)
  show ?thesis
  proof (cases "cursor_x (terminal t) = term_width (terminal t)")
    case True
    then have n: "next_row t = Inr t1" using assms(2) by simp
    obtain t2 where "next_row t = Inr t2" "console_ok H W t2" "cursor_x (terminal t2) = 0"
      using next_row_ok [OF assms(1)] by blast
    then show ?thesis using n W by simp
  next
    case False
    moreover have "unat (cursor_x (terminal t)) \<le> W"
      using displayed_length_le [OF assms(1)] displayed_last(3) [OF assms(1)] by simp
    moreover have "unat (cursor_x (terminal t)) \<noteq> W"
      using False W by (auto dest: word_eq_of_unat)
    ultimately show ?thesis using assms by simp
  qed
qed

text \<open>The contract of a step of the printer: the buffer follows the history.\<close>

definition shows_text :: "nat \<Rightarrow> nat \<Rightarrow> u8 list list \<Rightarrow> console \<Rightarrow> bool" where
  "shows_text H W hist t \<longleftrightarrow> console_ok H W t \<and> hist \<noteq> [] \<and> displayed t = last_rows H hist"

lemma shows_text_last:
  assumes "shows_text H W hist t"
  shows "last (displayed t) = last hist" "butlast (displayed t) @ [r] = last_rows H (butlast hist @ [r])"
proof -
  have "0 < H" "hist \<noteq> []" using assms by (auto simp: shows_text_def console_ok_def)
  then show "last (displayed t) = last hist" "butlast (displayed t) @ [r] = last_rows H (butlast hist @ [r])"
    using assms last_rows_butlast by (auto simp: shows_text_def)
qed

lemma next_row_shows:
  "shows_text H W hist t \<Longrightarrow>
     \<exists>t'. next_row t = Inr t' \<and> shows_text H W (hist @ [[]]) t' \<and> cursor_x (terminal t') = 0"
  using next_row_ok [of H W t] by (auto simp: shows_text_def last_rows_snoc)

lemma shows_text_draw:
  "shows_text H W hist t \<Longrightarrow> shows_text H W hist (draw_char c x y t)"
  using draw_char_rest [where t = t]
  by (simp add: shows_text_def console_ok_def displayed_def same_device_def)

lemma print_here_shows:
  assumes "shows_text H W hist t" and "unat (cursor_x (terminal t)) < W" and "printable c" and "c \<noteq> 0xA"
  shows "\<exists>t'. seq (print_char c (cursor_x (terminal t)) (cursor_y (terminal t)) t) (store_char c) = Inr t' \<and>
    shows_text H W (butlast hist @ [last hist @ [c]]) t'"
proof -
  let ?t = "draw_char c (cursor_x (terminal t)) (cursor_y (terminal t)) t"
  have sh: "shows_text H W hist ?t" by (rule shows_text_draw [OF assms(1)])
  then have ok: "console_ok H W ?t" by (simp add: shows_text_def)
  have "unat (cursor_x (terminal ?t)) < W"
    using assms(2) draw_char_rest(1) [where t = t] by (metis same_device_def)
  from store_char_ok [OF ok this assms(3,4)] obtain t' where
    "store_char c ?t = Inr t'" "console_ok H W t'"
    "displayed t' = butlast (displayed ?t) @ [last (displayed ?t) @ [c]]" by blast
  then show ?thesis
    using shows_text_last [OF sh] assms(3) by (auto simp: shows_text_def print_char_printable)
qed

lemma put_char_shows:
  assumes "shows_text H W hist t" and "printable c"
  shows "\<exists>t'. put_char c t = Inr t' \<and> shows_text H W (add_char W hist c) t'"
proof (cases "c = 0xA")
  case True
  then show ?thesis using next_row_shows [OF assms(1)] by (auto simp: put_char_def add_char_def)
next
  case c: False
  have ok: "console_ok H W t" using assms by (simp add: shows_text_def)
  then have W: "0 < W" "W \<le> 128" "term_width (terminal t) = of_nat W" by (auto simp: console_ok_def)
  have lx: "length (last hist) = unat (cursor_x (terminal t))"
    using displayed_last(3) [OF ok] shows_text_last(1) [OF assms(1)] by simp
  have "unat (of_nat W :: u32) = W" using W by (simp add: unat_of_nat_u32)
  then have full: "cursor_x (terminal t) = term_width (terminal t) \<longleftrightarrow> length (last hist) = W"
    unfolding lx W(3) by (auto simp: word_unat_eq_iff)
  show ?thesis
  proof (cases "length (last hist) = W")
    case True
    obtain t1 where t1: "next_row t = Inr t1" "shows_text H W (hist @ [[]]) t1" "cursor_x (terminal t1) = 0"
      using next_row_shows [OF assms(1)] by blast
    have "unat (cursor_x (terminal t1)) < W" using t1(3) W by simp
    from print_here_shows [OF t1(2) this assms(2) c] show ?thesis
      using c True full t1(1) by (simp add: put_char_def add_char_def)
  next
    case False
    have "length (last hist) \<le> W"
      using displayed_length_le [OF ok] lx displayed_last(3) [OF ok] by simp
    with False have "unat (cursor_x (terminal t)) < W" using lx by simp
    from print_here_shows [OF assms(1) this assms(2) c] show ?thesis
      using c False full by (simp add: put_char_def add_char_def)
  qed
qed

section \<open>Strings\<close>

definition text_ok :: "u8 list \<Rightarrow> bool" where
  "text_ok s \<longleftrightarrow> (\<forall>c \<in> set s. printable c \<and> c \<noteq> 0)"

lemma printcount_loop_shows:
  "shows_text H W hist t \<Longrightarrow> \<forall>j \<in> {i..<i + k}. printable (str j) \<Longrightarrow>
     \<exists>t'. printcount_loop str i k t = Inr t' \<and>
       shows_text H W (foldl (add_char W) hist (map str [i..<i + k])) t'"
proof (induction k arbitrary: i hist t)
  case 0
  then show ?case by simp
next
  case (Suc k)
  have "printable (str i)" using Suc.prems(2) by simp
  from put_char_shows [OF Suc.prems(1) this] obtain t1
    where t1: "put_char (str i) t = Inr t1" "shows_text H W (add_char W hist (str i)) t1" by blast
  have "\<exists>t'. printcount_loop str (Suc i) k t1 = Inr t' \<and>
      shows_text H W (foldl (add_char W) (add_char W hist (str i)) (map str [Suc i..<Suc i + k])) t'"
    using Suc.prems(2) by (intro Suc.IH [OF t1(2)]) auto
  moreover have "map str [i..<i + Suc k] = str i # map str [Suc i..<Suc i + k]"
    by (subst upt_conv_Cons) simp_all
  ultimately show ?case using t1(1) by simp
qed

lemma map_bytes_of: "n \<le> length s \<Longrightarrow> map (bytes_of s) [0..<0 + n] = take n s"
  by (rule nth_equalityI) (auto simp: bytes_of_def)

lemma printcount_shows:
  assumes "shows_text H W hist t" and "nat (sint len) \<le> length s"
    and "\<forall>c \<in> set (take (nat (sint len)) s). printable c"
  shows "\<exists>t'. printcount (bytes_of s) len t = Inr t' \<and>
    shows_text H W (foldl (add_char W) hist (take (nat (sint len)) s)) t'"
proof -
  let ?n = "nat (sint len)"
  have "printable (bytes_of s j)" if "j < ?n" for j
  proof -
    have "take ?n s ! j \<in> set (take ?n s)" using that assms(2) by (intro nth_mem) simp
    then show ?thesis using that assms by (simp add: bytes_of_def)
  qed
  then have "\<forall>j \<in> {0..<0 + ?n}. printable (bytes_of s j)" by auto
  from printcount_loop_shows [OF assms(1) this] show ?thesis
    unfolding printcount_def map_bytes_of [OF assms(2)] .
qed

lemma sint_ucast_u8: "sint (ucast (w :: u8) :: s32) = int (unat w)"
proof -
  have "unat w < 256" using unsigned_less [of w] by simp
  then have "unat w < 2 ^ 31" by simp
  then have "sint (of_nat (unat w) :: s32) = int (unat w)" by (rule sint_of_nat_s32)
  then show ?thesis by simp
qed

lemma strlen_declared_bytes:
  assumes "0 \<notin> set s" and "length s < 2 ^ 32"
  shows "\<exists>w. strlen_declared (bytes_of s) = Some w \<and> unat w = length s mod 256"
proof -
  have "strlen (bytes_of s) = Some (of_nat (length s))"
    using assms(1) by (intro strlen_found) (auto simp: bytes_of_def in_set_conv_nth)
  moreover have "unat (ucast (of_nat (length s) :: u32) :: u8) = length s mod 256"
    using assms(2) by (simp add: unat_ucast_u8 unat_of_nat_u32)
  ultimately show ?thesis by (simp add: strlen_declared_def)
qed

lemma print_shows:
  assumes "shows_text H W hist t" and "text_ok s" and "length s < 2 ^ 32"
  shows "\<exists>t'. print (bytes_of s) t = Some (Inr t') \<and>
    shows_text H W (foldl (add_char W) hist (take (length s mod 256) s)) t'"
proof -
  have "0 \<notin> set s" using assms(2) by (auto simp: text_ok_def)
  from strlen_declared_bytes [OF this assms(3)] obtain w
    where w: "strlen_declared (bytes_of s) = Some w" "unat w = length s mod 256" by blast
  have n: "nat (sint (ucast w :: s32)) = length s mod 256" using w(2) by (simp add: sint_ucast_u8)
  have "\<exists>t'. printcount (bytes_of s) (ucast w) t = Inr t' \<and>
      shows_text H W (foldl (add_char W) hist (take (nat (sint (ucast w :: s32))) s)) t'"
    using assms(1,2) by (intro printcount_shows) (auto simp: n text_ok_def dest: in_set_takeD)
  then show ?thesis unfolding n print_def w(1) by auto
qed

section \<open>Sessions\<close>

primrec print_all :: "u8 list list \<Rightarrow> console \<Rightarrow> console res option" where
  "print_all [] t = Some (Inr t)"
| "print_all (s # ss) t = oseq (print (bytes_of s) t) (print_all ss)"

lemma print_all_shows:
  "shows_text H W hist t \<Longrightarrow> \<forall>s \<in> set ss. text_ok s \<and> length s < 2 ^ 32 \<Longrightarrow>
     \<exists>t'. print_all ss t = Some (Inr t') \<and>
       shows_text H W (foldl (add_char W) hist (concat (map (\<lambda>s. take (length s mod 256) s) ss))) t'"
proof (induction ss arbitrary: hist t)
  case Nil
  then show ?case by simp
next
  case (Cons s ss)
  then obtain t1 where t1: "print (bytes_of s) t = Some (Inr t1)"
    "shows_text H W (foldl (add_char W) hist (take (length s mod 256) s)) t1"
    using print_shows [OF Cons.prems(1), of s] by auto
  from Cons.IH [OF t1(2)] Cons.prems(2) t1(1) show ?case by simp
qed

lemma init_shows:
  assumes "init_text_terminal m font info t0 = Inr t"
    and "unat (term_height (terminal t)) = H" and "unat (term_width (terminal t)) = W"
    and "0 < H" and "H \<le> 95" and "0 < W" and "W \<le> 128"
  shows "shows_text H W [[]] t"
proof -
  have tm: "cursor_x (terminal t) = 0" "cursor_y (terminal t) = 0"
    "rows t = replicate 96 \<lparr>characters = replicate 128 0, row_length = 0\<rparr>"
    using assms(1) by (auto simp: init_text_terminal_def Let_def split: if_splits)
  have "term_height (terminal t) = of_nat H" "term_width (terminal t) = of_nat W"
    using assms(2,3) by (auto dest: word_eq_of_unat)
  moreover have "displayed t = [[]]" by (simp add: displayed_def tm)
  ultimately show ?thesis
    using assms(4-) tm
    by (auto simp: shows_text_def console_ok_def row_ok_def last_rows_short in_set_replicate)
qed

text \<open>C12 terminal_shows_last_rows. After set-up, on a screen of at most 95 rows and 128 columns,
  any series of prints of ASCII text succeeds, and the rows of the buffer up to the cursor are
  exactly the last rows of the whole text laid out at the width of the screen, where of each
  string only the first (length mod 256) characters count, as the 8-bit \<open>strlen\<close> says.\<close>
theorem terminal_shows_last_rows:
  assumes "init_text_terminal m font info t0 = Inr t"
    and "unat (term_height (terminal t)) = H" and "unat (term_width (terminal t)) = W"
    and "0 < H" and "H \<le> 95" and "0 < W" and "W \<le> 128"
    and "\<forall>s \<in> set ss. text_ok s \<and> length s < 2 ^ 32"
  shows "\<exists>t'. print_all ss t = Some (Inr t') \<and>
    displayed t' = last_rows H (layout W (concat (map (\<lambda>s. take (length s mod 256) s) ss)))"
  using print_all_shows [OF init_shows [OF assms(1-7)] assms(8)]
  by (auto simp: shows_text_def layout_def)

text \<open>A font of 8 by 16 pixels: the header fields at 24 and 28.\<close>

definition font_memory :: memory where
  "font_memory = store32 (store32 (\<lambda>_. 0) 0x5018 16) 0x501C 8"

definition blank_console :: console where
  "blank_console =
     \<lparr>glyphs = [], psf_header = \<lparr>psf_magic = 0, psf_version = 0, psf_headersize = 0, psf_flags = 0,
        psf_numglyphs = 0, psf_bytesperglyph = 0, psf_height = 0, psf_width = 0\<rparr>,
      terminal = \<lparr>cursor_x = 0, cursor_y = 0, term_color = 0, term_height = 0, term_width = 0\<rparr>,
      rows = [], vesa_info = sample_info, screen = \<lambda>_. 0, interrupts = False\<rparr>"

lemma font_memory_size: "load32 font_memory 0x5018 = 16" "load32 font_memory 0x501C = 8"
  by (simp_all add: font_memory_def acc32.ld_st_separate separate_def)

lemma sample_init:
  "\<exists>t. init_text_terminal font_memory 0x5000 sample_info blank_console = Inr t \<and>
    unat (term_height (terminal t)) = 48 \<and> unat (term_width (terminal t)) = 128 \<and>
    psf_height (psf_header t) = 16 \<and> psf_width (psf_header t) = 8 \<and> vesa_info t = sample_info \<and>
    term_color (terminal t) = 0x000F00 \<and> screen t = (\<lambda>_. 0) \<and> length (glyphs t) = 256 \<and>
    (\<forall>g \<in> set (glyphs t). length g = 16)"
proof -
  have "vbe_height sample_info = 768" "vbe_width sample_info = 1024" by (simp_all add: sample_info_def)
  then show ?thesis
    using font_memory_size
    by (simp add: init_text_terminal_def install_font_def get_vesainfo_def blank_console_def Let_def
        unat_div)
qed

lemma text_ok_chars: "text_ok (chars ''EKA '')" "text_ok (chars ''TOINEN '')" "text_ok [0xA]"
  by (simp_all add: text_ok_def chars_def printable_def)

theorem terminal_shows_last_rows_witness:
  "\<exists>t t'. init_text_terminal font_memory 0x5000 sample_info blank_console = Inr t \<and>
     print_all [chars ''EKA '', [0xA], chars ''TOINEN ''] t = Some (Inr t') \<and>
     displayed t' = [chars ''EKA '', chars ''TOINEN '']"
proof -
  obtain t where t: "init_text_terminal font_memory 0x5000 sample_info blank_console = Inr t"
    "unat (term_height (terminal t)) = 48" "unat (term_width (terminal t)) = 128"
    using sample_init by blast
  have "\<forall>s \<in> set [chars ''EKA '', [0xA], chars ''TOINEN '']. text_ok s \<and> length s < 2 ^ 32"
    using text_ok_chars by (simp add: chars_def)
  moreover have "layout 128 (concat (map (\<lambda>s. take (length s mod 256) s) [chars ''EKA '', [0xA], chars ''TOINEN ''])) =
      [chars ''EKA '', chars ''TOINEN '']"
    by (simp add: layout_def add_char_def chars_def)
  ultimately show ?thesis
    using terminal_shows_last_rows [OF t, of "[chars ''EKA '', [0xA], chars ''TOINEN '']"] t(1)
    by (simp add: last_rows_short)
qed

section \<open>Numbers on the screen\<close>

lemma printable_ascii: "unat c < 128 \<Longrightarrow> printable c"
proof -
  have "sint (of_nat n :: u8) = int n" if "n < 128" for n
    using that by (simp add: signed_of_nat signed_take_bit_int_eq_self)
  from this [of "unat c"] show "unat c < 128 \<Longrightarrow> printable c" by (simp add: printable_def)
qed

lemma low_digits_printable:
  "2 \<le> r \<Longrightarrow> r \<le> 36 \<Longrightarrow> c \<in> set (low_digits r v) \<Longrightarrow> printable c"
proof (induction r v rule: low_digits.induct)
  case (1 r v)
  have m: "v mod r < 36" using "1.prems" by (meson less_le_trans mod_less_divisor zero_less_numeral)
  have "c = digit_char (of_nat (v mod r)) \<or> (\<not> (r < 2 \<or> v div r = 0) \<and> c \<in> set (low_digits r (v div r)))"
    using "1.prems"(3) by (subst (asm) low_digits.simps) (auto split: if_splits)
  then show ?case
  proof
    assume "c = digit_char (of_nat (v mod r))"
    with m show ?thesis by (auto intro!: printable_ascii simp: unat_digit_char)
  next
    assume "\<not> (r < 2 \<or> v div r = 0) \<and> c \<in> set (low_digits r (v div r))"
    then show ?thesis using "1.IH" "1.prems" by simp
  qed
qed

lemma print_digits_shows:
  assumes "shows_text H W hist t" and "2 \<le> r" and "r \<le> 36" and "length (low_digits r v) \<le> 21"
  shows "\<exists>t'. oseq (Some (printcount (bytes_of (rev (low_digits r v))) (of_nat (length (low_digits r v))) t))
      (print (bytes_of [0xA])) = Some (Inr t') \<and>
    shows_text H W (foldl (add_char W) hist (rev (low_digits r v) @ [0xA])) t'"
proof -
  let ?ds = "rev (low_digits r v)"
  have n: "nat (sint (of_nat (length (low_digits r v)) :: s32)) = length ?ds"
    using assms(4) by (subst sint_of_nat_s32) auto
  have "\<exists>t'. printcount (bytes_of ?ds) (of_nat (length (low_digits r v))) t = Inr t' \<and>
      shows_text H W (foldl (add_char W) hist (take (length ?ds) ?ds)) t'"
    unfolding n [symmetric]
    using assms(1) low_digits_printable [OF assms(2,3)] n by (intro printcount_shows) (auto dest: in_set_takeD)
  then obtain t1 where t1: "printcount (bytes_of ?ds) (of_nat (length (low_digits r v))) t = Inr t1"
    "shows_text H W (foldl (add_char W) hist ?ds) t1" by auto
  from print_shows [OF t1(2) text_ok_chars(3)] show ?thesis
    using t1(1) by simp
qed

lemma length_low_digits_u64: "length (low_digits 10 (unat (n :: u64))) \<le> 21" "length (low_digits 16 (unat (n :: u64))) \<le> 21"
  using length_low_digits [OF _ unat_less_10_20, of n] length_low_digits [OF _ unat_less_16_16, of n] by simp_all

text \<open>Lemma print_hex_shows. Printing a number in hexadecimal, or in decimal, always succeeds and
  adds to the text on the screen the prefix, the digits, which read back as the number, and a
  newline.\<close>
theorem print_hex_shows:
  assumes "shows_text H W hist t"
  shows "\<exists>h d t' t''. print_hex n t = Some (Inr t') \<and> print_int n t = Some (Inr t'') \<and>
    parse_number 16 h = unat n \<and> parse_number 10 d = unat n \<and>
    shows_text H W (foldl (add_char W) hist (chars ''0x'' @ h @ [0xA])) t' \<and>
    shows_text H W (foldl (add_char W) hist (d @ [0xA])) t''"
proof -
  let ?h = "rev (low_digits 16 (unat n))" and ?d = "rev (low_digits 10 (unat n))"
  have "text_ok (chars ''0x'')" by (simp add: text_ok_def chars_def printable_def)
  from print_shows [OF assms this] obtain t1 where t1: "print (bytes_of (chars ''0x'')) t = Some (Inr t1)"
    "shows_text H W (foldl (add_char W) hist (chars ''0x'')) t1" by (auto simp: chars_def)
  from print_digits_shows [OF t1(2), of 16 "unat n"] length_low_digits_u64 [of n] obtain t'
    where t': "oseq (Some (printcount (bytes_of ?h) (of_nat (length ?h)) t1)) (print (bytes_of [0xA])) = Some (Inr t')"
    "shows_text H W (foldl (add_char W) (foldl (add_char W) hist (chars ''0x'')) (?h @ [0xA])) t'" by auto
  from print_digits_shows [OF assms, of 10 "unat n"] length_low_digits_u64 [of n] obtain t''
    where t'': "oseq (Some (printcount (bytes_of ?d) (of_nat (length ?d)) t)) (print (bytes_of [0xA])) = Some (Inr t'')"
    "shows_text H W (foldl (add_char W) hist (?d @ [0xA])) t''" by auto
  have "print_hex n t = Some (Inr t')" "print_int n t = Some (Inr t'')"
    using t1(1) t'(1) t''(1) by (simp_all add: print_hex_def print_int_def itoa_hexadecimal itoa_decimal)
  then show ?thesis
    using t'(2) t''(2) parse_low_digits [of 16 "unat n"] parse_low_digits [of 10 "unat n"]
    by (intro exI [of _ ?h] exI [of _ ?d] exI [of _ t'] exI [of _ t'']) simp
qed

theorem print_hex_shows_witness:
  "\<exists>t t'. init_text_terminal font_memory 0x5000 sample_info blank_console = Inr t \<and>
     print_hex 0xFEE00000 t = Some (Inr t')"
proof -
  obtain t where t: "init_text_terminal font_memory 0x5000 sample_info blank_console = Inr t"
    "unat (term_height (terminal t)) = 48" "unat (term_width (terminal t)) = 128"
    using sample_init by blast
  from init_shows [OF t] have "shows_text 48 128 [[]] t" by simp
  from print_hex_shows [OF this, of "0xFEE00000"] show ?thesis using t(1) by blast
qed

section \<open>What the terminal does not handle\<close>

text \<open>Lemma print_stops_at_unprintable. A byte outside ASCII other than \<open>0xC3\<close> makes the printer
  index the glyph table out of bounds, at the first such byte among the characters it prints.\<close>
theorem print_stops_at_unprintable:
  assumes "shows_text H W hist t" and "text_ok s" and "\<not> printable c" and "c \<noteq> 0" and "0 \<notin> set r"
    and "length (s @ c # r) < 256"
  shows "print (bytes_of (s @ c # r)) t = Some (Inl Out_Of_Bounds)"
proof -
  let ?s = "s @ c # r"
  have "0 \<notin> set ?s" using assms by (auto simp: text_ok_def)
  moreover have "length ?s < 2 ^ 32" using assms(6) by simp
  ultimately obtain w where w: "strlen_declared (bytes_of ?s) = Some w" "unat w = length ?s mod 256"
    using strlen_declared_bytes by blast
  have n: "nat (sint (ucast w :: s32)) = length s + Suc (length r)"
    using w(2) assms(6) by (simp add: sint_ucast_u8)
  have c10: "c \<noteq> 0xA" using assms(3) by (auto simp: printable_def)
  have fault: "put_char c t = Inl Out_Of_Bounds" if "shows_text H W h t" for h t
    using next_row_shows [OF that] c10 assms(3)
    by (auto simp: put_char_def print_char_unprintable)
  have "printcount_loop str i (length s + Suc k) t = Inl Out_Of_Bounds"
    if "shows_text H W hist t" "\<forall>j < length s. str (i + j) = s ! j" "str (i + length s) = c" for str i k
    using that assms(2)
  proof (induction s arbitrary: i t hist)
    case Nil
    then show ?case using fault by simp
  next
    case (Cons a s)
    have "str i = a" using Cons.prems(2) by (metis add.right_neutral length_greater_0_conv list.distinct(1) nth_Cons_0)
    then obtain t1 where t1: "put_char (str i) t = Inr t1" "shows_text H W (add_char W hist (str i)) t1"
      using put_char_shows [OF Cons.prems(1)] Cons.prems(4) by (auto simp: text_ok_def)
    have "\<forall>j < length s. str (Suc i + j) = s ! j"
      using Cons.prems(2) by (metis Suc_less_eq add_Suc_shift length_Cons nth_Cons_Suc)
    moreover have "str (Suc i + length s) = c" using Cons.prems(3) by simp
    moreover have "text_ok s" using Cons.prems(4) by (simp add: text_ok_def)
    ultimately show ?case using Cons.IH [OF t1(2)] t1(1) by simp
  qed
  moreover have "\<forall>j < length s. bytes_of ?s (0 + j) = s ! j" "bytes_of ?s (0 + length s) = c"
    by (simp_all add: bytes_of_def nth_append)
  ultimately have "printcount_loop (bytes_of ?s) 0 (length s + Suc (length r)) t = Inl Out_Of_Bounds"
    using assms(1) by blast
  then show ?thesis by (simp add: print_def w(1) printcount_def n del: add_Suc_right)
qed

theorem print_stops_at_unprintable_witness:
  "\<exists>t. init_text_terminal font_memory 0x5000 sample_info blank_console = Inr t \<and>
     print (bytes_of [0x41, 0xE4]) t = Some (Inl Out_Of_Bounds)"
proof -
  obtain t where t: "init_text_terminal font_memory 0x5000 sample_info blank_console = Inr t"
    "unat (term_height (terminal t)) = 48" "unat (term_width (terminal t)) = 128"
    using sample_init by blast
  from init_shows [OF t] have "shows_text 48 128 [[]] t" by simp
  from print_stops_at_unprintable [OF this, where s = "[0x41]" and c = "0xE4" and r = "[]"] show ?thesis
    using t(1) by (auto simp: text_ok_def printable_def)
qed

text \<open>Lemma large_screen_overruns. On a screen wider than 128 characters the 129th character of a row
  is stored behind the row's array; on one of at least 96 rows scrolling reads a row behind the
  table.\<close>
theorem large_screen_overruns:
  assumes "length (rows t) = 96" and "\<forall>r \<in> set (rows t). row_ok 128 r"
  shows "(cursor_x (terminal t) = 128 \<and> 128 < term_width (terminal t) \<and> printable c \<and> c \<noteq> 0xA \<longrightarrow>
      put_char c t = Inl Out_Of_Bounds) \<and>
    (96 \<le> unat (term_height (terminal t)) \<longrightarrow> scroll t = Inl Out_Of_Bounds)"
proof (intro conjI impI)
  assume a: "cursor_x (terminal t) = 128 \<and> 128 < term_width (terminal t) \<and> printable c \<and> c \<noteq> 0xA"
  let ?t = "draw_char c (cursor_x (terminal t)) (cursor_y (terminal t)) t"
  have "length (characters (rows t ! y)) \<le> 128" if "y < 96" for y
    using assms that by (simp add: row_ok_def)
  from this [of "unat (cursor_y (terminal t))"] have "store_char c ?t = Inl Out_Of_Bounds"
    using a assms(1) by (auto simp: store_char_def Let_def not_le)
  then show "put_char c t = Inl Out_Of_Bounds"
    using a by (auto simp: put_char_def print_char_printable)
next
  assume "96 \<le> unat (term_height (terminal t))"
  then obtain k where "unat (term_height (terminal t)) = 96 + k" using le_Suc_ex by blast
  then have k: "unat (term_height (terminal t)) = 95 + Suc k" by simp
  have loop: "scroll_loop y (n + Suc k) t = Inl Out_Of_Bounds"
    if "y + n = 95" "length (rows t) = 96" "\<forall>r \<in> set (rows t). row_ok 128 r" for y n t
    using that
  proof (induction n arbitrary: y t)
    case 0
    then show ?case
      by (simp add: scroll_row_cleared cleared_rest)
  next
    case (Suc n)
    obtain r where r: "scroll_row y t = Inr (draw_row y (set_row y r (cleared y t)))" "row_ok 128 r"
      using scroll_row_ok [of t y 128] Suc.prems by auto
    let ?t = "draw_row y (set_row y r (cleared y t))"
    have rw: "rows ?t = (rows t)[y := r]" by (simp add: draw_row_rest cleared_rest)
    have "\<forall>r \<in> set (rows ?t). row_ok 128 r"
      using Suc.prems(3) r(2) set_update_subset_insert [of "rows t" y r] unfolding rw by blast
    then show ?case using Suc.IH [of "Suc y" ?t] Suc.prems r(1) rw by simp
  qed
  show "scroll t = Inl Out_Of_Bounds"
    using loop [of 0 95 "t\<lparr>interrupts := False\<rparr>"] assms by (simp add: scroll_def k)
qed

theorem large_screen_overruns_witness:
  "scroll (blank_console\<lparr>rows := replicate 96 \<lparr>characters = replicate 128 0, row_length = 0\<rparr>,
     terminal := (terminal blank_console)\<lparr>term_height := 128\<rparr>\<rparr>) = Inl Out_Of_Bounds"
  using large_screen_overruns [of "blank_console\<lparr>rows := replicate 96 \<lparr>characters = replicate 128 0, row_length = 0\<rparr>,
     terminal := (terminal blank_console)\<lparr>term_height := 128\<rparr>\<rparr>"]
  by (simp add: row_ok_def)

end
