(* ===== verification/PrintStep.thy ===== *)
theory PrintStep
  imports TerminalText
begin

text \<open>
  Everything the terminal of \<open>kernel/utils/text_terminal.c\<close> prints goes through \<open>put_char\<close>, one
  character after the other. A relation between the terminal before and after that holds for
  one character and can be chained therefore holds for every string and every number printed.
\<close>

locale print_relation =
  fixes R :: "nat \<Rightarrow> nat \<Rightarrow> u8 list list \<Rightarrow> console \<Rightarrow> u8 list list \<Rightarrow> console \<Rightarrow> bool"
  assumes rel_refl: "shows_text H W hist t \<Longrightarrow> R H W hist t hist t"
    and rel_trans: "R H W hist t hist' t' \<Longrightarrow> R H W hist' t' hist'' t'' \<Longrightarrow> R H W hist t hist'' t''"
    and rel_put: "shows_text H W hist t \<Longrightarrow> printable c \<Longrightarrow> put_char c t = Inr t' \<Longrightarrow>
      R H W hist t (add_char W hist c) t'"
begin

lemma rel_loop:
  "shows_text H W hist t \<Longrightarrow> \<forall>j \<in> {i..<i + k}. printable (str j) \<Longrightarrow> printcount_loop str i k t = Inr t' \<Longrightarrow>
     R H W hist t (foldl (add_char W) hist (map str [i..<i + k])) t'"
proof (induction k arbitrary: i hist t)
  case 0
  then show ?case by (simp add: rel_refl)
next
  case (Suc k)
  have p: "printable (str i)" using Suc.prems(2) by simp
  from put_char_shows [OF Suc.prems(1) p] obtain t1
    where t1: "put_char (str i) t = Inr t1" "shows_text H W (add_char W hist (str i)) t1" by blast
  have "R H W (add_char W hist (str i)) t1
      (foldl (add_char W) (add_char W hist (str i)) (map str [Suc i..<Suc i + k])) t'"
    using Suc.prems(2,3) t1(1) by (intro Suc.IH [OF t1(2)]) auto
  moreover have "map str [i..<i + Suc k] = str i # map str [Suc i..<Suc i + k]"
    by (subst upt_conv_Cons) simp_all
  ultimately show ?case using rel_trans [OF rel_put [OF Suc.prems(1) p t1(1)]] by simp
qed

lemma rel_printcount:
  assumes "shows_text H W hist t" and "nat (sint len) \<le> length s"
    and "\<forall>c \<in> set (take (nat (sint len)) s). printable c"
  shows "\<exists>t'. printcount (bytes_of s) len t = Inr t' \<and>
    shows_text H W (foldl (add_char W) hist (take (nat (sint len)) s)) t' \<and>
    R H W hist t (foldl (add_char W) hist (take (nat (sint len)) s)) t'"
proof -
  let ?n = "nat (sint len)"
  have "printable (bytes_of s j)" if "j < ?n" for j
  proof -
    have "take ?n s ! j \<in> set (take ?n s)" using that assms(2) by (intro nth_mem) simp
    then show ?thesis using that assms(2,3) by (simp add: bytes_of_def)
  qed
  then have p: "\<forall>j \<in> {0..<0 + ?n}. printable (bytes_of s j)" by auto
  obtain t' where t': "printcount (bytes_of s) len t = Inr t'"
    "shows_text H W (foldl (add_char W) hist (take ?n s)) t'"
    using printcount_shows [OF assms] by blast
  moreover have "R H W hist t (foldl (add_char W) hist (take ?n s)) t'"
    using rel_loop [OF assms(1) p] t'(1) unfolding printcount_def map_bytes_of [OF assms(2)] by blast
  ultimately show ?thesis by blast
qed

lemma rel_print:
  assumes "shows_text H W hist t" and "text_ok s" and "length s < 256"
  shows "\<exists>t'. print (bytes_of s) t = Some (Inr t') \<and> shows_text H W (foldl (add_char W) hist s) t' \<and>
    R H W hist t (foldl (add_char W) hist s) t'"
proof -
  have "0 \<notin> set s" using assms(2) by (auto simp: text_ok_def)
  from strlen_declared_bytes [OF this] assms(3) obtain w
    where w: "strlen_declared (bytes_of s) = Some w" "unat w = length s" by auto
  have n: "nat (sint (ucast w :: s32)) = length s" using w(2) by (simp add: sint_ucast_u8)
  show ?thesis
    using rel_printcount [OF assms(1), of "ucast w" s] assms(2) by (simp add: n text_ok_def print_def w(1))
qed

lemma rel_digits:
  assumes "shows_text H W hist t" and "2 \<le> r" and "r \<le> 36" and "length (low_digits r v) \<le> 21"
  shows "\<exists>t'. oseq (Some (printcount (bytes_of (rev (low_digits r v))) (of_nat (length (low_digits r v))) t))
      (print (bytes_of [0xA])) = Some (Inr t') \<and>
    shows_text H W (foldl (add_char W) hist (rev (low_digits r v) @ [0xA])) t' \<and>
    R H W hist t (foldl (add_char W) hist (rev (low_digits r v) @ [0xA])) t'"
proof -
  let ?ds = "rev (low_digits r v)"
  have n: "nat (sint (of_nat (length (low_digits r v)) :: s32)) = length ?ds"
    using assms(4) by (subst sint_of_nat_s32) auto
  have pr: "\<forall>c \<in> set (take (nat (sint (of_nat (length (low_digits r v)) :: s32))) ?ds). printable c"
    using low_digits_printable [OF assms(2,3)] by (auto dest: in_set_takeD)
  obtain t1 where t1: "printcount (bytes_of ?ds) (of_nat (length (low_digits r v))) t = Inr t1"
    "shows_text H W (foldl (add_char W) hist ?ds) t1" "R H W hist t (foldl (add_char W) hist ?ds) t1"
    using rel_printcount [OF assms(1) _ pr] unfolding n by auto
  have "length [0xA :: u8] < 256" by simp
  from rel_print [OF t1(2) text_ok_chars(3) this] rel_trans [OF t1(3)] show ?thesis
    using t1(1) by auto
qed

lemma rel_print_hex:
  assumes "shows_text H W hist t" and "hist' = foldl (add_char W) hist (chars ''0x'' @ rev (low_digits 16 (unat n)) @ [0xA])"
  shows "\<exists>t'. print_hex n t = Some (Inr t') \<and> shows_text H W hist' t' \<and> R H W hist t hist' t'"
proof -
  have "text_ok (chars ''0x'')" "length (chars ''0x'') < 256"
    by (simp_all add: text_ok_def chars_def printable_def)
  from rel_print [OF assms(1) this] obtain t1
    where t1: "print (bytes_of (chars ''0x'')) t = Some (Inr t1)"
      "shows_text H W (foldl (add_char W) hist (chars ''0x'')) t1"
      "R H W hist t (foldl (add_char W) hist (chars ''0x'')) t1" by blast
  from rel_digits [OF t1(2), of 16 "unat n"] length_low_digits_u64 [of n] obtain t'
    where t': "oseq (Some (printcount (bytes_of (rev (low_digits 16 (unat n)))) (of_nat (length (low_digits 16 (unat n)))) t1))
        (print (bytes_of [0xA])) = Some (Inr t')"
      "shows_text H W hist' t'" "R H W (foldl (add_char W) hist (chars ''0x'')) t1 hist' t'"
    unfolding assms(2) foldl_append by auto
  then have "print_hex n t = Some (Inr t')"
    using t1(1) by (simp add: print_hex_def itoa_hexadecimal)
  then show ?thesis using t'(2) rel_trans [OF t1(3) t'(3)] by blast
qed

end

section \<open>Strings in memory\<close>

lemma printcount_loop_cong:
  "\<forall>j \<in> {i..<i + k}. str j = str' j \<Longrightarrow> printcount_loop str i k = printcount_loop str' i k"
proof (induction k arbitrary: i)
  case (Suc k)
  have "printcount_loop str (Suc i) k = printcount_loop str' (Suc i) k" using Suc.prems by (intro Suc.IH) auto
  moreover have "str i = str' i" using Suc.prems by simp
  ultimately show ?case by (intro ext) simp
qed (intro ext, simp)

text \<open>A string that ends with a zero byte, wherever its characters are read from.\<close>

lemma print_reader:
  assumes "\<forall>i < n. str i = s ! i" and "str n = 0" and "length s = n" and "0 \<notin> set s" and "n < 256"
  shows "print str = print (bytes_of s)"
proof -
  have s: "bytes_of s i = s ! i" if "i < n" for i using that assms(3) by (simp add: bytes_of_def)
  have nz: "s ! i \<noteq> 0" if "i < n" for i using that assms(3,4) by (auto simp: in_set_conv_nth)
  have "strlen str = Some (of_nat n)" "strlen (bytes_of s) = Some (of_nat n)"
    using assms nz s by (auto intro!: strlen_found simp: bytes_of_def)
  moreover have "nat (sint (ucast (ucast (of_nat n :: u32) :: u8) :: s32)) = n"
    using assms(5) by (simp add: sint_ucast_u8 unat_ucast_u8 unat_of_nat_u32)
  moreover have "printcount_loop str 0 n = printcount_loop (bytes_of s) 0 n"
    using assms(1) s by (intro printcount_loop_cong) auto
  ultimately show ?thesis by (simp add: fun_eq_iff print_def strlen_declared_def printcount_def)
qed

end
