(* ===== verification/TerminalFrame.thy ===== *)
theory TerminalFrame
  imports PrintStep
begin

text \<open>
  What the drawing routines of \<open>kernel/utils/vesa.c\<close> and \<open>kernel/utils/text_terminal.c\<close> leave
  alone, in a mode of any depth: they write to the framebuffer only, from its first byte to the
  end of the pixel below and to the right of the last cell.
\<close>

section \<open>Where the pixels are\<close>

definition pixel_bytes :: "vbe_mode_info \<Rightarrow> nat" where
  "pixel_bytes info = unat (vbe_bpp info) div 8"

text \<open>The bytes up to line \<open>Y\<close>, column \<open>X\<close>, whose write takes four bytes in any mode.\<close>

definition extent :: "vbe_mode_info \<Rightarrow> nat \<Rightarrow> nat \<Rightarrow> nat" where
  "extent info X Y = Y * unat (vbe_pitch info) + X * pixel_bytes info + 4"

definition in_frame :: "vbe_mode_info \<Rightarrow> nat \<Rightarrow> nat \<Rightarrow> u64 \<Rightarrow> bool" where
  "in_frame info X Y x \<longleftrightarrow> unat (vbe_framebuffer info) \<le> unat x \<and>
     unat x < unat (vbe_framebuffer info) + extent info X Y"

definition frame_fits :: "vbe_mode_info \<Rightarrow> nat \<Rightarrow> nat \<Rightarrow> bool" where
  "frame_fits info X Y \<longleftrightarrow> unat (vbe_framebuffer info) + extent info X Y \<le> 2 ^ 32"

lemma extent_mono: "x \<le> X \<Longrightarrow> y \<le> Y \<Longrightarrow> extent info x y \<le> extent info X Y"
  by (simp add: extent_def add_mono mult_le_mono1)

lemma in_frame_mono: "in_frame info x y a \<Longrightarrow> x \<le> X \<Longrightarrow> y \<le> Y \<Longrightarrow> in_frame info X Y a"
  using extent_mono [of x X y Y info] by (simp add: in_frame_def)

lemma frame_fits_mono: "frame_fits info X Y \<Longrightarrow> x \<le> X \<Longrightarrow> y \<le> Y \<Longrightarrow> frame_fits info x y"
  using extent_mono [of x X y Y info] by (simp add: frame_fits_def)

lemma pixel_address_unat:
  assumes "frame_fits info X Y"
  shows "unat (pixel_address info (of_nat X) (of_nat Y)) =
    unat (vbe_framebuffer info) + Y * unat (vbe_pitch info) + X * pixel_bytes info"
proof -
  have p: "(ucast (vbe_pitch info) :: u32) = of_nat (unat (vbe_pitch info))"
    and b: "(ucast (vbe_bpp info) :: u32) = of_nat (unat (vbe_bpp info))"
    by simp_all
  have "unat (vbe_bpp info) < 256" using unsigned_less [of "vbe_bpp info"] by simp
  then have "unat (vbe_bpp info) < 2 ^ 32" by simp
  then have "unat (ucast (vbe_bpp info) :: u32) = unat (vbe_bpp info)"
    unfolding b by (rule unat_of_nat_u32)
  then have "unat (ucast (vbe_bpp info) div 8 :: u32) = pixel_bytes info"
    by (simp add: unat_div pixel_bytes_def)
  then have d: "(ucast (vbe_bpp info) div 8 :: u32) = of_nat (pixel_bytes info)"
    by (rule word_eq_of_unat)
  have "of_nat Y * ucast (vbe_pitch info) + of_nat X * (ucast (vbe_bpp info) div 8) + vbe_framebuffer info =
      (of_nat (unat (vbe_framebuffer info) + Y * unat (vbe_pitch info) + X * pixel_bytes info) :: u32)"
    unfolding p d by simp
  then show ?thesis
    using assms unfolding pixel_address_def
    by (simp add: unat_ucast_u32 unat_of_nat_u32 frame_fits_def extent_def del: of_nat_add)
qed

lemma store_pixel_frame:
  assumes "frame_fits info X Y" and "\<not> in_frame info X Y x"
  shows "store32 m (pixel_address info (of_nat X) (of_nat Y)) c x = m x"
proof -
  let ?a = "pixel_address info (of_nat X) (of_nat Y)"
  note a = pixel_address_unat [OF assms(1)]
  have "unat ?a + 4 \<le> 2 ^ 64" using assms(1) unfolding a frame_fits_def extent_def by simp
  then have "\<not> in_range x ?a 4" using in_range_iff [of ?a 4 x] assms(2) a by (auto simp: in_frame_def extent_def)
  then show ?thesis by (rule acc32.st_outside)
qed

lemma pixel_frame:
  assumes "frame_fits info X Y" and "\<not> in_frame info X Y a" and "x \<le> X" and "y \<le> Y"
  shows "SET_PIXEL_COLOR info (of_nat x) (of_nat y) c m a = m a"
    and "CLEAR_PIXEL info (of_nat x) (of_nat y) m a = m a"
proof -
  have "\<not> in_frame info x y a" using in_frame_mono [OF _ assms(3,4)] assms(2) by blast
  note out = store_pixel_frame [OF frame_fits_mono [OF assms(1,3,4)] this]
  show "SET_PIXEL_COLOR info (of_nat x) (of_nat y) c m a = m a" unfolding SET_PIXEL_COLOR_def by (rule out)
  show "CLEAR_PIXEL info (of_nat x) (of_nat y) m a = m a" unfolding CLEAR_PIXEL_def by (rule out)
qed

lemma fold_keeps: "(\<And>i m. i \<in> set is \<Longrightarrow> f i m a = m a) \<Longrightarrow> fold f is m a = m a"
  by (induction "is" arbitrary: m) auto

lemma draw_rectangle_frame:
  assumes "frame_fits info X Y" and "\<not> in_frame info X Y a"
    and "nat (sint w) + x \<le> X" and "nat (sint h) + y \<le> Y"
  shows "draw_rectangle info (of_nat x) (of_nat y) w h m a = m a"
  unfolding draw_rectangle_def
proof (intro fold_keeps)
  fix i j and m :: memory
  assume "i \<in> set [0..<nat (sint h)]" "j \<in> set [0..<nat (sint w)]"
  then show "SET_PIXEL_COLOR info (of_nat x + of_nat j) (of_nat y + of_nat i) 0x00FF00 m a = m a"
    using pixel_frame(1) [OF assms(1,2), of "x + j" "y + i"] assms(3,4) by simp
qed

section \<open>Glyphs and rows\<close>

text \<open>The device: a font of 8 by 16 pixels and a framebuffer below 4 GiB.\<close>

definition device_fits :: "nat \<Rightarrow> nat \<Rightarrow> console \<Rightarrow> bool" where
  "device_fits H W t \<longleftrightarrow> psf_width (psf_header t) = 8 \<and> psf_height (psf_header t) = 16 \<and>
     frame_fits (vesa_info t) (8 * W) (16 * H)"

text \<open>The step changes no memory but the framebuffer.\<close>

definition frame_only :: "nat \<Rightarrow> nat \<Rightarrow> console \<Rightarrow> console \<Rightarrow> bool" where
  "frame_only H W t t' \<longleftrightarrow> vesa_info t' = vesa_info t \<and> psf_header t' = psf_header t \<and>
     (\<forall>a. \<not> in_frame (vesa_info t) (8 * W) (16 * H) a \<longrightarrow> screen t' a = screen t a)"

lemma frame_only_refl [simp]: "frame_only H W t t"
  by (simp add: frame_only_def)

lemma frame_only_trans: "frame_only H W t t' \<Longrightarrow> frame_only H W t' t'' \<Longrightarrow> frame_only H W t t''"
  by (simp add: frame_only_def)

lemma frame_only_fits: "frame_only H W t t' \<Longrightarrow> device_fits H W t' = device_fits H W t"
  by (simp add: frame_only_def device_fits_def)

lemma draw_char_frame:
  assumes "device_fits H W t" and "x < W" and "y < H"
  shows "frame_only H W t (draw_char c (of_nat x) (of_nat y) t)"
proof -
  let ?X = "8 * W" and ?Y = "16 * H"
  have f: "frame_fits (vesa_info t) ?X ?Y" using assms(1) by (simp add: device_fits_def)
  have "screen (render_glyph g (of_nat x * 8) (of_nat y * 16) t) a = screen t a"
    if a: "\<not> in_frame (vesa_info t) ?X ?Y a" for g a
    unfolding render_glyph_def screen_update
  proof (intro fold_keeps)
    fix row col :: nat and m :: memory
    assume "row \<in> set [0..<16]" "col \<in> set [0..<8]"
    then have "draw_pixel t (of_nat x * 8 + of_nat col) (of_nat y * 16 + of_nat row) m a = m a"
      using pixel_frame(1) [OF f a, of "8 * x + col" "16 * y + row"] assms(2,3)
      by (simp add: draw_pixel_def mult.commute)
    then show "(if (ucast (g ! row) :: s32) AND push_bit (7 - col) 1 \<noteq> 0
        then draw_pixel t (of_nat x * 8 + of_nat col) (of_nat y * 16 + of_nat row) m else m) a = m a"
      by simp
  qed
  moreover have "same_device t (draw_char c (of_nat x) (of_nat y) t)" by simp
  ultimately show ?thesis
    using assms(1) by (simp add: frame_only_def same_device_def draw_char_def device_fits_def)
qed

lemma clear_glyph_frame:
  assumes "device_fits H W t" and "x < W" and "y < H"
  shows "frame_only H W t (clear_glyph (of_nat x * 8) (of_nat y * 16) t)"
proof -
  let ?X = "8 * W" and ?Y = "16 * H"
  have f: "frame_fits (vesa_info t) ?X ?Y" using assms(1) by (simp add: device_fits_def)
  have "screen (clear_glyph (of_nat x * 8) (of_nat y * 16) t) a = screen t a"
    if a: "\<not> in_frame (vesa_info t) ?X ?Y a" for a
    unfolding clear_glyph_def screen_update
  proof (intro fold_keeps)
    fix row col :: nat and m :: memory
    assume "row \<in> set [0..<17]" "col \<in> set [0..<9]"
    then show "CLEAR_PIXEL (vesa_info t) (of_nat x * 8 + of_nat col) (of_nat y * 16 + of_nat row) m a = m a"
      using pixel_frame(2) [OF f a, of "8 * x + col" "16 * y + row"] assms(2,3) by (simp add: mult.commute)
  qed
  then show ?thesis by (simp add: frame_only_def clear_glyph_def)
qed

lemma fold_frame_only:
  "device_fits H W t \<Longrightarrow> (\<And>i t. i \<in> set is \<Longrightarrow> device_fits H W t \<Longrightarrow> frame_only H W t (f i t)) \<Longrightarrow>
     frame_only H W t (fold f is t)"
proof (induction "is" arbitrary: t)
  case (Cons i "is")
  have "frame_only H W t (f i t)" using Cons.prems by simp
  then show ?case using Cons.IH [of "f i t"] Cons.prems frame_only_fits frame_only_trans by fastforce
qed simp

lemma cleared_frame:
  assumes "device_fits H W t" and "y < H" and "unat (row_length (rows t ! y)) \<le> W"
  shows "frame_only H W t (cleared y t)"
proof -
  have "psf_width (psf_header t) = 8" "psf_height (psf_header t) = 16" using assms(1) by (simp_all add: device_fits_def)
  then show ?thesis
    unfolding cleared_def using assms(2,3) by (simp, intro fold_frame_only assms(1) clear_glyph_frame) auto
qed

lemma draw_row_frame:
  assumes "device_fits H W t" and "y < H" and "unat (row_length (rows t ! y)) \<le> W"
  shows "frame_only H W t (draw_row y t)"
  unfolding draw_row_def using assms by (intro fold_frame_only draw_char_frame) auto

text \<open>Steps that leave the screen alone.\<close>

lemma frame_only_rest [simp]:
  "frame_only H W t (set_row y r t)" "frame_only H W t (move_cursor a b t)" "frame_only H W t (t\<lparr>interrupts := i\<rparr>)"
  by (simp_all add: frame_only_def set_row_def)

lemma store_char_frame: "store_char c t = Inr t' \<Longrightarrow> frame_only H W t t'"
  by (auto simp: store_char_def Let_def frame_only_def set_row_def split: if_splits)

lemma scroll_loop_frame:
  assumes "device_fits H W t" and "y + k \<le> H" and "H \<le> 95" and "W \<le> 128" and "length (rows t) = 96"
    and "\<forall>r \<in> set (rows t). row_ok W r" and "scroll_loop y k t = Inr t'"
  shows "frame_only H W t t'"
  using assms
proof (induction k arbitrary: y t)
  case 0
  then show ?case by simp
next
  case (Suc k)
  then obtain r where r: "scroll_row y t = Inr (draw_row y (set_row y r (cleared y t)))" "row_ok W r"
    using scroll_row_ok [of t y W] by auto
  let ?s = "set_row y r (cleared y t)"
  have y: "y < H" "y < length (rows t)" using Suc.prems by auto
  have le: "unat (row_length (rows t ! y)) \<le> W" "unat (row_length r) \<le> W"
    using Suc.prems(6) y(2) r(2) by (auto simp: row_ok_def)
  have s: "frame_only H W t ?s"
    using cleared_frame [OF Suc.prems(1) y(1) le(1)] frame_only_rest(1) by (rule frame_only_trans)
  have "frame_only H W ?s (draw_row y ?s)"
    using y le(2) frame_only_fits [OF s] Suc.prems(1) by (intro draw_row_frame) (auto simp: cleared_rest)
  then have d: "frame_only H W t (draw_row y ?s)" using s frame_only_trans by blast
  have rw: "rows (draw_row y ?s) = (rows t)[y := r]" by (simp add: draw_row_rest cleared_rest)
  have "\<forall>r \<in> set (rows (draw_row y ?s)). row_ok W r"
    using Suc.prems(6) r(2) set_update_subset_insert [of "rows t" y r] unfolding rw by blast
  then have "frame_only H W (draw_row y ?s) t'"
    using Suc.prems r(1) frame_only_fits [OF d] rw by (intro Suc.IH [of _ "Suc y"]) auto
  then show ?case using d frame_only_trans by blast
qed

lemma next_row_frame:
  assumes "console_ok H W t" and "device_fits H W t" and "next_row t = Inr t'"
  shows "frame_only H W t t'"
proof (cases "cursor_y (terminal t) + 1 = term_height (terminal t)")
  case True
  have ok: "H \<le> 95" "W \<le> 128" "length (rows t) = 96" "\<forall>r \<in> set (rows t). row_ok W r"
    "term_height (terminal t) = of_nat H"
    using assms(1) by (auto simp: console_ok_def)
  then have h: "unat (term_height (terminal t)) = H" by (simp add: unat_of_nat_u32)
  let ?t0 = "t\<lparr>interrupts := False\<rparr>"
  obtain t1 where t1: "scroll_loop 0 H ?t0 = Inr t1"
    "t' = move_cursor 0 (cursor_y (terminal t1)) (t1\<lparr>interrupts := True\<rparr>)"
    using assms(3) True h by (auto simp: next_row_def scroll_def elim!: seq_InrE)
  have "frame_only H W ?t0 t1"
    using ok assms(2) by (intro scroll_loop_frame [OF _ _ _ _ _ _ t1(1)]) (auto simp: device_fits_def)
  then show ?thesis unfolding t1(2) by (simp add: frame_only_def)
next
  case False
  then show ?thesis using assms(3) by (auto simp: next_row_def Let_def frame_only_def)
qed

lemma put_char_frame:
  assumes "shows_text H W hist t" and "device_fits H W t" and "printable c" and "put_char c t = Inr t'"
  shows "frame_only H W t t'"
proof (cases "c = 0xA")
  case True
  then show ?thesis using assms next_row_frame by (auto simp: put_char_def shows_text_def)
next
  case False
  have ok: "console_ok H W t" using assms by (simp add: shows_text_def)
  then have W: "0 < W" "W \<le> 128" "term_width (terminal t) = of_nat W" by (auto simp: console_ok_def)
  obtain t1 where t1: "(if cursor_x (terminal t) = term_width (terminal t) then next_row t else Inr t) = Inr t1"
    "store_char c (draw_char c (cursor_x (terminal t1)) (cursor_y (terminal t1)) t1) = Inr t'"
    using assms(3,4) False by (auto simp: put_char_def print_char_printable elim!: seq_InrE split: if_splits)
  have c: "console_ok H W t1 \<and> unat (cursor_x (terminal t1)) < W"
    using put_char_room [OF ok t1(1)] by blast
  have f1: "frame_only H W t t1"
    using t1(1) next_row_frame [OF ok assms(2)] by (auto split: if_splits)
  let ?d = "draw_char c (cursor_x (terminal t1)) (cursor_y (terminal t1)) t1"
  have "unat (cursor_y (terminal t1)) < H" using c by (simp add: console_ok_def)
  from draw_char_frame [OF _ _ this, of W t1 "unat (cursor_x (terminal t1))" c]
  have "frame_only H W t1 ?d" using c frame_only_fits [OF f1] assms(2) by simp
  then show ?thesis using f1 store_char_frame [OF t1(2)] frame_only_trans by blast
qed

section \<open>Printing\<close>

definition frame_step :: "nat \<Rightarrow> nat \<Rightarrow> u8 list list \<Rightarrow> console \<Rightarrow> u8 list list \<Rightarrow> console \<Rightarrow> bool" where
  "frame_step H W hist t hist' t' \<longleftrightarrow> (device_fits H W t \<longrightarrow> frame_only H W t t')"

interpretation frame: print_relation frame_step
proof unfold_locales
  fix H W hist t hist' t' hist'' t''
  assume "frame_step H W hist t hist' t'" "frame_step H W hist' t' hist'' t''"
  then show "frame_step H W hist t hist'' t''"
    using frame_only_trans [of H W t t' t''] frame_only_fits [of H W t t'] by (auto simp: frame_step_def)
qed (auto simp: frame_step_def intro: put_char_frame)

end
