(* ===== verification/Vesa16.thy ===== *)
theory Vesa16
  imports TerminalFrame
begin

text \<open>
  Drawing in the mode the boot loader sets, VBE mode 0x117 with 16 bits a pixel:
  \<open>kernel/utils/vesa.c\<close> writes 32 bits for each pixel in every mode. The 16-bit pixels are
  another instance of the store of numbered cells; a write puts the low half of the colour into
  its pixel and the high half into the one behind it.
\<close>

section \<open>Pixels of 16 bits\<close>

interpretation acc16: word_access load16 "store_le 2" 2
  by unfold_locales
    (auto simp: load16_def load_store_le_full store_le_outside intro: load_le_cong)

definition mode16 :: "vbe_mode_info \<Rightarrow> nat \<Rightarrow> bool" where
  "mode16 info stride \<longleftrightarrow> vbe_bpp info = 16 \<and> unat (vbe_pitch info) = 2 * stride"

definition px16_valid :: "vbe_mode_info \<Rightarrow> nat \<Rightarrow> bool" where
  "px16_valid info k \<longleftrightarrow> unat (vbe_framebuffer info) + 2 * k + 2 \<le> 2 ^ 32"

definition px16_addr :: "vbe_mode_info \<Rightarrow> nat \<Rightarrow> u64" where
  "px16_addr info k = of_nat (unat (vbe_framebuffer info) + 2 * k)"

definition px16 :: "vbe_mode_info \<Rightarrow> memory \<Rightarrow> nat \<Rightarrow> u16" where
  "px16 info m k = load16 m (px16_addr info k)"

definition px16_put :: "vbe_mode_info \<Rightarrow> nat \<Rightarrow> u16 \<Rightarrow> memory \<Rightarrow> memory" where
  "px16_put info k c m = store_le 2 m (px16_addr info k) c"

lemma px16_separate:
  "px16_valid i k \<Longrightarrow> px16_valid i j \<Longrightarrow> j \<noteq> k \<Longrightarrow> separate (px16_addr i k) 2 (px16_addr i j) 2"
proof -
  have *: "separate (px16_addr i a) 2 (px16_addr i b) 2" if "px16_valid i b" "a < b" for a b
    using that unfolding px16_addr_def px16_valid_def by (intro separate_nat) auto
  assume "px16_valid i k" "px16_valid i j" "j \<noteq> k"
  then show ?thesis
    using *[of j k] *[of k j] by (cases "j < k") (auto simp: separate_sym)
qed

interpretation pixels16: cell_store px16_valid px16 px16_put
  by unfold_locales
    (auto simp: px16_def px16_put_def acc16.ld_st_separate px16_separate)

lemma px16_valid_mono: "px16_valid info k \<Longrightarrow> j \<le> k \<Longrightarrow> px16_valid info j"
  by (simp add: px16_valid_def)

text \<open>A 32-bit store is two 16-bit stores.\<close>

lemma ucast_ucast_u16: "ucast (ucast (c :: u32) :: u16) = (ucast c :: u8)"
  "ucast (drop_bit 8 (ucast c :: u16)) = (ucast (drop_bit 8 c) :: u8)"
  by (rule bit_word_eqI, auto simp: bit_simps)+

lemma store32_halves:
  "store32 m a c = store_le 2 (store_le 2 m a (ucast c :: u16)) (a + 2) (ucast (drop_bit 16 c) :: u16)"
proof -
  have "a \<noteq> a + 2" "a \<noteq> a + 3" "a + 1 \<noteq> a + 2" "a + 1 \<noteq> a + 3" for a :: u64 by simp_all
  then show ?thesis
    by (simp add: store32_def mem_eval ucast_ucast_u16 fun_upd_twist add.assoc drop_bit_drop_bit)
qed

lemma set_pixel_px16:
  assumes "mode16 info stride" and "px16_valid info (Suc (Y * stride + X))"
  shows "SET_PIXEL_COLOR info (of_nat X) (of_nat Y) c m =
    px16_put info (Suc (Y * stride + X)) (ucast (drop_bit 16 c)) (px16_put info (Y * stride + X) (ucast c) m)"
proof -
  have p: "unat (vbe_pitch info) = 2 * stride" "pixel_bytes info = 2"
    using assms(1) by (simp_all add: mode16_def pixel_bytes_def)
  have "frame_fits info X Y"
    using assms(2) by (simp add: frame_fits_def extent_def p px16_valid_def algebra_simps)
  then have "unat (pixel_address info (of_nat X) (of_nat Y)) = unat (vbe_framebuffer info) + 2 * (Y * stride + X)"
    by (simp add: pixel_address_unat p algebra_simps)
  then have a: "pixel_address info (of_nat X) (of_nat Y) = px16_addr info (Y * stride + X)"
    unfolding px16_addr_def by (rule word_eq_of_unat)
  have n: "px16_addr info (Suc k) = px16_addr info k + 2" for k
    by (simp add: px16_addr_def)
  show ?thesis by (simp only: SET_PIXEL_COLOR_def a store32_halves px16_put_def n)
qed

section \<open>Rectangles\<close>

text \<open>A row of \<open>w\<close> writes from pixel \<open>k\<close> on: each clears the pixel the next one paints.\<close>

lemma row16:
  assumes "px16_valid info (k + w)" and "px16_valid info j"
  shows "px16 info (fold (\<lambda>i m. px16_put info (Suc (k + i)) d (px16_put info (k + i) c m)) [0..<w] m) j =
    (if k \<le> j \<and> j < k + w then c else if j = k + w \<and> 0 < w then d else px16 info m j)"
  using assms(1)
proof (induction w)
  case 0
  then show ?case by auto
next
  case (Suc w)
  have v: "px16_valid info (k + w)" "px16_valid info (Suc (k + w))"
    using Suc.prems by (auto elim: px16_valid_mono)
  show ?case
    using Suc.IH [OF v(1)] assms(2) v by (auto simp: pixels16.cell_put)
qed

lemma rows16:
  assumes "a < stride" and "X + w < stride" and "px16_valid info (R * stride)" and "b < R" and "Y + h \<le> R"
  shows "px16 info (fold (\<lambda>i. fold (\<lambda>j m. px16_put info (Suc ((Y + i) * stride + X + j)) d
      (px16_put info ((Y + i) * stride + X + j) c m)) [0..<w]) [0..<h] m) (b * stride + a) =
    (if Y \<le> b \<and> b < Y + h \<and> X \<le> a \<and> a < X + w then c
     else if Y \<le> b \<and> b < Y + h \<and> a = X + w \<and> 0 < w then d else px16 info m (b * stride + a))"
  using assms(5)
proof (induction h)
  case 0
  then show ?case by auto
next
  case (Suc h)
  have le: "y * stride + x \<le> R * stride" if "y < R" "x < stride" for x y
    using that mult_le_mono1 [of "Suc y" R stride] by simp
  have v: "px16_valid info (b * stride + a)" "px16_valid info ((Y + h) * stride + X + w)"
    using px16_valid_mono [OF assms(3) le] assms(1,2,4) Suc.prems by (simp_all add: add.assoc)
  have i: "b * stride + a = (Y + h) * stride + X + w \<longleftrightarrow> b = Y + h \<and> a = X + w"
    using px_index_inj [OF assms(1,2)] by (simp add: add.assoc)
  have r: "(Y + h) * stride + X \<le> b * stride + a \<and> b * stride + a < (Y + h) * stride + X + w \<longleftrightarrow>
      b = Y + h \<and> X \<le> a \<and> a < X + w"
  proof
    assume *: "(Y + h) * stride + X \<le> b * stride + a \<and> b * stride + a < (Y + h) * stride + X + w"
    then obtain t where t: "b * stride + a = (Y + h) * stride + (X + t)"
      by (auto simp: le_iff_add add.assoc)
    then have "t < w" using * by simp
    then have "b = Y + h" using px_index_inj [OF assms(1), of "X + t" b "Y + h"] t assms(2) by simp
    with * show "b = Y + h \<and> X \<le> a \<and> a < X + w" by simp
  qed simp
  let ?m = "fold (\<lambda>i. fold (\<lambda>j m. px16_put info (Suc ((Y + i) * stride + X + j)) d
      (px16_put info ((Y + i) * stride + X + j) c m)) [0..<w]) [0..<h] m"
  have IH: "px16 info ?m (b * stride + a) = (if Y \<le> b \<and> b < Y + h \<and> X \<le> a \<and> a < X + w then c
      else if Y \<le> b \<and> b < Y + h \<and> a = X + w \<and> 0 < w then d else px16 info m (b * stride + a))"
    using Suc by simp
  have step: "px16 info (fold (\<lambda>j m. px16_put info (Suc ((Y + h) * stride + X + j)) d
      (px16_put info ((Y + h) * stride + X + j) c m)) [0..<w] ?m) (b * stride + a) =
    (if b = Y + h \<and> X \<le> a \<and> a < X + w then c
     else if (b = Y + h \<and> a = X + w) \<and> 0 < w then d else px16 info ?m (b * stride + a))"
    unfolding row16 [OF v(2,1)] r i ..
  show ?case
    unfolding upt_Suc_append [OF le0] fold_append o_apply fold_Cons fold_Nil id_apply step IH
    by auto
qed

text \<open>C35 draw_rectangle_16bpp. In a mode with 16 bits per pixel, as the boot loader sets it, a
  rectangle inside the rows of the screen gets the low half of the colour, and the column to the
  right of it the high half, which is zero: it is blackened. Every other pixel of the screen
  keeps its value.\<close>
theorem draw_rectangle_16bpp:
  assumes "mode16 info stride" and "X + w < stride" and "Y + h \<le> R" and "a < stride" and "b < R"
    and "px16_valid info (R * stride)" and "R < 2 ^ 31" and "stride < 2 ^ 31"
  shows "px16 info (draw_rectangle info (of_nat X) (of_nat Y) (of_nat w) (of_nat h) m) (b * stride + a) =
    (if Y \<le> b \<and> b < Y + h \<and> X \<le> a \<and> a < X + w then 0xFF00
     else if Y \<le> b \<and> b < Y + h \<and> a = X + w \<and> 0 < w then 0 else px16 info m (b * stride + a))"
proof -
  have le: "y * stride + x \<le> R * stride" if "y < R" "x \<le> stride" for x y
    using that mult_le_mono1 [of "Suc y" R stride] by simp
  have "SET_PIXEL_COLOR info (of_nat X + of_nat j) (of_nat Y + of_nat i) 0x00FF00 m =
      px16_put info (Suc ((Y + i) * stride + X + j)) 0 (px16_put info ((Y + i) * stride + X + j) 0xFF00 m)"
    if "i < h" "j < w" for i j m
  proof -
    have "px16_valid info (Suc ((Y + i) * stride + (X + j)))"
      using px16_valid_mono [OF assms(6) le [of "Y + i" "Suc (X + j)"]] that assms(2,3) by simp
    from set_pixel_px16 [OF assms(1) this, of "0x00FF00" m] show ?thesis by (simp add: add.assoc)
  qed
  then have "fold (\<lambda>i. fold (\<lambda>j. SET_PIXEL_COLOR info (of_nat X + of_nat j) (of_nat Y + of_nat i) 0x00FF00) [0..<w]) [0..<h] m =
      fold (\<lambda>i. fold (\<lambda>j m. px16_put info (Suc ((Y + i) * stride + X + j)) 0
        (px16_put info ((Y + i) * stride + X + j) 0xFF00 m)) [0..<w]) [0..<h] m"
    by (intro fold_cong refl ext) auto
  then have "draw_rectangle info (of_nat X) (of_nat Y) (of_nat w) (of_nat h) m =
      fold (\<lambda>i. fold (\<lambda>j m. px16_put info (Suc ((Y + i) * stride + X + j)) 0
        (px16_put info ((Y + i) * stride + X + j) 0xFF00 m)) [0..<w]) [0..<h] m"
    using assms(2,3,7,8) by (simp add: draw_rectangle_def sint_of_nat_s32)
  then show ?thesis using rows16 [OF assms(4,2,6,5,3)] by simp
qed

theorem draw_rectangle_16bpp_witness:
  "px16 (sample_info\<lparr>vbe_bpp := 16, vbe_pitch := 2048\<rparr>)
     (draw_rectangle (sample_info\<lparr>vbe_bpp := 16, vbe_pitch := 2048\<rparr>) 150 100 100 100 (\<lambda>_. 0xFF)) (120 * 1024 + 250) = 0"
  using draw_rectangle_16bpp [of "sample_info\<lparr>vbe_bpp := 16, vbe_pitch := 2048\<rparr>" 1024 150 100 100 100 768 250 120 "\<lambda>_. 0xFF"]
  by (simp add: mode16_def px16_valid_def sample_info_def)

end
