(* ===== verification/Spinlock.thy ===== *)
theory Spinlock
  imports Prelude
begin

text \<open>
  The spin lock, \<open>kernel/spinlock.c\<close>: an atomic test-and-set in a loop and an atomic clear.
  \<open>acquire\<close> is given alone, where nobody else touches the lock, and as the turns of any number
  of threads that interleave at the atomic operations.
\<close>

section \<open>The operations\<close>

record spinlock_t =
  locked :: bool

definition test_and_set :: "spinlock_t \<Rightarrow> bool \<times> spinlock_t" where
  "test_and_set lock = (locked lock, lock\<lparr>locked := True\<rparr>)"

partial_function (option) acquire :: "spinlock_t \<Rightarrow> spinlock_t option" where
  "acquire lock =
     (let (old, lock) = test_and_set lock in if old then acquire lock else Some lock)"

definition release :: "spinlock_t \<Rightarrow> spinlock_t" where
  "release lock = lock\<lparr>locked := False\<rparr>"

section \<open>Threads\<close>

datatype lock_pc = Outside | Acquiring | Holding

record locking =
  lock :: spinlock_t
  pcs :: "lock_pc list"

text \<open>
  The turns: a call of \<open>acquire\<close>, one round of its loop with either outcome, and \<open>release\<close>.
\<close>

inductive lock_step :: "nat \<Rightarrow> locking \<Rightarrow> locking \<Rightarrow> bool" where
  call: "i < length (pcs s) \<Longrightarrow> pcs s ! i = Outside \<Longrightarrow>
    lock_step i s (s\<lparr>pcs := (pcs s)[i := Acquiring]\<rparr>)"
| spin: "i < length (pcs s) \<Longrightarrow> pcs s ! i = Acquiring \<Longrightarrow> test_and_set (lock s) = (True, l) \<Longrightarrow>
    lock_step i s (s\<lparr>lock := l\<rparr>)"
| enter: "i < length (pcs s) \<Longrightarrow> pcs s ! i = Acquiring \<Longrightarrow> test_and_set (lock s) = (False, l) \<Longrightarrow>
    lock_step i s (s\<lparr>lock := l, pcs := (pcs s)[i := Holding]\<rparr>)"
| leave: "i < length (pcs s) \<Longrightarrow> pcs s ! i = Holding \<Longrightarrow>
    lock_step i s (s\<lparr>lock := release (lock s), pcs := (pcs s)[i := Outside]\<rparr>)"

text \<open>A run, given by the threads whose turns it consists of.\<close>

inductive lock_run :: "nat list \<Rightarrow> locking \<Rightarrow> locking \<Rightarrow> bool" where
  stop: "lock_run [] s s"
| turn: "lock_step i s s' \<Longrightarrow> lock_run is s' s'' \<Longrightarrow> lock_run (i # is) s s''"

inductive_cases lock_run_NilE: "lock_run [] s s'"
inductive_cases lock_run_ConsE: "lock_run (i # is) s s'"
inductive_simps lock_run_simps: "lock_run [] s s'" "lock_run (i # is) s s'"

definition lock_init :: "nat \<Rightarrow> locking" where
  "lock_init n = \<lparr>lock = \<lparr>locked = False\<rparr>, pcs = replicate n Outside\<rparr>"

section \<open>Alone\<close>

lemma acquire_locked:
  assumes "acquire l = Some l'"
  shows "\<not> locked l \<and> l' = l\<lparr>locked := True\<rparr>"
proof (rule acquire.raw_induct [where P = "\<lambda>l l'. \<not> locked l \<and> l' = l\<lparr>locked := True\<rparr>", OF _ assms])
  fix f :: "spinlock_t \<Rightarrow> spinlock_t option" and l l' :: spinlock_t
  assume IH: "\<And>l l'. f l = Some l' \<Longrightarrow> \<not> locked l \<and> l' = l\<lparr>locked := True\<rparr>"
    and eq: "(let (old, lock) = test_and_set l in if old then f lock else Some lock) = Some l'"
  show "\<not> locked l \<and> l' = l\<lparr>locked := True\<rparr>"
  proof (cases "locked l")
    case True
    with eq have "f (l\<lparr>locked := True\<rparr>) = Some l'" by (simp add: test_and_set_def)
    from IH [OF this] show ?thesis by simp
  next
    case False
    with eq show ?thesis by (simp add: test_and_set_def)
  qed
qed

text \<open>Lemma acquire_alone. Acquiring a free lock takes it; acquiring a lock that is taken and that
  nobody releases never returns; a released lock can be acquired again.\<close>
theorem acquire_alone:
  "acquire l = (if locked l then None else Some (l\<lparr>locked := True\<rparr>)) \<and>
   acquire (release l) = Some (l\<lparr>locked := True\<rparr>)"
proof -
  have "acquire l = Some (l\<lparr>locked := True\<rparr>)" if "\<not> locked l" for l
    using that by (subst acquire.simps) (simp add: test_and_set_def)
  moreover have "acquire l = None" if "locked l"
    using acquire_locked [of l] that by (cases "acquire l") auto
  ultimately show ?thesis by (simp add: release_def)
qed

section \<open>Mutual exclusion\<close>

definition holders :: "locking \<Rightarrow> nat set" where
  "holders s = {i. i < length (pcs s) \<and> pcs s ! i = Holding}"

definition lock_inv :: "locking \<Rightarrow> bool" where
  "lock_inv s \<longleftrightarrow> card (holders s) = (if locked (lock s) then 1 else 0)"

lemma finite_holders [simp]: "finite (holders s)"
  by (simp add: holders_def)

lemma holders_upd:
  "i < length (pcs s) \<Longrightarrow> holders (s\<lparr>pcs := (pcs s)[i := p]\<rparr>) =
     (if p = Holding then insert i (holders s) else holders s - {i})"
  by (auto simp: holders_def nth_list_update)

lemma holders_lock [simp]: "holders (s\<lparr>lock := l\<rparr>) = holders s"
  by (simp add: holders_def)

lemma lock_step_inv: "lock_step i s s' \<Longrightarrow> lock_inv s \<Longrightarrow> lock_inv s'"
proof (induction rule: lock_step.induct)
  case (call i s)
  then have "i \<notin> holders s" by (simp add: holders_def)
  then show ?case using call by (simp add: lock_inv_def holders_upd)
next
  case (spin i s l)
  then show ?case by (auto simp: lock_inv_def test_and_set_def)
next
  case (enter i s l)
  have h: "holders (s\<lparr>lock := l, pcs := (pcs s)[i := Holding]\<rparr>) = insert i (holders s)"
    using enter by (auto simp: holders_def nth_list_update)
  show ?case using enter unfolding lock_inv_def h by (auto simp: test_and_set_def)
next
  case (leave i s)
  have h: "holders (s\<lparr>lock := release (lock s), pcs := (pcs s)[i := Outside]\<rparr>) = holders s - {i}"
    using leave by (auto simp: holders_def nth_list_update)
  have "i \<in> holders s" using leave by (simp add: holders_def)
  then show ?case
    using leave unfolding lock_inv_def h by (auto simp: release_def card_Diff_singleton split: if_splits)
qed

lemma lock_run_inv: "lock_run is s s' \<Longrightarrow> lock_inv s \<Longrightarrow> lock_inv s'"
  by (induction rule: lock_run.induct) (auto intro: lock_step_inv)

lemma lock_init_inv: "lock_inv (lock_init n)"
  by (simp add: lock_inv_def lock_init_def holders_def)

text \<open>C25 spinlock_exclusive. Whatever the threads do, one at a time, from the free lock on: no two
  of them hold the lock at once, the lock is marked taken exactly while one holds it, and a
  thread in \<open>acquire\<close> enters with its next turn if and only if nobody holds the lock.\<close>
theorem spinlock_exclusive:
  assumes "lock_run is (lock_init n) s"
  shows "(\<forall>i j. i \<in> holders s \<and> j \<in> holders s \<longrightarrow> i = j) \<and>
    (locked (lock s) \<longleftrightarrow> holders s \<noteq> {}) \<and>
    (\<forall>i s'. i < length (pcs s) \<and> pcs s ! i = Acquiring \<and> lock_step i s s' \<longrightarrow>
       (i \<in> holders s' \<longleftrightarrow> holders s = {}))"
proof -
  have inv: "lock_inv s" using lock_run_inv [OF assms lock_init_inv] .
  then have taken: "locked (lock s) \<longleftrightarrow> holders s \<noteq> {}"
    by (auto simp: lock_inv_def split: if_splits)
  have "card (holders s) \<le> 1" using inv by (simp add: lock_inv_def split: if_splits)
  then have "i = j" if "i \<in> holders s" "j \<in> holders s" for i j
    using that card_le_Suc0_iff_eq [of "holders s"] by auto
  moreover have "i \<in> holders s' \<longleftrightarrow> holders s = {}"
    if "i < length (pcs s)" "pcs s ! i = Acquiring" "lock_step i s s'" for i s'
    using that(3,1,2) taken
    by cases (auto simp: holders_def test_and_set_def)
  ultimately show ?thesis using taken by blast
qed

lemma sample_lock_run:
  "lock_run [0, 1, 0, 1] (lock_init 2) \<lparr>lock = \<lparr>locked = True\<rparr>, pcs = [Holding, Acquiring]\<rparr>"
proof -
  let ?s1 = "\<lparr>lock = \<lparr>locked = False\<rparr>, pcs = [Acquiring, Outside]\<rparr>"
  let ?s2 = "\<lparr>lock = \<lparr>locked = False\<rparr>, pcs = [Acquiring, Acquiring]\<rparr>"
  let ?s3 = "\<lparr>lock = \<lparr>locked = True\<rparr>, pcs = [Holding, Acquiring]\<rparr>"
  have "lock_step 0 (lock_init 2) ?s1"
    using lock_step.call [of 0 "lock_init 2"] by (simp add: lock_init_def numeral_2_eq_2)
  moreover have "lock_step 1 ?s1 ?s2" using lock_step.call [of 1 ?s1] by simp
  moreover have "lock_step 0 ?s2 ?s3"
    using lock_step.enter [of 0 ?s2] by (simp add: test_and_set_def)
  moreover have "lock_step 1 ?s3 ?s3"
    using lock_step.spin [of 1 ?s3] by (simp add: test_and_set_def)
  ultimately show ?thesis by (auto simp: lock_run_simps)
qed

theorem spinlock_exclusive_witness:
  "holders \<lparr>lock = \<lparr>locked = True\<rparr>, pcs = [Holding, Acquiring]\<rparr> \<noteq> {}"
  using spinlock_exclusive [OF sample_lock_run] by simp

section \<open>Fairness\<close>

lemma lock_run_append: "lock_run xs s s' \<Longrightarrow> lock_run ys s' s'' \<Longrightarrow> lock_run (xs @ ys) s s''"
  by (induction rule: lock_run.induct) (auto intro: lock_run.turn)

definition waiting :: locking where
  "waiting = \<lparr>lock = \<lparr>locked = False\<rparr>, pcs = [Outside, Acquiring]\<rparr>"

lemma waiting_round: "lock_run [0, 0, 1, 0] waiting waiting"
proof -
  let ?s1 = "\<lparr>lock = \<lparr>locked = False\<rparr>, pcs = [Acquiring, Acquiring]\<rparr>"
  let ?s2 = "\<lparr>lock = \<lparr>locked = True\<rparr>, pcs = [Holding, Acquiring]\<rparr>"
  have "lock_step 0 waiting ?s1" using lock_step.call [of 0 waiting] by (simp add: waiting_def)
  moreover have "lock_step 0 ?s1 ?s2"
    using lock_step.enter [of 0 ?s1] by (simp add: test_and_set_def)
  moreover have "lock_step 1 ?s2 ?s2"
    using lock_step.spin [of 1 ?s2] by (simp add: test_and_set_def)
  moreover have "lock_step 0 ?s2 waiting"
    using lock_step.leave [of 0 ?s2] by (simp add: release_def waiting_def)
  ultimately show ?thesis by (auto simp: lock_run_simps)
qed

text \<open>Lemma spinlock_unfair. The lock does not order the threads that wait: for every number of rounds
  there is a run in which one thread takes and releases the lock that often while the other,
  with a turn in every round, does not leave the loop of \<open>acquire\<close>.\<close>
theorem spinlock_unfair:
  "lock_run (concat (replicate n [0, 0, 1, 0])) waiting waiting \<and> pcs waiting ! 1 = Acquiring \<and>
   (\<exists>s. lock_step 1 waiting s \<and> 1 \<in> holders s)"
proof -
  have "lock_run (concat (replicate n [0, 0, 1, 0])) waiting waiting"
    by (induction n) (auto intro: lock_run.stop lock_run_append [OF waiting_round, simplified])
  moreover have "lock_step 1 waiting (waiting\<lparr>lock := \<lparr>locked = True\<rparr>, pcs := (pcs waiting)[1 := Holding]\<rparr>)"
    by (rule lock_step.enter) (simp_all add: waiting_def test_and_set_def)
  ultimately show ?thesis by (auto simp: waiting_def holders_def)
qed

end
