(* ===== verification/Heap.thy ===== *)
theory Heap
  imports ByteMemory
begin

text \<open>
  The kernel heap, \<open>kernel/memory/alloc.c\<close>: a linked list of block headers in memory,
  split by \<open>kalloc\<close> and never joined. The header fields are read and written at the offsets
  of \<open>block_t\<close> (\<open>kernel/include/alloc.h\<close>): \<open>size\<close> at 0, \<open>status\<close> at 8, \<open>next\<close> at 16,
  24 bytes in all. Reading and writing them goes through byte memory, so a request that makes
  two headers overlap has the effect it has in the code.
\<close>

section \<open>State\<close>

record heap =
  hmem :: memory
  free_ptr :: u64
  heap_start :: u64
  heap_size :: u64

definition BLOCK_FREE :: u8 where "BLOCK_FREE = 0"
definition BLOCK_USED :: u8 where "BLOCK_USED = 1"

definition blk_size :: "memory \<Rightarrow> u64 \<Rightarrow> u64" where
  "blk_size m p = load64 m p"
definition blk_status :: "memory \<Rightarrow> u64 \<Rightarrow> u8" where
  "blk_status m p = m (p + 8)"
definition blk_next :: "memory \<Rightarrow> u64 \<Rightarrow> u64" where
  "blk_next m p = load64 m (p + 16)"

definition set_size :: "u64 \<Rightarrow> u64 \<Rightarrow> memory \<Rightarrow> memory" where
  "set_size p v m = store64 m p v"
definition set_status :: "u64 \<Rightarrow> u8 \<Rightarrow> memory \<Rightarrow> memory" where
  "set_status p v m = m(p + 8 := v)"
definition set_next :: "u64 \<Rightarrow> u64 \<Rightarrow> memory \<Rightarrow> memory" where
  "set_next p v m = store64 m (p + 16) v"

section \<open>Operations\<close>

definition install_heap :: "u64 \<Rightarrow> memory \<Rightarrow> heap" where
  "install_heap kernel_end m =
     (let start = (kernel_end + 0x1000) AND NOT 0xFFF; sz = 128 * 1024;
          m = set_size start sz m;
          m = set_next start 0 m;
          m = set_status start BLOCK_FREE m
      in \<lparr>hmem = m, free_ptr = start, heap_start = start, heap_size = sz\<rparr>)"

text \<open>
  The new block lies \<open>n\<close> 64-bit words after the old one; \<open>n\<close> is an \<open>int\<close> and is sign
  extended wherever it meets a 64-bit value.
\<close>

definition split_block :: "u64 \<Rightarrow> s32 \<Rightarrow> heap \<Rightarrow> u64 \<times> heap" where
  "split_block ptr n h =
     (let newfreeblock = ptr + 8 * int_to_u64 n;
          m = hmem h;
          m = set_size newfreeblock (blk_size m ptr - int_to_u64 n) m;
          m = set_next newfreeblock (blk_next m ptr) m;
          m = set_status newfreeblock BLOCK_FREE m;
          m = set_size ptr (int_to_u64 n) m;
          m = set_status ptr BLOCK_USED m;
          m = set_next ptr newfreeblock m
      in (ptr, h\<lparr>hmem := m, free_ptr := newfreeblock\<rparr>))"

definition fits :: "memory \<Rightarrow> u64 \<Rightarrow> s32 \<Rightarrow> bool" where
  "fits m p n \<longleftrightarrow> blk_status m p = BLOCK_FREE \<and> blk_size m p > int_to_u64 n"

text \<open>
  The search along the list; \<open>None\<close> when it does not end. \<open>Some 0\<close> is the end of the list.
\<close>

partial_function (option) find_block :: "memory \<Rightarrow> s32 \<Rightarrow> u64 \<Rightarrow> u64 option" where
  "find_block m n ptr =
     (if ptr = 0 then Some 0
      else if fits m ptr n then Some ptr
      else find_block m n (blk_next m ptr))"

text \<open>The result \<open>ptr + 1\<close> is the address behind the 24-byte header.\<close>

definition kalloc :: "s32 \<Rightarrow> heap \<Rightarrow> (u64 \<times> heap) option" where
  "kalloc n h =
     (if fits (hmem h) (free_ptr h) n then
        let (p, h) = split_block (free_ptr h) n h in Some (p + 24, h)
      else case find_block (hmem h) n (heap_start h) of
        None \<Rightarrow> None
      | Some ptr \<Rightarrow>
          if ptr = 0 then Some (0, h)
          else let (p, h) = split_block ptr n h in Some (p + 24, h))"

section \<open>Header fields\<close>

lemma hdr_get_same [mem_simps]:
  "blk_size (set_size p v m) p = v"
  "blk_size (set_status p u m) p = blk_size m p"
  "blk_size (set_next p w m) p = blk_size m p"
  "blk_status (set_size p v m) p = blk_status m p"
  "blk_status (set_status p u m) p = u"
  "blk_status (set_next p w m) p = blk_status m p"
  "blk_next (set_size p v m) p = blk_next m p"
  "blk_next (set_status p u m) p = blk_next m p"
  "blk_next (set_next p w m) p = w"
proof -
  show "blk_size (set_status p u m) p = blk_size m p"
    unfolding blk_size_def set_status_def by (rule acc64.ld_cong) (auto simp: in_range_def)
  show "blk_next (set_status p u m) p = blk_next m p"
    unfolding blk_next_def set_status_def by (rule acc64.ld_cong) (auto simp: in_range_def)
qed (simp_all add: blk_size_def blk_status_def blk_next_def set_size_def set_status_def
    set_next_def acc64.ld_st_separate acc64.st_outside separate_def in_range_def)

lemma hdr_set_outside:
  assumes "\<not> in_range x p 24"
  shows "set_size p v m x = m x" and "set_status p u m x = m x" and "set_next p w m x = m x"
proof -
  have "\<not> in_range x (p + 0) 8" and "\<not> in_range x (p + 8) 1" and "\<not> in_range x (p + 16) 8"
    using assms in_range_sub [of x p 0 8 24] in_range_sub [of x p 8 1 24]
      in_range_sub [of x p 16 8 24] by auto
  then show "set_size p v m x = m x" and "set_status p u m x = m x" and "set_next p w m x = m x"
    by (auto simp: set_size_def set_status_def set_next_def acc64.st_outside)
qed

lemma hdr_get_cong:
  assumes "\<And>x. in_range x p 24 \<Longrightarrow> m x = m' x"
  shows "blk_size m p = blk_size m' p" and "blk_status m p = blk_status m' p"
    and "blk_next m p = blk_next m' p"
proof -
  have "m x = m' x" if "in_range x (p + 0) 8 \<or> in_range x (p + 16) 8 \<or> x = p + 8" for x
    using that assms in_range_sub [of x p 0 8 24] in_range_sub [of x p 16 8 24]
    by (auto simp: in_range_def)
  then show "blk_size m p = blk_size m' p" and "blk_status m p = blk_status m' p"
    and "blk_next m p = blk_next m' p"
    unfolding blk_size_def blk_status_def blk_next_def by (auto intro!: acc64.ld_cong)
qed

lemma hdr_get_other:
  assumes "separate p 24 q 24"
  shows "blk_size (set_size p v m) q = blk_size m q"
    and "blk_size (set_status p u m) q = blk_size m q"
    and "blk_size (set_next p w m) q = blk_size m q"
    and "blk_status (set_size p v m) q = blk_status m q"
    and "blk_status (set_status p u m) q = blk_status m q"
    and "blk_status (set_next p w m) q = blk_status m q"
    and "blk_next (set_size p v m) q = blk_next m q"
    and "blk_next (set_status p u m) q = blk_next m q"
    and "blk_next (set_next p w m) q = blk_next m q"
  by (rule hdr_get_cong, rule hdr_set_outside, erule separate_not_in_range [OF assms])+

section \<open>The shape of the heap\<close>

text \<open>
  \<open>blocks_at m a ws r\<close>: from address \<open>a\<close> on, memory holds used blocks of \<open>ws\<close> words, each
  linked to the next, and then a free block of \<open>r\<close> words that ends the list.
\<close>

fun blocks_at :: "memory \<Rightarrow> nat \<Rightarrow> nat list \<Rightarrow> nat \<Rightarrow> bool" where
  "blocks_at m a [] r \<longleftrightarrow>
     blk_size m (of_nat a) = of_nat r \<and> blk_status m (of_nat a) = BLOCK_FREE \<and>
     blk_next m (of_nat a) = 0"
| "blocks_at m a (w # ws) r \<longleftrightarrow>
     blk_size m (of_nat a) = of_nat w \<and> blk_status m (of_nat a) = BLOCK_USED \<and>
     blk_next m (of_nat a) = of_nat (a + 8 * w) \<and> blocks_at m (a + 8 * w) ws r"

text \<open>
  The heap invariant: the blocks lie in the heap, every block is long enough for its own
  header, and \<open>free_ptr\<close> points to the free block at the end.
\<close>

definition free_addr :: "heap \<Rightarrow> nat list \<Rightarrow> nat" where
  "free_addr h ws = unat (heap_start h) + 8 * sum_list ws"

definition heap_ok :: "heap \<Rightarrow> nat list \<Rightarrow> nat \<Rightarrow> bool" where
  "heap_ok h ws r \<longleftrightarrow>
     0 < unat (heap_start h) \<and> unat (heap_start h) + 8 * (sum_list ws + r) < 2 ^ 64 \<and>
     (\<forall>w \<in> set ws. 3 \<le> w) \<and> 3 \<le> r \<and>
     free_ptr h = of_nat (free_addr h ws) \<and>
     blocks_at (hmem h) (unat (heap_start h)) ws r"

lemma in_range_nat:
  assumes "B \<le> A" and "A < B + n" and "A < 2 ^ 64"
  shows "in_range (of_nat A) (of_nat B) n"
proof -
  have "unat (of_nat A :: u64) = A" and "unat (of_nat B :: u64) = B"
    using assms by (simp_all add: unat_of_nat_u64)
  then show ?thesis using assms by (simp add: in_range_def unat_sub_if')
qed

lemma blocks_at_cong:
  assumes "\<And>x. in_range x (of_nat a) (8 * sum_list ws + 24) \<Longrightarrow> m x = m' x"
    and "\<forall>w \<in> set ws. 3 \<le> w" and "a + 8 * sum_list ws + 24 < 2 ^ 64"
    and "blocks_at m a ws r"
  shows "blocks_at m' a ws r"
  using assms
proof (induction ws arbitrary: a)
  case Nil
  have "\<And>x. in_range x (of_nat a) 24 \<Longrightarrow> m x = m' x" using Nil.prems(1) by simp
  note c = hdr_get_cong [OF this]
  show ?case using Nil.prems(4) by (simp add: c)
next
  case (Cons w ws)
  have hd: "m x = m' x" if "in_range x (of_nat a) 24" for x
    using in_range_mono [OF that, of "8 * sum_list (w # ws) + 24"] Cons.prems(1) [of x] by simp
  note c = hdr_get_cong [OF hd]
  have "blocks_at m' (a + 8 * w) ws r"
  proof (rule Cons.IH)
    fix x
    assume x: "in_range x (of_nat (a + 8 * w)) (8 * sum_list ws + 24)"
    have "unat (of_nat (8 * w) :: u64) = 8 * w"
      using Cons.prems(3) by (intro unat_of_nat_u64) simp
    then have "in_range x (of_nat a) (8 * sum_list (w # ws) + 24)"
      using x by (intro in_range_sub [of x "of_nat a" "of_nat (8 * w)" "8 * sum_list ws + 24"])
        simp_all
    then show "m x = m' x" by (rule Cons.prems(1))
  qed (use Cons.prems in auto)
  then show ?case using Cons.prems(4) by (simp add: c)
qed

text \<open>Turning the free block at the end into a used one followed by a shorter free one.\<close>

lemma blocks_at_snoc:
  assumes "blocks_at m a ws r" and "\<forall>w \<in> set ws. 3 \<le> w"
    and "a + 8 * sum_list ws + 24 < 2 ^ 64"
    and "\<And>x. \<not> in_range x (of_nat (a + 8 * sum_list ws)) 24 \<Longrightarrow>
              in_range x (of_nat a) (8 * sum_list ws) \<Longrightarrow> m' x = m x"
    and "blocks_at m' (a + 8 * sum_list ws) [n] r'"
  shows "blocks_at m' a (ws @ [n]) r'"
  using assms
proof (induction ws arbitrary: a)
  case Nil
  then show ?case by simp
next
  case (Cons w ws)
  have w: "3 \<le> w" using Cons.prems(2) by simp
  have u: "unat (of_nat (8 * w) :: u64) = 8 * w"
    using Cons.prems(3) by (intro unat_of_nat_u64) simp
  have sep: "separate (of_nat a) 24 (of_nat (a + 8 * sum_list (w # ws))) 24"
    using w Cons.prems(3) by (intro separate_nat) auto
  have hd: "m x = m' x" if x: "in_range x (of_nat a) 24" for x
    using Cons.prems(4) [of x] separate_disjoint [OF sep x] w
      in_range_mono [OF x, of "8 * sum_list (w # ws)"] by simp
  note c = hdr_get_cong [OF hd]
  have "blocks_at m' (a + 8 * w) (ws @ [n]) r'"
  proof (rule Cons.IH)
    fix x
    assume "\<not> in_range x (of_nat (a + 8 * w + 8 * sum_list ws)) 24"
      and x: "in_range x (of_nat (a + 8 * w)) (8 * sum_list ws)"
    moreover have "in_range x (of_nat a) (8 * sum_list (w # ws))"
      using x u by (intro in_range_sub [of x "of_nat a" "of_nat (8 * w)" "8 * sum_list ws"])
        simp_all
    ultimately show "m' x = m x"
      using Cons.prems(4) [of x] by (simp add: algebra_simps)
  qed (use Cons.prems in \<open>auto simp: algebra_simps\<close>)
  then show ?case using Cons.prems(1) by (simp add: c)
qed

lemma blocks_at_last:
  "blocks_at m a ws r \<Longrightarrow>
     blk_size m (of_nat (a + 8 * sum_list ws)) = of_nat r \<and>
     blk_status m (of_nat (a + 8 * sum_list ws)) = BLOCK_FREE \<and>
     blk_next m (of_nat (a + 8 * sum_list ws)) = 0"
proof (induction ws arbitrary: a)
  case (Cons w ws)
  then show ?case using Cons.IH [of "a + 8 * w"] by (simp add: algebra_simps)
qed simp

lemma of_nat_pos_u64: "0 < a \<Longrightarrow> a < 2 ^ 64 \<Longrightarrow> (of_nat a :: u64) \<noteq> 0"
  by (metis less_irrefl unat_0 unat_of_nat_u64)

lemma find_block_full:
  assumes "blocks_at m a ws r" and "0 < a" and "a + 8 * sum_list ws < 2 ^ 64"
    and "\<not> of_nat r > int_to_u64 n"
  shows "find_block m n (of_nat a) = Some 0"
  using assms
proof (induction ws arbitrary: a)
  case Nil
  have "find_block m n 0 = Some 0" by (simp add: find_block.simps)
  then show ?case
    using Nil by (subst find_block.simps) (simp add: fits_def of_nat_pos_u64)
next
  case (Cons w ws)
  have "find_block m n (of_nat (a + 8 * w)) = Some 0"
    by (rule Cons.IH) (use Cons.prems in auto)
  then show ?case
    using Cons.prems by (subst find_block.simps)
      (simp add: fits_def of_nat_pos_u64 BLOCK_USED_def BLOCK_FREE_def)
qed

section \<open>One allocation\<close>

lemma of_nat_less_u64: "a < b \<Longrightarrow> b < 2 ^ 64 \<Longrightarrow> (of_nat a :: u64) < of_nat b"
  by (simp add: word_less_nat_alt unat_of_nat_u64)

lemma heap_ok_bounds:
  assumes "heap_ok h ws r"
  shows "free_addr h ws + 8 * r < 2 ^ 64" and "3 \<le> r" and "0 < free_addr h ws"
    and "free_ptr h = of_nat (free_addr h ws)"
  using assms by (auto simp: heap_ok_def free_addr_def algebra_simps)

text \<open>The memory \<open>split_block\<close> leaves, as a function of the two header addresses.\<close>

definition split_mem :: "u64 \<Rightarrow> u64 \<Rightarrow> u64 \<Rightarrow> memory \<Rightarrow> memory" where
  "split_mem p q k m =
     set_next p q (set_status p BLOCK_USED (set_size p k
       (set_status q BLOCK_FREE (set_next q (blk_next m p)
         (set_size q (blk_size m p - k) m)))))"

lemma split_mem_fields:
  assumes "separate p 24 q 24"
  shows "blk_size (split_mem p q k m) p = k" and "blk_status (split_mem p q k m) p = BLOCK_USED"
    and "blk_next (split_mem p q k m) p = q"
    and "blk_size (split_mem p q k m) q = blk_size m p - k"
    and "blk_status (split_mem p q k m) q = BLOCK_FREE"
    and "blk_next (split_mem p q k m) q = blk_next m p"
  unfolding split_mem_def
  by (simp_all only: hdr_get_same hdr_get_other [OF assms]
      hdr_get_other [OF assms [unfolded separate_sym [of p]]])

lemma split_mem_frame:
  assumes "\<not> in_range x p 24" and "\<not> in_range x q 24"
  shows "split_mem p q k m x = m x"
  unfolding split_mem_def
  by (simp only: hdr_set_outside [OF assms(1)] hdr_set_outside [OF assms(2)])

lemma split_block_eq:
  assumes "separate p 24 (p + 8 * int_to_u64 n) 24"
  shows "split_block p n h =
    (p, h\<lparr>hmem := split_mem p (p + 8 * int_to_u64 n) (int_to_u64 n) (hmem h),
          free_ptr := p + 8 * int_to_u64 n\<rparr>)"
  by (simp only: split_block_def split_mem_def Let_def hdr_get_other [OF assms]
      hdr_get_other [OF assms [unfolded separate_sym [of p]]])

lemma kalloc_at_free_ptr:
  assumes ok: "heap_ok h ws r" and n: "n < r" "n < 2 ^ 31"
  shows "kalloc (of_nat n) h =
    Some (free_ptr h + 24, snd (split_block (free_ptr h) (of_nat n) h))"
proof -
  have "blk_size (hmem h) (free_ptr h) = of_nat r"
    and "blk_status (hmem h) (free_ptr h) = BLOCK_FREE"
    using blocks_at_last [of "hmem h" "unat (heap_start h)" ws r] ok
    by (simp_all add: heap_ok_def free_addr_def)
  moreover have "(of_nat n :: u64) < of_nat r"
    using n heap_ok_bounds(1) [OF ok] by (intro of_nat_less_u64) auto
  ultimately have "fits (hmem h) (free_ptr h) (of_nat n)"
    using n by (simp add: fits_def int_to_u64_of_nat)
  then show ?thesis
    by (simp add: kalloc_def split_block_def Let_def)
qed

lemma kalloc_step:
  assumes ok: "heap_ok h ws r" and n: "3 \<le> n" "n + 3 \<le> r" "n < 2 ^ 31"
  obtains h' where
    "kalloc (of_nat n) h = Some (of_nat (free_addr h ws + 24), h')"
    and "heap_ok h' (ws @ [n]) (r - n)"
    and "heap_start h' = heap_start h" and "heap_size h' = heap_size h"
    and "\<And>x. \<not> in_range x (of_nat (free_addr h ws)) 24 \<Longrightarrow>
             \<not> in_range x (of_nat (free_addr h ws + 8 * n)) 24 \<Longrightarrow> hmem h' x = hmem h x"
proof -
  let ?p = "free_ptr h" and ?a = "free_addr h ws" and ?s = "unat (heap_start h)"
  note b = heap_ok_bounds [OF ok]
  have i: "int_to_u64 (of_nat n) = of_nat n" using n by (simp add: int_to_u64_of_nat)
  have next_addr: "?p + 8 * of_nat n = of_nat (?a + 8 * n)"
    using b(4) by simp
  have "separate (of_nat ?a) 24 (of_nat (?a + 8 * n)) 24"
    using n b(1) by (intro separate_nat) auto
  then have sep: "separate ?p 24 (?p + 8 * int_to_u64 (of_nat n)) 24"
    unfolding i next_addr using b(4) by simp
  let ?q = "of_nat (?a + 8 * n)"
  let ?h = "h\<lparr>hmem := split_mem ?p ?q (of_nat n) (hmem h), free_ptr := ?q\<rparr>"
  have split: "split_block ?p (of_nat n) h = (?p, ?h)"
    using split_block_eq [OF sep] unfolding i next_addr .
  note res = split_mem_fields [OF sep, unfolded i next_addr, of "of_nat n" "hmem h"]
  note frame = split_mem_frame [of _ ?p ?q "of_nat n" "hmem h"]
  note last = blocks_at_last [of "hmem h" ?s ws r, folded free_addr_def]
  have bl: "blocks_at (hmem h) ?s ws r" and w3: "\<forall>w \<in> set ws. 3 \<le> w"
    using ok by (simp_all add: heap_ok_def)
  have "blocks_at (hmem ?h) ?s (ws @ [n]) (r - n)"
  proof (rule blocks_at_snoc [OF bl w3])
    show "?s + 8 * sum_list ws + 24 < 2 ^ 64"
      using b(1) n by (simp add: free_addr_def)
    show "blocks_at (hmem ?h) (?s + 8 * sum_list ws) [n] (r - n)"
      using res last [OF bl] b(4) n by (simp add: free_addr_def [symmetric])
    fix x
    assume x: "\<not> in_range x (of_nat (?s + 8 * sum_list ws)) 24"
      "in_range x (of_nat ?s) (8 * sum_list ws)"
    have "separate (of_nat ?s) (8 * sum_list ws) (of_nat (?a + 8 * n)) 24"
      using n b(1) by (intro separate_nat) (auto simp: free_addr_def)
    then have "\<not> in_range x (of_nat (?a + 8 * n)) 24"
      using separate_disjoint x(2) by blast
    then show "hmem ?h x = hmem h x"
      using x(1) b(4) frame [of x] by (simp add: free_addr_def)
  qed
  moreover have "free_addr ?h (ws @ [n]) = ?a + 8 * n"
    by (simp add: free_addr_def)
  ultimately have "heap_ok ?h (ws @ [n]) (r - n)"
    using ok n by (simp add: heap_ok_def free_addr_def algebra_simps)
  moreover have "kalloc (of_nat n) h = Some (of_nat (?a + 24), ?h)"
    using kalloc_at_free_ptr [OF ok, of n] n split b(4) by simp
  ultimately show ?thesis
    using frame b(4) by (intro that [of ?h]) simp_all
qed

lemma kalloc_full_result:
  assumes ok: "heap_ok h ws r" and "\<not> of_nat r > int_to_u64 n"
  shows "kalloc n h = Some (0, h)"
proof -
  have "find_block (hmem h) n (of_nat (unat (heap_start h))) = Some 0"
    using ok assms(2) by (intro find_block_full) (auto simp: heap_ok_def)
  moreover have "blk_size (hmem h) (free_ptr h) = of_nat r"
    using blocks_at_last [of "hmem h" "unat (heap_start h)" ws r] ok
    by (simp add: heap_ok_def free_addr_def)
  ultimately show ?thesis
    using assms(2) by (simp add: kalloc_def fits_def)
qed

section \<open>The contract of an allocator\<close>

text \<open>
  What a client of \<open>kalloc\<close> relies on: as long as room is left, a request is granted, the
  granted bytes and those granted before keep their contents, and no two granted
  regions overlap. \<open>ok h rs room\<close>: \<open>rs\<close> are the regions granted so far, \<open>room\<close> words are left.
\<close>

locale allocator =
  fixes alloc :: "nat \<Rightarrow> 'h \<Rightarrow> (u64 \<times> 'h) option"
    and ok :: "'h \<Rightarrow> (u64 \<times> nat) list \<Rightarrow> nat \<Rightarrow> bool"
    and content :: "'h \<Rightarrow> memory"
  assumes alloc_ok: "ok h rs room \<Longrightarrow> 3 \<le> n \<Longrightarrow> n + 3 \<le> room \<Longrightarrow> n < 2 ^ 31 \<Longrightarrow>
      \<exists>p h'. alloc n h = Some (p, h') \<and> ok h' (rs @ [(p, 8 * n - 24)]) (room - n) \<and>
        (\<forall>(a, k) \<in> set (rs @ [(p, 8 * n - 24)]).
           \<forall>x. in_range x a k \<longrightarrow> content h' x = content h x)"
    and regions: "ok h rs room \<Longrightarrow> i < j \<Longrightarrow> j < length rs \<Longrightarrow>
      separate (fst (rs ! i)) (snd (rs ! i)) (fst (rs ! j)) (snd (rs ! j))"

text \<open>A series of requests, each on the heap the one before leaves.\<close>

fun alloc_all :: "(nat \<Rightarrow> 'h \<Rightarrow> (u64 \<times> 'h) option) \<Rightarrow> nat list \<Rightarrow> 'h \<Rightarrow> (u64 list \<times> 'h) option"
where
  "alloc_all alloc [] h = Some ([], h)"
| "alloc_all alloc (n # ns) h =
     (case alloc n h of None \<Rightarrow> None
      | Some (p, h') \<Rightarrow>
          (case alloc_all alloc ns h' of None \<Rightarrow> None | Some (ps, h'') \<Rightarrow> Some (p # ps, h'')))"

definition granted :: "u64 list \<Rightarrow> nat list \<Rightarrow> (u64 \<times> nat) list" where
  "granted ps ns = zip ps (map (\<lambda>n. 8 * n - 24) ns)"

context allocator begin

lemma alloc_all_ok:
  assumes "ok h rs room" and "\<forall>n \<in> set ns. 3 \<le> n \<and> n < 2 ^ 31" and "sum_list ns + 3 \<le> room"
  shows "\<exists>ps h'. alloc_all alloc ns h = Some (ps, h') \<and> length ps = length ns \<and>
    ok h' (rs @ granted ps ns) (room - sum_list ns) \<and>
    (\<forall>(a, k) \<in> set rs. \<forall>x. in_range x a k \<longrightarrow> content h' x = content h x)"
  using assms
proof (induction ns arbitrary: h rs room)
  case Nil
  then show ?case by (simp add: granted_def)
next
  case (Cons n ns)
  obtain p h1 where 1: "alloc n h = Some (p, h1)" "ok h1 (rs @ [(p, 8 * n - 24)]) (room - n)"
    "\<forall>(a, k) \<in> set (rs @ [(p, 8 * n - 24)]). \<forall>x. in_range x a k \<longrightarrow> content h1 x = content h x"
    using alloc_ok [OF Cons.prems(1), of n] Cons.prems by auto
  have rest: "\<forall>n \<in> set ns. 3 \<le> n \<and> n < 2 ^ 31" "sum_list ns + 3 \<le> room - n"
    using Cons.prems by auto
  obtain ps h2 where 2: "alloc_all alloc ns h1 = Some (ps, h2)" "length ps = length ns"
    "ok h2 ((rs @ [(p, 8 * n - 24)]) @ granted ps ns) (room - n - sum_list ns)"
    "\<forall>(a, k) \<in> set (rs @ [(p, 8 * n - 24)]). \<forall>x. in_range x a k \<longrightarrow> content h2 x = content h1 x"
    using Cons.IH [OF 1(2) rest] by blast
  show ?case
    using 1 2 by (intro exI [of _ "p # ps"] exI [of _ h2]) (fastforce simp: granted_def)
qed

lemma alloc_all_separate:
  assumes "ok h [] room" and "\<forall>n \<in> set ns. 3 \<le> n \<and> n < 2 ^ 31" and "sum_list ns + 3 \<le> room"
  shows "\<exists>ps h'. alloc_all alloc ns h = Some (ps, h') \<and> length ps = length ns \<and>
    (\<forall>i j. i < j \<and> j < length ns \<longrightarrow> separate (ps ! i) (8 * ns ! i - 24) (ps ! j) (8 * ns ! j - 24))"
proof -
  obtain ps h' where 1: "alloc_all alloc ns h = Some (ps, h')" "length ps = length ns"
    "ok h' (granted ps ns) (room - sum_list ns)"
    using alloc_all_ok [OF assms] by auto
  show ?thesis
    using 1 regions [OF 1(3)] by (intro exI [of _ ps] exI [of _ h']) (auto simp: granted_def)
qed

end

text \<open>The regions \<open>kalloc\<close> has granted: each block without its header.\<close>

fun payloads :: "nat \<Rightarrow> nat list \<Rightarrow> (u64 \<times> nat) list" where
  "payloads a [] = []"
| "payloads a (w # ws) = (of_nat (a + 24), 8 * w - 24) # payloads (a + 8 * w) ws"

lemma payloads_append:
  "payloads a (us @ ws) = payloads a us @ payloads (a + 8 * sum_list us) ws"
  by (induction us arbitrary: a) (simp_all add: algebra_simps)

lemma payloads_mem:
  assumes "(b, k) \<in> set (payloads a ws)" and "\<forall>w \<in> set ws. 3 \<le> w"
  shows "\<exists>A. b = of_nat A \<and> a + 24 \<le> A \<and> A + k \<le> a + 8 * sum_list ws"
  using assms
proof (induction ws arbitrary: a)
  case (Cons w ws)
  have w: "3 \<le> w" using Cons.prems(2) by simp
  consider "b = of_nat (a + 24)" "k = 8 * w - 24"
    | "(b, k) \<in> set (payloads (a + 8 * w) ws)"
    using Cons.prems(1) by auto
  then show ?case
  proof cases
    case 1
    then show ?thesis using w by (intro exI [of _ "a + 24"]) auto
  next
    case 2
    then obtain A where "b = of_nat A" "a + 8 * w + 24 \<le> A"
      "A + k \<le> a + 8 * w + 8 * sum_list ws"
      using Cons.IH [of "a + 8 * w"] Cons.prems(2) by auto
    then show ?thesis by (intro exI [of _ A]) auto
  qed
qed simp

lemma length_payloads [simp]: "length (payloads a ws) = length ws"
  by (induction ws arbitrary: a) simp_all

lemma payloads_separate:
  assumes "i < j" and "j < length ws" and "\<forall>w \<in> set ws. 3 \<le> w"
    and "a + 8 * sum_list ws + 24 < 2 ^ 64"
  shows "separate (fst (payloads a ws ! i)) (snd (payloads a ws ! i))
           (fst (payloads a ws ! j)) (snd (payloads a ws ! j))"
  using assms
proof (induction ws arbitrary: a i j)
  case (Cons w ws)
  show ?case
  proof (cases i)
    case 0
    have "payloads (a + 8 * w) ws ! (j - 1) \<in> set (payloads (a + 8 * w) ws)"
      using Cons.prems by simp
    then obtain A where A: "fst (payloads (a + 8 * w) ws ! (j - 1)) = of_nat A"
      "a + 8 * w + 24 \<le> A"
      "A + snd (payloads (a + 8 * w) ws ! (j - 1)) \<le> a + 8 * w + 8 * sum_list ws"
      using payloads_mem Cons.prems(3) by (metis list.set_intros(2) prod.collapse)
    have "separate (of_nat (a + 24)) (8 * w - 24) (of_nat A)
        (snd (payloads (a + 8 * w) ws ! (j - 1)))"
      using A Cons.prems by (intro separate_nat) auto
    then show ?thesis using 0 Cons.prems(1) A(1) by (simp add: nth_Cons')
  next
    case (Suc i')
    then show ?thesis
      using Cons.IH [of i' "j - 1" "a + 8 * w"] Cons.prems by (auto simp: nth_Cons')
  qed
qed simp

definition heap_regions :: "heap \<Rightarrow> (u64 \<times> nat) list \<Rightarrow> nat \<Rightarrow> bool" where
  "heap_regions h rs room \<longleftrightarrow>
     (\<exists>ws. heap_ok h ws room \<and> rs = payloads (unat (heap_start h)) ws)"

lemma kalloc_regions:
  assumes "heap_regions h rs room" and n: "3 \<le> n" "n + 3 \<le> room" "n < 2 ^ 31"
  shows "\<exists>p h'. kalloc (of_nat n) h = Some (p, h') \<and>
    heap_regions h' (rs @ [(p, 8 * n - 24)]) (room - n) \<and>
    (\<forall>(a, k) \<in> set (rs @ [(p, 8 * n - 24)]). \<forall>x. in_range x a k \<longrightarrow> hmem h' x = hmem h x)"
proof -
  obtain ws where ok: "heap_ok h ws room" and rs: "rs = payloads (unat (heap_start h)) ws"
    using assms(1) by (auto simp: heap_regions_def)
  let ?s = "unat (heap_start h)" and ?a = "free_addr h ws"
  obtain h' where h': "kalloc (of_nat n) h = Some (of_nat (?a + 24), h')"
    "heap_ok h' (ws @ [n]) (room - n)" "heap_start h' = heap_start h"
    and frame: "\<And>x. \<not> in_range x (of_nat ?a) 24 \<Longrightarrow>
        \<not> in_range x (of_nat (?a + 8 * n)) 24 \<Longrightarrow> hmem h' x = hmem h x"
    using kalloc_step [OF ok n] by metis
  have w3: "\<forall>w \<in> set (ws @ [n]). 3 \<le> w" using h'(2) unfolding heap_ok_def by blast
  have b: "?a + 8 * room < 2 ^ 64" by (rule heap_ok_bounds [OF ok])
  have new: "payloads ?s (ws @ [n]) = rs @ [(of_nat (?a + 24), 8 * n - 24)]"
    by (simp add: payloads_append rs free_addr_def)
  have "hmem h' x = hmem h x"
    if m: "(c, k) \<in> set (payloads ?s (ws @ [n]))" and x: "in_range x c k" for c k x
  proof (rule frame)
    consider "(c, k) \<in> set (payloads ?s ws)" | "(c, k) = (of_nat (?a + 24), 8 * n - 24)"
      using m unfolding new rs by auto
    then have "separate (of_nat ?a) 24 c k"
    proof cases
      case 1
      then obtain A where "c = of_nat A" "?s + 24 \<le> A" "A + k \<le> ?a"
        using payloads_mem w3 by (fastforce simp: free_addr_def)
      moreover from this have "0 < k \<Longrightarrow> separate c k (of_nat ?a) 24"
        using b n by (auto intro!: separate_nat)
      ultimately show ?thesis using x separate_sym by (cases "k = 0") auto
    next
      case 2
      then show ?thesis using n b by (auto intro!: separate_nat simp del: of_nat_add)
    qed
    then show "\<not> in_range x (of_nat ?a) 24" using x by (rule separate_not_in_range)
    obtain A where A: "c = of_nat A" "A + k \<le> ?a + 8 * n"
      using payloads_mem [OF m w3] by (auto simp: free_addr_def algebra_simps)
    then have "0 < k \<Longrightarrow> separate c k (of_nat (?a + 8 * n)) 24"
      using b n unfolding A(1) by (intro separate_nat) auto
    then show "\<not> in_range x (of_nat (?a + 8 * n)) 24"
      using x separate_disjoint by (cases "k = 0") auto
  qed
  then show ?thesis
    using h' new unfolding heap_regions_def
    by (intro exI [of _ "of_nat (?a + 24)"] exI [of _ h']) (auto simp: rs)
qed

lemma heap_regions_separate:
  assumes "heap_regions h rs room" and "i < j" and "j < length rs"
  shows "separate (fst (rs ! i)) (snd (rs ! i)) (fst (rs ! j)) (snd (rs ! j))"
  using assms payloads_separate [of i j _ "unat (heap_start h)"]
  by (auto simp: heap_regions_def heap_ok_def)

interpretation heap_alloc: allocator "\<lambda>n. kalloc (of_nat n)" heap_regions hmem
  by unfold_locales (rule kalloc_regions heap_regions_separate; assumption)+

section \<open>The installed heap\<close>

text \<open>\<open>heap_base\<close> is the page boundary behind the kernel image at which the heap starts.\<close>

definition heap_base :: "u64 \<Rightarrow> nat" where
  "heap_base kernel_end = unat ((kernel_end + 0x1000) AND NOT 0xFFF)"

lemma heap_base_less: "unat kernel_end + 0x1000 < 2 ^ 64 \<Longrightarrow>
    unat kernel_end < heap_base kernel_end \<and> heap_base kernel_end \<le> unat kernel_end + 0x1000"
proof -
  assume k: "unat kernel_end + 0x1000 < 2 ^ 64"
  have "unat (kernel_end + 0x1000) = unat kernel_end + 0x1000"
    using unat_add_no_wrap [of kernel_end "0x1000"] k by simp
  then have "heap_base kernel_end =
      unat kernel_end + 0x1000 - (unat kernel_end + 0x1000) mod 4096"
    unfolding heap_base_def unat_page_down by simp
  moreover have "(unat kernel_end + 0x1000) mod 4096 < 4096" by simp
  ultimately show ?thesis by linarith
qed

lemma install_heap_ok:
  assumes "unat kernel_end + 0x1000 + 8 * 131072 < 2 ^ 64"
  shows "heap_ok (install_heap kernel_end m) [] 131072"
proof -
  let ?s = "(kernel_end + 0x1000) AND NOT 0xFFF"
  have s: "unat ?s = heap_base kernel_end" by (simp add: heap_base_def)
  have "heap_base kernel_end \<le> unat kernel_end + 0x1000" and "0 < heap_base kernel_end"
    using heap_base_less [of kernel_end] assms by auto
  then have "0 < unat ?s" and "unat ?s + 8 * 131072 < 2 ^ 64"
    using assms unfolding s by auto
  then show ?thesis
    by (simp add: heap_ok_def install_heap_def Let_def free_addr_def hdr_get_same)
qed

section \<open>Properties\<close>

text \<open>Lemma kalloc_bump. On a heap whose free block has \<open>r\<close> words, a request of \<open>n\<close> words that
  leaves room for the next header is granted from the start of the free block: the result is
  the address behind its header, the block joins the used ones, the free block shrinks by
  \<open>n\<close> words, and no byte changes outside the two 24-byte headers.\<close>
theorem kalloc_bump:
  assumes "heap_ok h ws r" and "3 \<le> n" and "n + 3 \<le> r" and "n < 2 ^ 31"
  shows "\<exists>h'. kalloc (of_nat n) h = Some (of_nat (free_addr h ws + 24), h') \<and>
    heap_ok h' (ws @ [n]) (r - n) \<and> heap_start h' = heap_start h \<and>
    (\<forall>x. \<not> in_range x (of_nat (free_addr h ws)) 24 \<longrightarrow>
         \<not> in_range x (of_nat (free_addr h ws + 8 * n)) 24 \<longrightarrow> hmem h' x = hmem h x)"
  using kalloc_step [OF assms] by metis

definition sample_heap :: heap where
  "sample_heap = install_heap 0x200000 (\<lambda>_. 0)"

lemma sample_heap_ok: "heap_ok sample_heap [] 131072"
  unfolding sample_heap_def by (rule install_heap_ok) simp

theorem kalloc_bump_witness:
  "\<exists>h'. kalloc 0x4000 sample_heap = Some (of_nat (free_addr sample_heap [] + 24), h') \<and>
    heap_ok h' [0x4000] 114688"
  using kalloc_bump [OF sample_heap_ok, where n = "0x4000"] by auto

text \<open>C10 kalloc_regions_disjoint. Any series of requests of at least three words that the heap
  has room for is granted, and the regions behind the returned pointers (the requested words
  less the header) do not overlap. The heap installed behind the kernel image has 131072 words.\<close>
theorem kalloc_regions_disjoint:
  assumes "unat kernel_end + 0x1000 + 8 * 131072 < 2 ^ 64"
    and "\<forall>n \<in> set ns. 3 \<le> n" and "sum_list ns + 3 \<le> 131072"
  shows "\<exists>ps h'. alloc_all (\<lambda>n. kalloc (of_nat n)) ns (install_heap kernel_end m) = Some (ps, h') \<and>
    length ps = length ns \<and>
    (\<forall>i j. i < j \<and> j < length ns \<longrightarrow>
       separate (ps ! i) (8 * ns ! i - 24) (ps ! j) (8 * ns ! j - 24))"
proof (rule heap_alloc.alloc_all_separate)
  show "heap_regions (install_heap kernel_end m) [] 131072"
    using install_heap_ok [OF assms(1)] unfolding heap_regions_def
    by (intro exI [of _ "[]"]) simp
  show "\<forall>n \<in> set ns. 3 \<le> n \<and> n < 2 ^ 31"
    using assms(2,3) member_le_sum_list [of _ ns] by fastforce
qed (rule assms(3))

theorem kalloc_regions_disjoint_witness:
  "\<exists>ps h'. alloc_all (\<lambda>n. kalloc (of_nat n)) [4, 4, 0x4000, 0x4000, 0x4000]
      (install_heap 0x200000 (\<lambda>_. 0)) = Some (ps, h') \<and> length ps = 5"
  using kalloc_regions_disjoint [of "0x200000" "[4, 4, 0x4000, 0x4000, 0x4000]" "\<lambda>_. 0"] by auto

text \<open>Lemma kalloc_out_of_room. A request that is not smaller than the free block, read as a
  64-bit value after sign extension (so every negative one), ends with a null pointer after a
  search of the whole list and leaves the heap as it was.\<close>
theorem kalloc_out_of_room:
  assumes "heap_ok h ws r" and "\<not> int_to_u64 n < of_nat r"
  shows "kalloc n h = Some (0, h)"
  using kalloc_full_result [OF assms(1)] assms(2) by simp

theorem kalloc_out_of_room_witness:
  "kalloc (- 1) sample_heap = Some (0, sample_heap)"
  by (rule kalloc_out_of_room [OF sample_heap_ok]) (simp add: int_to_u64_def)

text \<open>C40 kalloc_header_past_heap. The test \<open>size > n\<close> forgets the header of the block that is
  split off: a request one or two words short of the free block is granted, and the new
  header's link field is written behind the end of the heap.\<close>
theorem kalloc_header_past_heap:
  assumes "heap_ok h ws r" and "3 \<le> n" and "n < r" and "r < n + 3" and "n < 2 ^ 31"
    and "free_addr h ws + 8 * n + 24 < 2 ^ 64"
  shows "\<exists>p h'. kalloc (of_nat n) h = Some (p, h') \<and> p \<noteq> 0 \<and>
    load64 (hmem h') (of_nat (free_addr h ws + 8 * n + 16)) = 0 \<and>
    free_addr h ws + 8 * r \<le> free_addr h ws + 8 * n + 16"
proof -
  let ?p = "free_ptr h" and ?a = "free_addr h ws"
  note b = heap_ok_bounds [OF assms(1)]
  have i: "int_to_u64 (of_nat n) = of_nat n" using assms by (simp add: int_to_u64_of_nat)
  have q: "?p + 8 * of_nat n = of_nat (?a + 8 * n)" using b(4) by simp
  have "separate (of_nat ?a) 24 (of_nat (?a + 8 * n)) 24"
    using assms by (intro separate_nat) auto
  then have sep: "separate ?p 24 (?p + 8 * int_to_u64 (of_nat n)) 24"
    unfolding i q using b(4) by simp
  let ?h = "snd (split_block ?p (of_nat n) h)"
  have h: "hmem ?h = split_mem ?p (of_nat (?a + 8 * n)) (of_nat n) (hmem h)"
    using split_block_eq [OF sep] unfolding i q by simp
  have "blk_next (hmem ?h) (of_nat (?a + 8 * n)) = blk_next (hmem h) ?p"
    unfolding h by (rule split_mem_fields(6) [OF sep [unfolded i q]])
  also have "\<dots> = 0"
    using assms(1) blocks_at_last [of "hmem h" "unat (heap_start h)" ws r]
    by (simp add: heap_ok_def free_addr_def)
  finally have "load64 (hmem ?h) (of_nat (?a + 8 * n + 16)) = 0"
    by (simp add: blk_next_def)
  moreover have "?p + 24 \<noteq> 0"
    using of_nat_pos_u64 [of "?a + 24"] assms b(4) by simp
  ultimately show ?thesis
    using kalloc_at_free_ptr [OF assms(1), of n] assms by auto
qed

theorem kalloc_header_past_heap_witness:
  "\<exists>p h'. kalloc 131071 sample_heap = Some (p, h') \<and> p \<noteq> 0 \<and>
    load64 (hmem h') (of_nat (free_addr sample_heap [] + 8 * 131071 + 16)) = 0"
proof -
  have "free_addr sample_heap [] + 8 * 131072 < 2 ^ 64"
    by (rule heap_ok_bounds [OF sample_heap_ok])
  moreover have "free_addr sample_heap [] = 0x201000"
    by (simp add: free_addr_def sample_heap_def install_heap_def Let_def)
  ultimately show ?thesis
    using kalloc_header_past_heap [OF sample_heap_ok, where n = 131071] by auto
qed

text \<open>A block that is linked to itself and does not fit keeps the search going for ever.\<close>

lemma find_block_cycle:
  assumes "p \<noteq> 0" and "\<not> fits m p n" and "blk_next m p = p"
  shows "find_block m n p = None"
proof -
  have "\<not> (p \<noteq> 0 \<and> \<not> fits m p n \<and> blk_next m p = p)" if "find_block m n p = Some r" for r
  proof (rule find_block.raw_induct
      [where P = "\<lambda>m n p r. \<not> (p \<noteq> 0 \<and> \<not> fits m p n \<and> blk_next m p = p)", OF _ that])
    fix f and m :: memory and n :: s32 and p r :: u64
    assume IH: "\<And>m n p r. f m n p = Some r \<Longrightarrow> \<not> (p \<noteq> 0 \<and> \<not> fits m p n \<and> blk_next m p = p)"
      and eq: "(if p = 0 then Some 0 else if fits m p n then Some p else f m n (blk_next m p)) = Some r"
    show "\<not> (p \<noteq> 0 \<and> \<not> fits m p n \<and> blk_next m p = p)"
      using eq IH [of m n p r] by auto
  qed
  then show ?thesis using assms by (cases "find_block m n p") auto
qed

text \<open>Lemma kalloc_zero_hangs_next. A request of zero words as the first one is granted, but the new
  block is the old one, marked used and linked to itself: every later request, whatever its
  size, searches for ever.\<close>
theorem kalloc_zero_hangs_next:
  assumes "heap_ok h [] r"
  shows "\<exists>h'. kalloc 0 h = Some (free_ptr h + 24, h') \<and> (\<forall>n. kalloc n h' = None)"
proof -
  let ?p = "free_ptr h" and ?h = "snd (split_block (free_ptr h) 0 h)"
  have r: "0 < r" and start: "heap_start h = ?p" and p0: "?p \<noteq> 0"
    using assms by (auto simp: heap_ok_def free_addr_def)
  have z: "int_to_u64 0 = 0" by (simp add: int_to_u64_def)
  have "blk_status (hmem ?h) ?p = BLOCK_USED" and "blk_next (hmem ?h) ?p = ?p"
    and ptrs: "free_ptr ?h = ?p" "heap_start ?h = ?p"
    using start by (simp_all add: split_block_def z Let_def hdr_get_same)
  then have nofit: "\<not> fits (hmem ?h) ?p n" and cyc: "blk_next (hmem ?h) ?p = ?p" for n
    by (simp_all add: fits_def BLOCK_USED_def BLOCK_FREE_def)
  have "kalloc n ?h = None" for n
    using nofit find_block_cycle [OF p0 nofit cyc] by (simp add: kalloc_def ptrs)
  moreover have "kalloc 0 h = Some (?p + 24, ?h)"
    using kalloc_at_free_ptr [OF assms, of 0] r by simp
  ultimately show ?thesis by blast
qed

theorem kalloc_zero_hangs_next_witness:
  "\<exists>h'. kalloc 0 sample_heap = Some (free_ptr sample_heap + 24, h') \<and> kalloc 16 h' = None"
  using kalloc_zero_hangs_next [OF sample_heap_ok] by blast

lemma low_byte_page:
  assumes "(p :: u64) AND 0xFFF = 0" and "unat p + 8 < 2 ^ 64"
  shows "(ucast (p + 8) :: u8) \<noteq> 0"
proof -
  have "(0xFFF :: u64) = mask 12" by (simp add: mask_eq_exp_minus_1)
  then have "take_bit 12 p = 0" using assms(1) by (simp add: take_bit_eq_mask)
  then have "unat p mod 4096 = 0" by (metis unat_take_bit_12 unat_0)
  then have "4096 dvd unat p" by (simp add: dvd_eq_mod_eq_0)
  then obtain k where "unat p = 4096 * k" by (auto elim!: dvdE)
  then have "unat p + 8 = 8 + 16 * k * 256" by simp
  then have "(unat p + 8) mod 256 = 8" by (simp only: mod_mult_self1) simp
  moreover have "unat (p + 8) = unat p + 8"
    using unat_add_no_wrap [of p 8] assms(2) by simp
  then have "unat (ucast (p + 8) :: u8) = (unat p + 8) mod 256"
    by (simp only: unat_ucast_u8)
  ultimately have "unat (ucast (p + 8) :: u8) = 8" by simp
  then show ?thesis by (metis unat_0 zero_neq_numeral)
qed

lemma store64_first_byte: "store64 m a w a = ucast w"
  by (simp add: store64_def mem_eval)

text \<open>Lemma kalloc_one_exhausts. A request of one word as the first one makes the two headers
  overlap: the link of the used block overwrites the status byte of the free one, so the rest of
  the heap is never found again and every later request gets a null pointer.\<close>
theorem kalloc_one_exhausts:
  assumes "heap_ok h [] r" and "free_ptr h AND 0xFFF = 0"
  shows "\<exists>h'. kalloc 1 h = Some (free_ptr h + 24, h') \<and> (\<forall>n. kalloc n h' = Some (0, h'))"
proof -
  let ?p = "free_ptr h" and ?h = "snd (split_block (free_ptr h) 1 h)"
  have r: "3 \<le> r" and start: "heap_start h = ?p"
    and bound: "unat ?p + 8 * r < 2 ^ 64" and p0: "?p \<noteq> 0" and nxt: "blk_next (hmem h) ?p = 0"
    using assms(1) by (auto simp: heap_ok_def free_addr_def)
  have o: "int_to_u64 1 = 1" by (simp add: int_to_u64_def)
  have q0: "?p + 8 \<noteq> 0"
    using of_nat_pos_u64 [of "unat ?p + 8"] bound r by simp
  define m1 where "m1 = set_size (?p + 8) (blk_size (hmem h) ?p - 1) (hmem h)"
  define m2 where "m2 = set_status (?p + 8) BLOCK_FREE (set_next (?p + 8) (blk_next m1 ?p) m1)"
  have m: "hmem ?h = set_next ?p (?p + 8) (set_status ?p BLOCK_USED (set_size ?p 1 m2))"
    and ptrs: "free_ptr ?h = ?p + 8" "heap_start ?h = ?p"
    using start by (simp_all add: split_block_def o Let_def m1_def m2_def)
  have "blk_next m1 ?p = blk_next (hmem h) ?p"
    unfolding m1_def blk_next_def set_size_def
    by (rule acc64.ld_st_separate) (simp add: separate_def)
  then have n2: "blk_next m2 (?p + 8) = 0"
    using nxt by (simp add: m2_def hdr_get_same)
  have out: "\<not> in_range x ?p 24" if "in_range x (?p + 8 + 16) 8" for x
    using that separate_not_in_range [of ?p 24 "?p + 8 + 16" 8 x] by (simp add: separate_def)
  have "blk_next (hmem ?h) (?p + 8) = blk_next m2 (?p + 8)"
    unfolding m blk_next_def by (rule acc64.ld_cong) (simp only: hdr_set_outside [OF out])
  then have qn: "blk_next (hmem ?h) (?p + 8) = 0" using n2 by simp
  have "blk_status (hmem ?h) (?p + 8) = ucast (?p + 8)"
    by (simp add: m blk_status_def set_next_def store64_first_byte ac_simps)
  then have qs: "blk_status (hmem ?h) (?p + 8) \<noteq> BLOCK_FREE"
    using low_byte_page [OF assms(2)] bound r by (simp add: BLOCK_FREE_def)
  have ps: "blk_status (hmem ?h) ?p \<noteq> BLOCK_FREE" and pn: "blk_next (hmem ?h) ?p = ?p + 8"
    by (simp_all add: m hdr_get_same BLOCK_USED_def BLOCK_FREE_def)
  have "find_block (hmem ?h) n 0 = Some 0" for n by (simp add: find_block.simps)
  then have "find_block (hmem ?h) n (?p + 8) = Some 0" for n
    using qs qn by (subst find_block.simps) (simp add: fits_def)
  then have "find_block (hmem ?h) n ?p = Some 0" for n
    using ps pn p0 by (subst find_block.simps) (simp add: fits_def)
  then have "kalloc n ?h = Some (0, ?h)" for n
    using qs by (simp add: kalloc_def ptrs fits_def)
  moreover have "kalloc 1 h = Some (?p + 24, ?h)"
    using kalloc_at_free_ptr [OF assms(1), of 1] r by simp
  ultimately show ?thesis by blast
qed

theorem kalloc_one_exhausts_witness:
  "\<exists>h'. kalloc 1 sample_heap = Some (free_ptr sample_heap + 24, h') \<and>
    kalloc 16 h' = Some (0, h')"
proof -
  have "free_ptr sample_heap AND 0xFFF = 0"
    by (simp add: sample_heap_def install_heap_def Let_def)
  then show ?thesis using kalloc_one_exhausts [OF sample_heap_ok] by blast
qed

end
