(* ===== verification/Sched.thy ===== *)
theory Sched
  imports Heap PortIO
begin

text \<open>
  The process table and the scheduler, \<open>kernel/scheduler.c\<close> with
  \<open>kernel/include/process.h\<close> and \<open>kernel/include/interrupts.h\<close>: four processes, the saved
  registers of each, the counter that says which of them runs, and the stacks
  \<open>init_scheduler\<close> takes from the kernel heap. Also the speaker routine of the same file.
\<close>

section \<open>State\<close>

text \<open>The registers as the interrupt stub pushes them, lowest address first.\<close>

record cpu_status =
  r15 :: u64
  r14 :: u64
  r13 :: u64
  r12 :: u64
  r11 :: u64
  r10 :: u64
  r9 :: u64
  r8 :: u64
  rbp :: u64
  rdi :: u64
  rsi :: u64
  rdx :: u64
  rcx :: u64
  rbx :: u64
  rax :: u64
  vector_number :: u64
  error_code :: u64
  iret_rip :: u64
  iret_cs :: u64
  iret_flags :: u64
  iret_rsp :: u64
  iret_ss :: u64

datatype status_t = READY | RUNNING | DEAD

record process_t =
  process_status :: status_t
  ctx :: cpu_status
  next_process :: u64

text \<open>The C \<open>int counter\<close> stays between 0 and 3 and is kept as a natural number.\<close>

record sched =
  processes :: "process_t list"
  counter :: nat

section \<open>Operations\<close>

definition alloc_stack :: "heap \<Rightarrow> (u64 \<times> heap) option" where
  "alloc_stack h =
     (case kalloc 0x4000 h of None \<Rightarrow> None
      | Some (allocation, h) \<Rightarrow> Some (allocation + 0x4000, h))"

definition init_process :: "u64 \<Rightarrow> u64 \<Rightarrow> process_t \<Rightarrow> process_t" where
  "init_process entry stack p =
     p\<lparr>process_status := READY,
       ctx := (ctx p)\<lparr>rbp := 0, iret_ss := 0x10, iret_rsp := stack, iret_flags := 0x202,
                iret_cs := 0x8, iret_rip := entry, rdi := 0\<rparr>\<rparr>"

definition set_process :: "nat \<Rightarrow> (process_t \<Rightarrow> process_t) \<Rightarrow> sched \<Rightarrow> sched" where
  "set_process i f s = s\<lparr>processes := (processes s)[i := f (processes s ! i)]\<rparr>"

text \<open>
  The parameters are the addresses of the three process functions. The slots are filled in
  the order 3, 1, 2; slot 0 is the boot code that goes on running.
\<close>

definition init_scheduler ::
  "u64 \<Rightarrow> u64 \<Rightarrow> u64 \<Rightarrow> sched \<Rightarrow> heap \<Rightarrow> (sched \<times> heap) option" where
  "init_scheduler processA processB processC s h =
     (case alloc_stack h of None \<Rightarrow> None | Some (stack, h) \<Rightarrow>
        (let s = set_process 3 (init_process processC stack) s in
         case alloc_stack h of None \<Rightarrow> None | Some (stack, h) \<Rightarrow>
           (let s = set_process 1 (init_process processA stack) s in
            case alloc_stack h of None \<Rightarrow> None | Some (stack, h) \<Rightarrow>
              Some (set_process 2 (init_process processB stack) s, h))))"

text \<open>The assignments of \<open>save_context\<close>, in its order; \<open>rbx\<close> is not among them.\<close>

definition save_registers :: "cpu_status \<Rightarrow> cpu_status \<Rightarrow> cpu_status" where
  "save_registers current c =
     c\<lparr>r15 := r15 current, r14 := r14 current, r13 := r13 current, r12 := r12 current,
       r11 := r11 current, r10 := r10 current, r9 := r9 current, r8 := r8 current,
       rbp := rbp current, rdi := rdi current, rsi := rsi current, rdx := rdx current,
       rcx := rcx current, rax := rax current, iret_rip := iret_rip current,
       iret_cs := iret_cs current, iret_flags := iret_flags current,
       iret_rsp := iret_rsp current, iret_ss := iret_ss current\<rparr>"

definition save_context :: "cpu_status \<Rightarrow> sched \<Rightarrow> sched" where
  "save_context current s =
     (let s = set_process (counter s)
          (\<lambda>p. p\<lparr>process_status := READY, ctx := save_registers current (ctx p)\<rparr>) s
      in s\<lparr>counter := (if counter s = 3 then 0 else counter s + 1)\<rparr>)"

text \<open>\<open>schedule\<close> returns a pointer to the context of the slot the counter names.\<close>

datatype frame_ptr = Interrupted | Saved nat

definition schedule :: "cpu_status \<Rightarrow> sched \<Rightarrow> frame_ptr" where
  "schedule current s = Saved (counter s)"

definition sounds :: "u16 list" where
  "sounds = [523, 440, 380, 680, 523]"

definition play_sound :: "device \<Rightarrow> u32 \<Rightarrow> trace \<Rightarrow> trace res" where
  "play_sound dev nFrequence h =
     (if nFrequence = 0 then Inl Div_By_Zero
      else
        (let Div = 1193180 div nFrequence;
             h = outb 0x43 0xB6 h;
             h = outb 0x42 (ucast Div) h;
             h = outb 0x42 (ucast (drop_bit 8 Div)) h;
             (tmp, h) = inb dev 0x61 h
         in Inr (if tmp \<noteq> (tmp OR 3) then outb 0x61 (tmp OR 3) h else h)))"

section \<open>The process table\<close>

definition sched_ok :: "sched \<Rightarrow> bool" where
  "sched_ok s \<longleftrightarrow> length (processes s) = 4 \<and> counter s < 4"

definition saved :: "sched \<Rightarrow> nat \<Rightarrow> cpu_status" where
  "saved s i = ctx (processes s ! i)"

named_theorems sched_simps

lemma counter_save [sched_simps]:
  "sched_ok s \<Longrightarrow> counter (save_context c s) = (counter s + 1) mod 4"
  by (auto simp: save_context_def set_process_def Let_def sched_ok_def)

lemma sched_ok_save [sched_simps]: "sched_ok s \<Longrightarrow> sched_ok (save_context c s)"
  by (auto simp: save_context_def set_process_def Let_def sched_ok_def)

lemma saved_save [sched_simps]:
  "sched_ok s \<Longrightarrow> i < 4 \<Longrightarrow> saved (save_context c s) i =
     (if i = counter s then save_registers c (saved s i) else saved s i)"
  by (auto simp: save_context_def set_process_def Let_def sched_ok_def saved_def)

lemma saved_set_process [sched_simps]:
  "sched_ok s \<Longrightarrow> i < 4 \<Longrightarrow> j < 4 \<Longrightarrow> saved (set_process j f s) i =
     (if i = j then ctx (f (processes s ! j)) else saved s i)"
  by (auto simp: set_process_def sched_ok_def saved_def)

lemma sched_ok_set_process [sched_simps]: "sched_ok s \<Longrightarrow> sched_ok (set_process j f s)"
  by (simp add: set_process_def sched_ok_def)

lemma counter_set_process [sched_simps]: "counter (set_process j f s) = counter s"
  by (simp add: set_process_def)

text \<open>What a slot does not take over from the interrupted registers.\<close>

lemma save_registers_keeps [simp]:
  "rbx (save_registers c d) = rbx d"
  "vector_number (save_registers c d) = vector_number d"
  "error_code (save_registers c d) = error_code d"
  by (simp_all add: save_registers_def)

lemma save_registers_eq:
  "save_registers c d =
     c\<lparr>rbx := rbx d, vector_number := vector_number d, error_code := error_code d\<rparr>"
  by (simp add: save_registers_def)

lemma save_registers_twice [simp]: "save_registers c (save_registers e d) = save_registers c d"
  by (simp add: save_registers_eq)

section \<open>Properties\<close>

text \<open>Lemma save_context_slot. Saving the interrupted registers puts all of them except \<open>rbx\<close> (and
  the vector number and error code) into the slot the counter names, leaves every other slot
  alone and moves the counter on to the next slot, round-robin over the four; \<open>rbx\<close> keeps the
  value the slot had before.\<close>
theorem save_context_slot:
  assumes "sched_ok s" and "i < 4"
  shows "sched_ok (save_context c s) \<and> counter (save_context c s) = (counter s + 1) mod 4 \<and>
    saved (save_context c s) i =
      (if i = counter s then c\<lparr>rbx := rbx (saved s i), vector_number := vector_number (saved s i),
                              error_code := error_code (saved s i)\<rparr>
       else saved s i)"
  using assms by (simp add: sched_simps save_registers_eq)

definition zero_context :: cpu_status where
  "zero_context = \<lparr>r15 = 0, r14 = 0, r13 = 0, r12 = 0, r11 = 0, r10 = 0, r9 = 0, r8 = 0,
     rbp = 0, rdi = 0, rsi = 0, rdx = 0, rcx = 0, rbx = 0, rax = 0, vector_number = 0,
     error_code = 0, iret_rip = 0, iret_cs = 0, iret_flags = 0, iret_rsp = 0, iret_ss = 0\<rparr>"

text \<open>The table as the kernel image has it, zero bytes in the \<open>.bss\<close> section.\<close>

definition boot_sched :: sched where
  "boot_sched =
     \<lparr>processes = replicate 4 \<lparr>process_status = READY, ctx = zero_context, next_process = 0\<rparr>,
      counter = 0\<rparr>"

lemma boot_sched_ok: "sched_ok boot_sched"
  by (simp add: sched_ok_def boot_sched_def)

theorem save_context_slot_witness:
  "rbx (saved (save_context (zero_context\<lparr>rax := 7, rbx := 9\<rparr>) boot_sched) 0) = 0 \<and>
   rax (saved (save_context (zero_context\<lparr>rax := 7, rbx := 9\<rparr>) boot_sched) 0) = 7"
  using save_context_slot [OF boot_sched_ok, where i = 0 and c = "zero_context\<lparr>rax := 7, rbx := 9\<rparr>"]
  by (simp add: boot_sched_def saved_def zero_context_def)

text \<open>C30 init_scheduler_contexts. On a heap with room for three stacks, \<open>init_scheduler\<close> gives
  the slots 1, 2 and 3 the entry points of the processes A, B and C with interrupts enabled
  and a kernel stack each; the 16 KiB below the three stack tops do not overlap, lie in the
  regions the heap granted, and slot 0 keeps its context.\<close>
theorem init_scheduler_contexts:
  assumes "sched_ok s" and "heap_regions h [] room" and "3 * 0x4000 + 3 \<le> room"
  shows "\<exists>s' h' a b c. init_scheduler pA pB pC s h = Some (s', h') \<and> sched_ok s' \<and>
    counter s' = counter s \<and> saved s' 0 = saved s 0 \<and>
    iret_rip (saved s' 1) = pA \<and> iret_rip (saved s' 2) = pB \<and> iret_rip (saved s' 3) = pC \<and>
    iret_rsp (saved s' 1) = a + 0x4000 \<and> iret_rsp (saved s' 2) = b + 0x4000 \<and>
    iret_rsp (saved s' 3) = c + 0x4000 \<and>
    (\<forall>i \<in> {1, 2, 3}. iret_flags (saved s' i) = 0x202 \<and> iret_cs (saved s' i) = 8 \<and>
        iret_ss (saved s' i) = 0x10) \<and>
    separate a 0x4000 b 0x4000 \<and> separate a 0x4000 c 0x4000 \<and> separate b 0x4000 c 0x4000"
proof -
  let ?n = "0x4000 :: nat"
  have "\<forall>n \<in> set [?n, ?n, ?n]. 3 \<le> n \<and> n < 2 ^ 31" and "sum_list [?n, ?n, ?n] + 3 \<le> room"
    using assms(3) by auto
  from heap_alloc.alloc_all_separate [OF assms(2) this]
  obtain ps h' where all: "alloc_all (\<lambda>n. kalloc (of_nat n)) [?n, ?n, ?n] h = Some (ps, h')"
    and len: "length ps = length [?n, ?n, ?n]"
    and sep: "\<And>i j. i < j \<Longrightarrow> j < length [?n, ?n, ?n] \<Longrightarrow>
       separate (ps ! i) (8 * [?n, ?n, ?n] ! i - 24) (ps ! j) (8 * [?n, ?n, ?n] ! j - 24)"
    by blast
  obtain c h1 where 1: "kalloc 0x4000 h = Some (c, h1)"
    using all by (auto split: option.splits)
  obtain a h2 where 2: "kalloc 0x4000 h1 = Some (a, h2)"
    using all 1 by (auto split: option.splits)
  obtain b h3 where 3: "kalloc 0x4000 h2 = Some (b, h3)"
    using all 1 2 by (auto split: option.splits)
  have ps: "ps = [c, a, b]" using all 1 2 3 by simp
  have "separate c 131048 a 131048" "separate c 131048 b 131048" "separate a 131048 b 131048"
    using sep [of 0 1] sep [of 0 2] sep [of 1 2] by (simp_all add: ps)
  then have "separate c 0x4000 a 0x4000" "separate c 0x4000 b 0x4000" "separate a 0x4000 b 0x4000"
    by (auto elim: separate_mono)
  moreover define s' where "s' = set_process 2 (init_process pB (b + 0x4000))
      (set_process 1 (init_process pA (a + 0x4000)) (set_process 3 (init_process pC (c + 0x4000)) s))"
  moreover have "init_scheduler pA pB pC s h = Some (s', h3)"
    by (simp add: init_scheduler_def alloc_stack_def 1 2 3 s'_def)
  ultimately show ?thesis
    using assms(1)
    by (intro exI [of _ s'] exI [of _ h3] exI [of _ a] exI [of _ b] exI [of _ c])
      (simp add: sched_simps init_process_def separate_sym)
qed

theorem init_scheduler_contexts_witness:
  "\<exists>s' h'. init_scheduler 0x1000 0x2000 0x3000 boot_sched sample_heap = Some (s', h') \<and>
    iret_rip (saved s' 3) = 0x3000"
proof -
  have "heap_regions sample_heap [] 131072"
    using sample_heap_ok unfolding heap_regions_def by (intro exI [of _ "[]"]) simp
  from init_scheduler_contexts [OF boot_sched_ok this] show ?thesis by fastforce
qed

text \<open>Lemma play_sound_divisor. For every audible frequency from 19 Hz up the two bytes sent to the
  timer, low byte first after the mode byte, are exactly the divisor 1193180 / f, which fits
  the timer's 16 bits; the speaker bits are set without touching the others.\<close>
theorem play_sound_divisor:
  assumes "19 \<le> f"
  shows "\<exists>lo hi rest. play_sound dev f h = Inr (rest @ Out 0x42 hi # Out 0x42 lo # Out 0x43 0xB6 # h) \<and>
    unat lo + 256 * unat hi = 1193180 div unat f \<and>
    (\<forall>v. Out 0x61 v \<in> set rest \<longrightarrow>
       (\<exists>t. v = t OR 3 \<and> In8 0x61 t \<in> set rest \<and> t = ucast (dev (Out 0x42 hi # Out 0x42 lo # Out 0x43 0xB6 # h) 0x61)))"
proof -
  let ?d = "1193180 div f"
  have f: "19 \<le> unat f" using assms by (simp add: word_le_nat_alt)
  have d: "unat ?d = 1193180 div unat f" by (simp add: unat_div)
  also have "\<dots> \<le> 1193180 div 19" using f by (rule div_le_mono2 [rotated]) simp
  finally have lt: "unat ?d < 65536" by simp
  have "unat (ucast (drop_bit 8 ?d) :: u8) = unat (drop_bit 8 ?d) mod 256"
    by (rule unat_ucast_u8)
  also have "unat (drop_bit 8 ?d) = unat ?d div 256"
    by (simp add: unat_drop_bit_eq drop_bit_nat_def)
  finally have "unat (ucast ?d :: u8) + 256 * unat (ucast (drop_bit 8 ?d) :: u8) = unat ?d"
    using lt by (simp add: unat_ucast_u8 less_mult_imp_div_less)
  moreover have "f \<noteq> 0" using f by auto
  ultimately show ?thesis
    unfolding d by (auto simp: play_sound_def outb_def inb_def Let_def
        intro!: exI [of _ "ucast ?d"] exI [of _ "ucast (drop_bit 8 ?d)"])
qed

theorem play_sound_divisor_witness:
  "\<exists>h. play_sound (\<lambda>h p. 0) 440 [] = Inr h"
  using play_sound_divisor [of 440 "\<lambda>h p. 0" "[]"] by auto

end
