(* ===== verification/Interrupts.thy ===== *)
theory Interrupts
  imports Sched Vmm
begin

text \<open>
  Interrupt handling, \<open>kernel/interrupts/interrupts.c\<close> and the assembly stub
  \<open>kernel/interrupts/stub.asm\<close> around it: the descriptor table, the general handler, and the
  machine that alternates between running code and interrupts as a step relation. What a
  handler does to the outside (a write to the local APIC, a halt, text on the screen) is
  recorded in a list of effects, newest first.
\<close>

section \<open>State\<close>

datatype effect = Mmio u64 u32 | Hlt | Sti | Lidt u16 u64 | Print string | Print_hex u64 | Print_int s32

record interrupt_descriptor =
  address_low :: u16
  selector :: u16
  ist :: u8
  flags :: u8
  address_mid :: u16
  address_high :: u32
  reserved :: u32

record irq =
  sch :: sched
  ticks :: s32
  idt :: "interrupt_descriptor list"
  effects :: "effect list"

definition APIC_BASE_ADDRESS :: u64 where "APIC_BASE_ADDRESS = 0xFEE00000"
definition APIC_EOI :: u64 where "APIC_EOI = 0xB0"

definition emit :: "effect \<Rightarrow> irq \<Rightarrow> irq" where
  "emit e k = k\<lparr>effects := e # effects k\<rparr>"

section \<open>The descriptor table\<close>

definition set_idt_entry :: "u8 \<Rightarrow> u64 \<Rightarrow> u8 \<Rightarrow> irq \<Rightarrow> irq" where
  "set_idt_entry vector handler dpl k =
     k\<lparr>idt := (idt k)[unat vector := (idt k ! unat vector)\<lparr>
         address_low := ucast (drop_bit 0 handler AND 0xFFFF),
         address_mid := ucast (drop_bit 16 handler AND 0xFFFF),
         address_high := ucast (drop_bit 32 handler AND 0xFFFFFFFF),
         selector := 0x8,
         flags := 0xE OR push_bit 5 (dpl AND 3) OR 0x80,
         ist := 0\<rparr>]\<rparr>"

definition load_idt :: "u64 \<Rightarrow> irq \<Rightarrow> irq" where
  "load_idt idt_addr k = emit (Lidt 0xFFF idt_addr) k"

function setup_loop :: "u64 \<Rightarrow> nat \<Rightarrow> irq \<Rightarrow> irq" where
  "setup_loop vector_0_handler i k =
     (if i < 256 then
        setup_loop vector_0_handler (Suc i)
          (set_idt_entry (of_nat i) (vector_0_handler + of_nat (i * 16)) 0 k)
      else k)"
  by pat_completeness auto
termination
  by (relation "measure (\<lambda>(v, i, k). 256 - i)") auto

declare setup_loop.simps [simp del]

definition setup_interrupts :: "u64 \<Rightarrow> u64 \<Rightarrow> irq \<Rightarrow> irq" where
  "setup_interrupts vector_0_handler idt_addr k =
     load_idt idt_addr (setup_loop vector_0_handler 0 k)"

section \<open>The handlers\<close>

definition get_val :: "irq \<Rightarrow> s32" where
  "get_val k = ticks k"

definition handle_timer :: "irq \<Rightarrow> irq" where
  "handle_timer k =
     (let k = emit (Print_int (ticks k)) k;
          k = k\<lparr>ticks := ticks k + 1\<rparr>
      in emit (Mmio (APIC_BASE_ADDRESS + APIC_EOI) 0) k)"

definition interrupt_general_handler :: "cpu_status \<Rightarrow> irq \<Rightarrow> frame_ptr \<times> irq" where
  "interrupt_general_handler context k =
     (let k = k\<lparr>sch := save_context context (sch k)\<rparr>; v = vector_number context in
      if v = 0x8 \<or> v = 0x20 \<or> v = 0x32 then
        let k = emit (Mmio (APIC_BASE_ADDRESS + APIC_EOI) 0) k;
            k = k\<lparr>ticks := ticks k + 1\<rparr>
        in (schedule context (sch k), k)
      else if v = 0x13 then (Interrupted, k)
      else if v = 0x14 then (Interrupted, emit Hlt k)
      else (Interrupted, k))"

text \<open>
  The stub hands the pushed registers to the handler, and the registers popped afterwards, up
  to the final \<open>iretq\<close>, come from the frame the handler's result points to.
\<close>

definition interrupt_stub :: "cpu_status \<Rightarrow> irq \<Rightarrow> cpu_status \<times> irq" where
  "interrupt_stub pushed k =
     (let (frame, k) = interrupt_general_handler pushed k
      in (case frame of Interrupted \<Rightarrow> pushed | Saved i \<Rightarrow> saved (sch k) i, k))"

text \<open>\<open>value\<close> is the content of \<open>CR2\<close>, the faulting address.\<close>

definition page_fault_handler :: "cpu_status \<Rightarrow> u64 \<Rightarrow> irq \<times> vm \<Rightarrow> (irq \<times> vm) res" where
  "page_fault_handler context value st =
     (let (k, s) = st;
          k = emit (Print (''PAGEFAULT'' @ [CHR 0x0A])) k;
          k = emit (Print ''RSP:  '') k; k = emit (Print_hex (iret_rsp context)) k;
          k = emit (Print ''RIP:  '') k; k = emit (Print_hex (iret_rip context)) k;
          k = emit (Print ''ERRROR CODE: '') k; k = emit (Print_hex (error_code context)) k;
          k = emit (Print ''CR2: '') k; k = emit (Print_hex value) k
      in if error_code context AND 1 \<noteq> 0 then
           let k = emit (Print (''Mapping cr3'' @ [CHR 0x0A])) k
           in seq (map_page s value value) (\<lambda>s. Inr (k, s))
         else Inr (emit Hlt (emit (Print (''Halting system'' @ [CHR 0x0A])) k), s))"

definition panic :: "cpu_status \<Rightarrow> irq \<Rightarrow> irq" where
  "panic context k =
     emit Hlt (fold (\<lambda>(name, value) k. emit (Print_hex value) (emit (Print name) k))
       [(''RAX:  '', rax context), (''RBX:  '', rbx context), (''RCX:  '', rcx context),
        (''RDX:  '', rdx context), (''RSI:  '', rsi context), (''RDI:  '', rdi context),
        (''RBP:  '', rbp context), (''IRET RIP:  '', iret_rip context),
        (''IRET CS:  '', iret_cs context), (''IRET FLAGS:  '', iret_flags context),
        (''IRET RSP:  '', iret_rsp context), (''IRET SS:  '', iret_ss context),
        (''ERROR CODE: '', error_code context), (''VECTOR NUMBER:  '', vector_number context)] k)"

section \<open>The gate a descriptor describes\<close>

definition gate_offset :: "interrupt_descriptor \<Rightarrow> u64" where
  "gate_offset d = ucast (address_low d) OR push_bit 16 (ucast (address_mid d)) OR
     push_bit 32 (ucast (address_high d))"

definition gate_present :: "interrupt_descriptor \<Rightarrow> bool" where
  "gate_present d \<longleftrightarrow> bit (flags d) 7"

definition gate_dpl :: "interrupt_descriptor \<Rightarrow> u8" where
  "gate_dpl d = drop_bit 5 (flags d) AND 3"

text \<open>Type 14 is an interrupt gate, type 15 a trap gate.\<close>

definition gate_type :: "interrupt_descriptor \<Rightarrow> u8" where
  "gate_type d = flags d AND 0xF"

lemma gate_offset_split:
  "ucast (ucast (drop_bit 0 (h :: u64) AND 0xFFFF) :: u16) OR
   push_bit 16 (ucast (ucast (drop_bit 16 h AND 0xFFFF) :: u16)) OR
   push_bit 32 (ucast (ucast (drop_bit 32 h AND 0xFFFFFFFF) :: u32)) = h"
  (is "?l = _")
proof -
  have m: "(0xFFFF :: u64) = mask 16" "(0xFFFFFFFF :: u64) = mask 32"
    by (simp_all add: mask_eq_exp_minus_1)
  show "?l = h"
  proof (rule bit_word_eqI)
    fix n assume "n < LENGTH(64)"
    then show "bit ?l n = bit h n"
      unfolding m by (cases "32 \<le> n"; cases "16 \<le> n") (auto simp: bit_simps)
  qed
qed

text \<open>The two bits of \<open>dpl\<close> decide the flags; all four cases are evaluated.\<close>

lemma flags_cases:
  fixes d :: u8
  assumes "d = 0 \<or> d = 1 \<or> d = 2 \<or> d = 3"
  shows "bit (0xE OR push_bit 5 d OR 0x80) 7 \<and> drop_bit 5 (0xE OR push_bit 5 d OR 0x80) AND 3 = d \<and>
    (0xE OR push_bit 5 d OR 0x80) AND 0xF = 0xE"
  using assms by auto

definition gate_flags :: "u8 \<Rightarrow> u8" where
  "gate_flags dpl = 0xE OR push_bit 5 (dpl AND 3) OR 0x80"

lemma flags_fields:
  "bit (gate_flags dpl) 7" "drop_bit 5 (gate_flags dpl) AND 3 = dpl AND 3"
  "gate_flags dpl AND 0xF = 0xE"
proof -
  have "dpl AND 3 \<le> 3" by (rule word_and_le1)
  then have "unat (dpl AND 3) \<le> 3" by (simp add: word_le_nat_alt)
  then have "unat (dpl AND 3) = 0 \<or> unat (dpl AND 3) = 1 \<or> unat (dpl AND 3) = 2 \<or>
      unat (dpl AND 3) = 3" by auto
  then have "dpl AND 3 = 0 \<or> dpl AND 3 = 1 \<or> dpl AND 3 = 2 \<or> dpl AND 3 = 3"
    by (auto dest!: word_eq_of_unat)
  from flags_cases [OF this]
  show "bit (gate_flags dpl) 7" "drop_bit 5 (gate_flags dpl) AND 3 = dpl AND 3"
    "gate_flags dpl AND 0xF = 0xE" unfolding gate_flags_def by blast+
qed

text \<open>What an entry set by \<open>set_idt_entry\<close> is.\<close>

definition gate_for :: "u64 \<Rightarrow> u8 \<Rightarrow> interrupt_descriptor \<Rightarrow> bool" where
  "gate_for handler dpl d \<longleftrightarrow> gate_offset d = handler \<and> selector d = 8 \<and> gate_present d \<and>
     gate_dpl d = dpl AND 3 \<and> gate_type d = 0xE \<and> ist d = 0"

lemma set_idt_entry_gate:
  assumes "length (idt k) = 256"
  shows "gate_for handler dpl (idt (set_idt_entry v handler dpl k) ! unat v)"
proof -
  have "unat v < 256" using unsigned_less [of v] by simp
  then show ?thesis
    using assms flags_fields [of dpl] gate_offset_split [of handler]
    unfolding set_idt_entry_def gate_flags_def [symmetric]
    by (simp add: gate_for_def gate_offset_def gate_present_def gate_dpl_def gate_type_def)
qed

lemma set_idt_entry_other:
  "unat v \<noteq> j \<Longrightarrow> idt (set_idt_entry v handler dpl k) ! j = idt k ! j"
  by (simp add: set_idt_entry_def)

lemma length_set_idt_entry [simp]:
  "length (idt (set_idt_entry v handler dpl k)) = length (idt k)"
  by (simp add: set_idt_entry_def)

lemma setup_loop_gates:
  assumes "length (idt k) = 256" and "i \<le> 256"
    and "\<forall>j<i. gate_for (v0 + of_nat (j * 16)) 0 (idt k ! j)"
  shows "length (idt (setup_loop v0 i k)) = 256 \<and>
    (\<forall>j<256. gate_for (v0 + of_nat (j * 16)) 0 (idt (setup_loop v0 i k) ! j))"
  using assms
proof (induction v0 i k rule: setup_loop.induct)
  case (1 v0 i k)
  show ?case
  proof (cases "i < 256")
    case True
    let ?k = "set_idt_entry (of_nat i) (v0 + of_nat (i * 16)) 0 k"
    have u: "unat (of_nat i :: u8) = i" using True by (simp add: unsigned_of_nat take_bit_nat_def)
    have "gate_for (v0 + of_nat (j * 16)) 0 (idt ?k ! j)" if "j < Suc i" for j
    proof (cases "j = i")
      case True
      then show ?thesis
        using set_idt_entry_gate [OF "1.prems"(1), where v = "of_nat i" and dpl = 0
            and handler = "v0 + of_nat (i * 16)"] u by simp
    next
      case False
      then show ?thesis using that "1.prems"(3) u by (simp add: set_idt_entry_other)
    qed
    then show ?thesis
      using "1.IH" [OF True] "1.prems" True by (subst (1 2) setup_loop.simps) simp
  next
    case False
    then show ?thesis using "1.prems" by (subst (1 2) setup_loop.simps) simp
  qed
qed

section \<open>The machine\<close>

definition timer_vector :: "u64 \<Rightarrow> bool" where
  "timer_vector v \<longleftrightarrow> v = 0x8 \<or> v = 0x20 \<or> v = 0x32"

lemma stub_timer:
  assumes "timer_vector (vector_number c)" and "sched_ok (sch k)" and "interrupt_stub c k = (c', k')"
  shows "sch k' = save_context c (sch k)"
    and "c' = saved (save_context c (sch k)) ((counter (sch k) + 1) mod 4)"
  using assms by (auto simp: interrupt_stub_def interrupt_general_handler_def timer_vector_def
      Let_def schedule_def emit_def sched_simps)

lemma stub_other:
  assumes "\<not> timer_vector (vector_number c)" and "interrupt_stub c k = (c', k')"
  shows "sch k' = save_context c (sch k)" and "c' = c"
  using assms by (auto simp: interrupt_stub_def interrupt_general_handler_def timer_vector_def
      Let_def emit_def split: if_splits)

lemma stub_sch: "interrupt_stub c k = (c', k') \<Longrightarrow> sch k' = save_context c (sch k)"
  by (auto simp: interrupt_stub_def interrupt_general_handler_def Let_def emit_def split: if_splits)

text \<open>
  The processor as the scheduler sees it: the kernel state, the registers of the running code
  and, as a ghost, the slot whose process that code belongs to. Code runs (\<open>None\<close>) and
  changes its registers at will; an interrupt \<open>Some v\<close> pushes its vector and an error code. A
  timer interrupt switches to the slot the counter then names, any other one returns to the
  interrupted code.
\<close>

type_synonym machine = "irq \<times> cpu_status \<times> nat"

inductive machine_step :: "u64 option \<Rightarrow> machine \<Rightarrow> machine \<Rightarrow> bool" where
  Run: "machine_step None (k, c, p) (k, c', p)"
| Tick: "timer_vector v \<Longrightarrow>
    interrupt_stub (c\<lparr>vector_number := v, error_code := e\<rparr>) k = (c', k') \<Longrightarrow>
    machine_step (Some v) (k, c, p) (k', c', counter (sch k'))"
| Stray: "\<not> timer_vector v \<Longrightarrow>
    interrupt_stub (c\<lparr>vector_number := v, error_code := e\<rparr>) k = (c', k') \<Longrightarrow>
    machine_step (Some v) (k, c, p) (k', c', p)"

inductive_cases machine_stepE: "machine_step l s t"
inductive_simps machine_step_run: "machine_step None (k, c, p) t"

inductive machine_run :: "u64 option list \<Rightarrow> machine \<Rightarrow> machine \<Rightarrow> bool" where
  Done: "machine_run [] s s"
| More: "machine_step l s t \<Longrightarrow> machine_run ls t u \<Longrightarrow> machine_run (l # ls) s u"

inductive_cases machine_runE: "machine_run (l # ls) s u"

text \<open>How far the counter has run ahead of the running process.\<close>

definition drift :: "nat \<Rightarrow> u64 option \<Rightarrow> nat" where
  "drift d l = (case l of None \<Rightarrow> d | Some v \<Rightarrow> if timer_vector v then 0 else d + 1)"

text \<open>The slot that runs after the events, when slot \<open>p\<close> runs and the counter is \<open>d\<close> ahead.\<close>

fun slot_after :: "nat \<times> nat \<Rightarrow> u64 option list \<Rightarrow> nat" where
  "slot_after (p, d) [] = p"
| "slot_after (p, d) (l # ls) =
     (case l of None \<Rightarrow> slot_after (p, d) ls
      | Some v \<Rightarrow> if timer_vector v then slot_after ((p + d + 1) mod 4, 0) ls
                  else slot_after (p, d + 1) ls)"

lemma step_drift:
  assumes "machine_step l (k, c, p) (k', c', p')" and "sched_ok (sch k)"
    and "counter (sch k) = (p + d) mod 4"
  shows "sched_ok (sch k') \<and> counter (sch k') = (p' + drift d l) mod 4 \<and>
    slot_after (p, d) (l # ls) = slot_after (p', drift d l) ls"
  using assms(1)
proof (cases rule: machine_step.cases)
  case Run
  then show ?thesis using assms by (simp add: drift_def)
next
  case (Tick v e)
  then have "sch k' = save_context (c\<lparr>vector_number := v, error_code := e\<rparr>) (sch k)"
    by (blast dest: stub_sch)
  then show ?thesis
    using Tick assms(2,3) by (simp add: sched_simps drift_def mod_simps)
next
  case (Stray v e)
  then have "sch k' = save_context (c\<lparr>vector_number := v, error_code := e\<rparr>) (sch k)"
    by (blast dest: stub_sch)
  then show ?thesis
    using Stray assms(2,3) by (simp add: sched_simps drift_def mod_simps)
qed

lemma run_drift:
  assumes "machine_run ls s t" and "s = (k, c, p)" and "t = (k', c', p')" and "sched_ok (sch k)"
    and "counter (sch k) = (p + d) mod 4"
  shows "sched_ok (sch k') \<and> p' = slot_after (p, d) ls \<and>
    counter (sch k') = (p' + foldl drift d ls) mod 4"
  using assms
proof (induction ls s t arbitrary: k c p d rule: machine_run.induct)
  case (Done s)
  then show ?case by simp
next
  case (More l s t ls u)
  obtain k1 c1 p1 where t: "t = (k1, c1, p1)" by (cases t) auto
  have st: "sched_ok (sch k1) \<and> counter (sch k1) = (p1 + drift d l) mod 4 \<and>
      slot_after (p, d) (l # ls) = slot_after (p1, drift d l) ls"
    using More.hyps(1) More.prems by (intro step_drift) (simp_all add: t)
  then show ?case using More.IH [OF t More.prems(2)] by simp
qed

lemma step_rbx:
  assumes "machine_step l (k, c, p) (k', c', p')" and "sched_ok (sch k)" and "i < 4"
  shows "sched_ok (sch k') \<and> rbx (saved (sch k') i) = rbx (saved (sch k) i)"
  using assms by (auto elim!: machine_stepE dest!: stub_sch simp: sched_simps)

lemma run_rbx:
  assumes "machine_run ls s t" and "s = (k, c, p)" and "t = (k', c', p')" and "sched_ok (sch k)"
    and "i < 4"
  shows "sched_ok (sch k') \<and> rbx (saved (sch k') i) = rbx (saved (sch k) i)"
  using assms
proof (induction ls s t arbitrary: k c p rule: machine_run.induct)
  case (Done s)
  then show ?case by simp
next
  case (More l s t ls u)
  obtain k1 c1 p1 where t: "t = (k1, c1, p1)" by (cases t) auto
  have "sched_ok (sch k1) \<and> rbx (saved (sch k1) i) = rbx (saved (sch k) i)"
    using More.hyps(1) More.prems step_rbx by (simp add: t)
  then show ?case using More.IH [OF t] More.prems by simp
qed

lemma slot_after_timers:
  "\<forall>v. Some v \<in> set ls \<longrightarrow> timer_vector v \<Longrightarrow>
     p < 4 \<Longrightarrow> slot_after (p, 0) ls = (p + length (filter (\<lambda>l. l \<noteq> None) ls)) mod 4"
  by (induction ls arbitrary: p) (auto simp: mod_simps split: option.split)

section \<open>Properties\<close>

text \<open>C31 setup_interrupts_gates. \<open>setup_interrupts\<close> makes every one of the 256 descriptors a
  present kernel-level gate, in code segment 8 and without stack switch, whose offset is the
  16-byte slot of its vector behind \<open>vector_0_handler\<close>; their type is 14, an interrupt gate, and
  the limit loaded covers exactly the 256 descriptors of 16 bytes.\<close>
theorem setup_interrupts_gates:
  assumes "length (idt k) = 256" and "v < 256"
  shows "gate_for (vector_0_handler + of_nat (v * 16)) 0
      (idt (setup_interrupts vector_0_handler idt_addr k) ! v) \<and>
    hd (effects (setup_interrupts vector_0_handler idt_addr k)) = Lidt (256 * 16 - 1) idt_addr"
  using setup_loop_gates [of k 0 vector_0_handler] assms
  by (simp add: setup_interrupts_def load_idt_def emit_def)

definition boot_irq :: irq where
  "boot_irq = \<lparr>sch = boot_sched, ticks = 1,
     idt = replicate 256 \<lparr>address_low = 0, selector = 0, ist = 0, flags = 0, address_mid = 0,
                          address_high = 0, reserved = 0\<rparr>,
     effects = []\<rparr>"

lemma boot_irq_ok: "sched_ok (sch boot_irq)"
  by (simp add: boot_irq_def boot_sched_ok)

theorem setup_interrupts_gates_witness:
  "gate_for (0xFFFFFFFF80001000 + 512) 0
     (idt (setup_interrupts 0xFFFFFFFF80001000 0xFFFFFFFF80009000 boot_irq) ! 32)"
  using setup_interrupts_gates [of boot_irq 32 "0xFFFFFFFF80001000" "0xFFFFFFFF80009000"]
  by (simp add: boot_irq_def)


lemma tick_step:
  "\<exists>k' c'. machine_step (Some 0x20) (k, c, p) (k', c', counter (sch k'))"
proof -
  obtain c' k' where "interrupt_stub (c\<lparr>vector_number := 0x20, error_code := 0\<rparr>) k = (c', k')"
    by fastforce
  then have "machine_step (Some 0x20) (k, c, p) (k', c', counter (sch k'))"
    by (rule Tick [rotated]) (simp add: timer_vector_def)
  then show ?thesis by blast
qed




text \<open>C11 resume_after_four_ticks. A process interrupted by the timer gets the processor back at the
  fourth timer interrupt from then on, with all registers as they were, except \<open>rbx\<close>, which has
  the value its slot held before.\<close>
theorem resume_after_four_ticks:
  assumes "sched_ok (sch k)" and "\<forall>c \<in> {c1, c2, c3, c4}. timer_vector (vector_number c)"
    and "interrupt_stub c1 k = (d1, k1)" and "interrupt_stub c2 k1 = (d2, k2)"
    and "interrupt_stub c3 k2 = (d3, k3)" and "interrupt_stub c4 k3 = (d4, k4)"
  shows "counter (sch k4) = counter (sch k) \<and>
    d4 = c1\<lparr>rbx := rbx (saved (sch k) (counter (sch k))),
            vector_number := vector_number (saved (sch k) (counter (sch k))),
            error_code := error_code (saved (sch k) (counter (sch k)))\<rparr>"
proof -
  let ?i = "counter (sch k)"
  note s = assms(3-6) [THEN stub_sch]
  have ok: "sched_ok (sch k1)" "sched_ok (sch k2)" "sched_ok (sch k3)"
    using assms(1) by (simp_all add: s sched_simps)
  have i: "?i < 4" using assms(1) by (simp add: sched_ok_def)
  then have j: "(?i + 1) mod 4 \<noteq> ?i" "(?i + 2) mod 4 \<noteq> ?i" "(?i + 3) mod 4 \<noteq> ?i"
      "(?i + 4) mod 4 = ?i"
    by presburger+
  have n: "counter (sch k1) = (?i + 1) mod 4" "counter (sch k2) = (?i + 2) mod 4"
    "counter (sch k3) = (?i + 3) mod 4" "counter (sch k4) = (?i + 4) mod 4"
    using assms(1) ok by (simp_all add: s sched_simps mod_simps add.commute [of 3])
  have "d4 = saved (save_context c4 (sch k3)) ((counter (sch k3) + 1) mod 4)"
    by (rule stub_timer(2) [OF _ ok(3) assms(6)]) (use assms(2) in simp)
  also have "(counter (sch k3) + 1) mod 4 = ?i" using n(3) j(4) by (simp add: mod_simps)
  also have "saved (save_context c4 (sch k3)) ?i = save_registers c1 (saved (sch k) ?i)"
    using assms(1) ok i j n by (simp add: s sched_simps)
  finally show ?thesis using n(4) j(4) by (simp add: save_registers_eq)
qed

theorem resume_after_four_ticks_witness:
  "\<exists>d4 k4. let t = zero_context\<lparr>vector_number := 0x20, rax := 5, rbx := 6\<rparr>;
      k1 = snd (interrupt_stub t boot_irq); k2 = snd (interrupt_stub (zero_context\<lparr>vector_number := 0x20\<rparr>) k1);
      k3 = snd (interrupt_stub (zero_context\<lparr>vector_number := 0x20\<rparr>) k2)
    in interrupt_stub (zero_context\<lparr>vector_number := 0x20\<rparr>) k3 = (d4, k4) \<and> rax d4 = 5 \<and> rbx d4 = 0"
proof -
  let ?t = "zero_context\<lparr>vector_number := 0x20, rax := 5, rbx := 6\<rparr>"
  let ?z = "zero_context\<lparr>vector_number := 0x20\<rparr>"
  obtain d1 k1 where 1: "interrupt_stub ?t boot_irq = (d1, k1)" by fastforce
  obtain d2 k2 where 2: "interrupt_stub ?z k1 = (d2, k2)" by fastforce
  obtain d3 k3 where 3: "interrupt_stub ?z k2 = (d3, k3)" by fastforce
  obtain d4 k4 where 4: "interrupt_stub ?z k3 = (d4, k4)" by fastforce
  have "\<forall>c \<in> {?t, ?z, ?z, ?z}. timer_vector (vector_number c)" by (simp add: timer_vector_def)
  from resume_after_four_ticks [OF boot_irq_ok this 1 2 3 4]
  have "rax d4 = 5" "rbx d4 = 0"
    by (simp_all add: boot_irq_def boot_sched_def saved_def zero_context_def)
  then show ?thesis by (simp add: 1 2 3 4)
qed

text \<open>Lemma rbx_never_saved. No run of the machine changes the \<open>rbx\<close> of any slot: a process that is
  switched back to always continues with the \<open>rbx\<close> its slot had at boot.\<close>
theorem rbx_never_saved:
  assumes "machine_run ls (k, c, p) (k', c', p')" and "sched_ok (sch k)" and "i < 4"
  shows "rbx (saved (sch k') i) = rbx (saved (sch k) i)"
  using run_rbx [OF assms(1) refl refl assms(2,3)] by simp

theorem rbx_never_saved_witness:
  "\<exists>k' c' p'. machine_run [Some 0x20] (boot_irq, zero_context\<lparr>rbx := 9\<rparr>, 0) (k', c', p') \<and>
     rbx (saved (sch k') 0) = 0"
proof -
  obtain k1 c1 where "machine_step (Some 0x20) (boot_irq, zero_context\<lparr>rbx := 9\<rparr>, 0)
      (k1, c1, counter (sch k1))" using tick_step by blast
  then have run: "machine_run [Some 0x20] (boot_irq, zero_context\<lparr>rbx := 9\<rparr>, 0)
      (k1, c1, counter (sch k1))" using machine_run.intros by meson
  then show ?thesis
    using rbx_never_saved [OF run boot_irq_ok, of 0]
    by (auto simp: boot_irq_def boot_sched_def saved_def zero_context_def)
qed

text \<open>C18 stray_interrupt_loses_process. One interrupt that is not the timer's is enough to lose a
  process: the code it interrupted goes on, but at the next timer interrupt its registers are
  saved over those of the next slot, whose own are gone, and the slot after that one runs.\<close>
theorem stray_interrupt_loses_process:
  assumes "sched_ok (sch k)" and "\<not> timer_vector (vector_number c1)"
    and "timer_vector (vector_number c2)"
    and "interrupt_stub c1 k = (d1, k1)" and "interrupt_stub c2 k1 = (d2, k2)"
  shows "d1 = c1 \<and>
    saved (sch k2) ((counter (sch k) + 1) mod 4) =
      save_registers c2 (saved (sch k) ((counter (sch k) + 1) mod 4)) \<and>
    d2 = saved (sch k) ((counter (sch k) + 2) mod 4)"
proof -
  let ?i = "counter (sch k)"
  have i: "?i < 4" using assms(1) by (simp add: sched_ok_def)
  then have j: "(?i + 1) mod 4 \<noteq> ?i" "(?i + 2) mod 4 \<noteq> ?i" "(?i + 2) mod 4 \<noteq> (?i + 1) mod 4"
    by presburger+
  have s: "sch k1 = save_context c1 (sch k)" "sch k2 = save_context c2 (sch k1)"
    using assms(4,5) by (auto dest: stub_sch)
  have ok: "sched_ok (sch k1)" using assms(1) by (simp add: s sched_simps)
  have n: "counter (sch k1) = (?i + 1) mod 4" using assms(1) by (simp add: s sched_simps)
  have "d2 = saved (save_context c2 (sch k1)) ((counter (sch k1) + 1) mod 4)"
    by (rule stub_timer(2) [OF assms(3) ok assms(5)])
  also have "(counter (sch k1) + 1) mod 4 = (?i + 2) mod 4" using n by (simp add: mod_simps)
  also have "saved (save_context c2 (sch k1)) ((?i + 2) mod 4) = saved (sch k) ((?i + 2) mod 4)"
    using assms(1) ok n j by (simp add: s(1) sched_simps)
  finally have "d2 = saved (sch k) ((?i + 2) mod 4)" .
  moreover have "saved (sch k2) ((?i + 1) mod 4) = save_registers c2 (saved (sch k) ((?i + 1) mod 4))"
    using assms(1) ok n j by (simp add: s sched_simps)
  moreover have "d1 = c1" by (rule stub_other(2) [OF assms(2,4)])
  ultimately show ?thesis by blast
qed

theorem stray_interrupt_loses_process_witness:
  "rax (saved (sch (snd (interrupt_stub (zero_context\<lparr>vector_number := 0x20, rax := 8\<rparr>)
      (snd (interrupt_stub (zero_context\<lparr>vector_number := 0x21\<rparr>) boot_irq))))) 1) = 8"
  using stray_interrupt_loses_process [OF boot_irq_ok,
      where ?c1.0 = "zero_context\<lparr>vector_number := 0x21\<rparr>"
        and ?c2.0 = "zero_context\<lparr>vector_number := 0x20, rax := 8\<rparr>"
        and ?d1.0 = "fst (interrupt_stub (zero_context\<lparr>vector_number := 0x21\<rparr>) boot_irq)"
        and ?k1.0 = "snd (interrupt_stub (zero_context\<lparr>vector_number := 0x21\<rparr>) boot_irq)",
      OF _ _ prod.collapse [symmetric] prod.collapse [symmetric]]
  by (simp add: timer_vector_def boot_irq_def boot_sched_def save_registers_def)

text \<open>Lemma fault_vectors. The general handler compares with the hexadecimal numbers 0x13 and 0x14:
  the general protection fault and the page fault, vectors 13 and 14, fall into the default
  branch, which returns to the faulting instruction with nothing but the registers saved; the
  double fault, vector 8, is treated as a timer tick; and it is vector 20 that halts.\<close>
theorem fault_vectors:
  "(vector_number c \<in> {13, 14} \<longrightarrow>
      interrupt_general_handler c k = (Interrupted, k\<lparr>sch := save_context c (sch k)\<rparr>)) \<and>
   (vector_number c = 8 \<longrightarrow> ticks (snd (interrupt_general_handler c k)) = ticks k + 1) \<and>
   (vector_number c = 20 \<longrightarrow> effects (snd (interrupt_general_handler c k)) = Hlt # effects k)"
  by (simp add: interrupt_general_handler_def Let_def emit_def)

theorem fault_vectors_witness:
  "effects (snd (interrupt_general_handler (zero_context\<lparr>vector_number := 14\<rparr>) boot_irq)) = []"
  using fault_vectors [of "zero_context\<lparr>vector_number := 14\<rparr>" boot_irq]
  by (simp add: boot_irq_def)

text \<open>Lemma page_fault_handler_branches. The page fault handler maps the faulting page onto itself
  exactly when bit 0 of the error code is set, which the processor does for a violation on a
  page that is present; a fault on a page that is not present halts the system and changes no
  mapping.\<close>
theorem page_fault_handler_branches:
  "(error_code c AND 1 = 0 \<longrightarrow>
      (\<exists>k'. page_fault_handler c va (k, s) = Inr (k', s) \<and> hd (effects k') = Hlt)) \<and>
   (error_code c AND 1 \<noteq> 0 \<longrightarrow>
      (\<forall>k' s'. page_fault_handler c va (k, s) = Inr (k', s') \<longrightarrow>
         map_page s va va = Inr s' \<and> (\<exists>es. effects k' = es @ effects k \<and> Hlt \<notin> set es)))"
  by (auto simp: page_fault_handler_def Let_def emit_def seq_eq_Inr)

theorem page_fault_handler_branches_witness:
  "\<exists>k'. page_fault_handler zero_context 0x5000 (boot_irq, sample_vm) = Inr (k', sample_vm) \<and>
     hd (effects k') = Hlt"
  using page_fault_handler_branches [of zero_context "0x5000" boot_irq sample_vm]
  by (simp add: zero_context_def)

end
