(* ===== verification/Apic.thy ===== *)
theory Apic
  imports Interrupts
begin

text \<open>
  The interrupt controllers, \<open>kernel/apic.c\<close> with \<open>kernel/include/apic.h\<close>: the two 8259
  controllers are set up and masked, the page of the local APIC is mapped, and its timer is
  started. Port writes go to the history of \<open>PortIO\<close>, register writes to the list of effects.
\<close>

section \<open>State and operations\<close>

record apic_machine =
  ports :: trace
  space :: vm
  msrs :: "u32 \<Rightarrow> u64"
  outside :: "effect list"

definition PIC1_COMMAND :: u16 where "PIC1_COMMAND = 0x20"
definition PIC1_DATA :: u16 where "PIC1_DATA = 0x20 + 1"
definition PIC2_COMMAND :: u16 where "PIC2_COMMAND = 0xA0"
definition PIC2_DATA :: u16 where "PIC2_DATA = 0xA0 + 1"
definition ICW_1 :: u8 where "ICW_1 = 0x11"
definition ICW_2_M :: u8 where "ICW_2_M = 0x20"
definition ICW_2_S :: u8 where "ICW_2_S = 0x28"
definition ICW_3_M :: u8 where "ICW_3_M = 0x2"
definition ICW_3_S :: u8 where "ICW_3_S = 0x4"
definition ICW_4 :: u8 where "ICW_4 = 0x01"

definition IA32_APIC_BASE_MSR :: u32 where "IA32_APIC_BASE_MSR = 0x1B"
definition APIC_BASE_ENABLE :: u64 where "APIC_BASE_ENABLE = push_bit 11 1"
definition APIC_SVR :: u64 where "APIC_SVR = 0xF0"
definition APIC_LVT_TIMER :: u64 where "APIC_LVT_TIMER = 0x320"
definition APIC_TIMER_INIT_COUNT :: u64 where "APIC_TIMER_INIT_COUNT = 0x380"
definition APIC_TIMER_DIV :: u64 where "APIC_TIMER_DIV = 0x3E0"

text \<open>The two instructions take and give the value in two 32-bit halves.\<close>

definition write_msr :: "u32 \<Rightarrow> u64 \<Rightarrow> apic_machine \<Rightarrow> apic_machine" where
  "write_msr msr value k =
     (let low = ucast value :: u32; high = ucast (drop_bit 32 value) :: u32
      in k\<lparr>msrs := (msrs k)(msr := push_bit 32 (ucast high) OR ucast low)\<rparr>)"

definition read_msr :: "u32 \<Rightarrow> apic_machine \<Rightarrow> u64" where
  "read_msr msr k =
     (let low = ucast (msrs k msr) :: u32; high = ucast (drop_bit 32 (msrs k msr)) :: u32
      in push_bit 32 (ucast high) OR ucast low)"

definition out :: "u16 \<Rightarrow> u8 \<Rightarrow> apic_machine \<Rightarrow> apic_machine" where
  "out port val k = k\<lparr>ports := outb port val (ports k)\<rparr>"

definition APIC_REG :: "u64 \<Rightarrow> u32 \<Rightarrow> apic_machine \<Rightarrow> apic_machine" where
  "APIC_REG offset val k = k\<lparr>outside := Mmio (APIC_BASE_ADDRESS + offset) val # outside k\<rparr>"

text \<open>The second argument and the value read back from the MSR are not used.\<close>

definition init_apic :: "u64 \<Rightarrow> u64 \<Rightarrow> apic_machine \<Rightarrow> apic_machine res" where
  "init_apic a b k =
     (let k = out PIC1_COMMAND ICW_1 k;
          k = out PIC2_COMMAND ICW_1 k;
          k = out PIC1_DATA ICW_2_M k;
          k = out PIC2_DATA ICW_2_S k;
          k = out PIC1_DATA ICW_3_M k;
          k = out PIC2_DATA ICW_3_S k;
          k = out PIC1_DATA ICW_4 k;
          k = out PIC2_DATA ICW_4 k;
          k = out PIC1_DATA 0xFF k;
          k = out PIC2_DATA 0xFF k
      in seq (map_page (space k) a a) (\<lambda>s.
        let k = k\<lparr>space := s\<rparr>;
            k = write_msr IA32_APIC_BASE_MSR (a OR APIC_BASE_ENABLE) k;
            k = APIC_REG APIC_SVR (0xFF OR push_bit 8 1) k;
            k = APIC_REG APIC_TIMER_DIV 0x3 k;
            k = APIC_REG APIC_LVT_TIMER (0x20 OR push_bit 17 1) k;
            k = APIC_REG APIC_TIMER_INIT_COUNT 10000 k
        in Inr (k\<lparr>outside := Sti # outside k\<rparr>)))"

section \<open>Model-specific registers\<close>

lemma msr_halves_join: "push_bit 32 (ucast (ucast (drop_bit 32 v) :: u32)) OR ucast (ucast v :: u32) = (v :: u64)"
  by (rule bit_word_eqI) (auto simp: bit_simps)

lemma read_write_msr: "read_msr msr (write_msr msr' v k) = (if msr = msr' then v else read_msr msr k)"
  by (simp add: read_msr_def write_msr_def Let_def msr_halves_join)

section \<open>The 8259 controllers\<close>

text \<open>
  What an 8259 takes from the writes to its two ports, as its data sheet describes it: a
  command with bit 4 set begins an initialisation of three more words on the data port (bit 0
  announces the fourth), and after it a data write sets the mask. \<open>expect\<close> is the number of
  the initialisation word awaited, or 0.
\<close>

record pic =
  expect :: nat
  vector_base :: u8
  cascade :: u8
  mode :: u8
  irq_mask :: u8

definition pic_command :: "u8 \<Rightarrow> pic \<Rightarrow> pic" where
  "pic_command v p = (if bit v 4 then p\<lparr>expect := 2, irq_mask := 0\<rparr> else p)"

definition pic_data :: "u8 \<Rightarrow> pic \<Rightarrow> pic" where
  "pic_data v p =
     (if expect p = 2 then p\<lparr>expect := 3, vector_base := v AND 0xF8\<rparr>
      else if expect p = 3 then p\<lparr>expect := 4, cascade := v\<rparr>
      else if expect p = 4 then p\<lparr>expect := 0, mode := v\<rparr>
      else p\<lparr>irq_mask := v\<rparr>)"

fun pic_event :: "u16 \<Rightarrow> u16 \<Rightarrow> port_event \<Rightarrow> pic \<Rightarrow> pic" where
  "pic_event com dat (Out port v) p =
     (if port = com then pic_command v p else if port = dat then pic_data v p else p)"
| "pic_event com dat (In8 port v) p = p"
| "pic_event com dat (In16 port v) p = p"

definition pic_after :: "u16 \<Rightarrow> u16 \<Rightarrow> trace \<Rightarrow> pic \<Rightarrow> pic" where
  "pic_after com dat h p = fold (pic_event com dat) (rev h) p"

lemma init_apic_ports:
  assumes "init_apic a b k = Inr k'"
  shows "ports k' =
    [Out 0xA1 0xFF, Out 0x21 0xFF, Out 0xA1 0x01, Out 0x21 0x01, Out 0xA1 0x4, Out 0x21 0x2,
     Out 0xA1 0x28, Out 0x21 0x20, Out 0xA0 0x11, Out 0x20 0x11] @ ports k"
  using assms
  by (auto simp: init_apic_def out_def outb_def write_msr_def APIC_REG_def Let_def seq_eq_Inr
      PIC1_COMMAND_def PIC1_DATA_def PIC2_COMMAND_def PIC2_DATA_def ICW_1_def ICW_2_M_def ICW_2_S_def
      ICW_3_M_def ICW_3_S_def ICW_4_def)

section \<open>Properties\<close>

text \<open>Lemma init_apic_masks_pics. After \<open>init_apic\<close> both 8259 controllers, whatever state they were in,
  are initialised with the vector bases 0x20 and 0x28 in 8086 mode and have every line masked.
  The cascade words are exchanged: the master is told of a slave on line 1, not on line 2
  (word 4), and the slave that its identity is 4, not 2.\<close>
theorem init_apic_masks_pics:
  assumes "init_apic a b k = Inr k'"
  shows "pic_after 0x20 0x21 (ports k') p = \<lparr>expect = 0, vector_base = 0x20, cascade = 2, mode = 1, irq_mask = 0xFF\<rparr> \<and>
    pic_after 0xA0 0xA1 (ports k') p = \<lparr>expect = 0, vector_base = 0x28, cascade = 4, mode = 1, irq_mask = 0xFF\<rparr>"
  unfolding init_apic_ports [OF assms]
  by (simp add: pic_after_def pic_command_def pic_data_def)

definition sample_apic :: apic_machine where
  "sample_apic = \<lparr>ports = [], space = sample_vm, msrs = (\<lambda>_. 0), outside = []\<rparr>"

lemma timer_apic_page:
  "unat off < 4096 \<Longrightarrow> same_page 0xFEE00000 (0xFEE00000 + off)"
proof -
  assume a: "unat off < 4096"
  then have "unat (0xFEE00000 + off) = 0xFEE00000 + unat off"
    using unat_add_no_wrap_word [of "0xFEE00000" off] by simp
  moreover have "(0xFEE00000 + unat off) div 4096 = 0xFEE00" using a by simp
  ultimately show ?thesis by (simp add: same_page_iff)
qed

lemma init_apic_space:
  assumes "vm_inv (space k)" and "3 \<le> free_count (phys (space k))"
  shows "\<exists>k' s'. init_apic a b k = Inr k' \<and> space k' = s' \<and> vm_inv s' \<and>
    mapping s' a = Some (case mapping (space k) a of Some e \<Rightarrow> e | None \<Rightarrow> leaf_entry a) \<and>
    (\<forall>vb. \<not> same_page a vb \<longrightarrow> mapping s' vb = mapping (space k) vb) \<and>
    read_msr IA32_APIC_BASE_MSR k' = a OR 0x800 \<and>
    outside k' = [Sti, Mmio 0xFEE00380 10000, Mmio 0xFEE00320 0x20020, Mmio 0xFEE003E0 3,
                  Mmio 0xFEE000F0 0x1FF] @ outside k"
proof -
  have "[] \<in> tables (space k)" by (simp add: tables_def table_paths_def)
  then have "card (va_tables a - tables (space k)) \<le> free_count (phys (space k))"
    using new_tables_le_3 [of "tables (space k)" a] assms(2) by simp
  from map_page_budget [OF assms(1) this, of a] obtain s' where
    s': "map_page (space k) a a = Inr s'" "vm_inv s'"
      "mapping s' a = Some (case mapping (space k) a of Some e \<Rightarrow> e | None \<Rightarrow> leaf_entry a)"
      "\<forall>vb. \<not> same_page a vb \<longrightarrow> mapping s' vb = mapping (space k) vb" by blast
  have sp: "space (out p v k) = space k" "outside (out p v k) = outside k" for p v k
    by (simp_all add: out_def)
  have re: "read_msr m (APIC_REG o' v k) = read_msr m k" "read_msr m (k\<lparr>outside := x\<rparr>) = read_msr m k" for m o' v k x
    by (simp_all add: APIC_REG_def read_msr_def)
  have ws: "space (write_msr m v k) = space k" "outside (write_msr m v k) = outside k" for m v k
    by (simp_all add: write_msr_def Let_def)
  have rs: "space (APIC_REG o' v k) = space k"
    "outside (APIC_REG o' v k) = Mmio (APIC_BASE_ADDRESS + o') v # outside k" for o' v k
    by (simp_all add: APIC_REG_def)
  show ?thesis
    using s' unfolding init_apic_def Let_def sp seq_Inr s'(1)
    by (simp add: sp re ws rs read_write_msr APIC_BASE_ENABLE_def APIC_BASE_ADDRESS_def APIC_SVR_def
        APIC_TIMER_DIV_def APIC_LVT_TIMER_def APIC_TIMER_INIT_COUNT_def)
qed

theorem init_apic_masks_pics_witness:
  "\<exists>k'. init_apic 0xFEE00000 0xFEC00000 sample_apic = Inr k' \<and>
     irq_mask (pic_after 0x20 0x21 (ports k') \<lparr>expect = 3, vector_base = 8, cascade = 0, mode = 0, irq_mask = 0\<rparr>) = 0xFF"
proof -
  obtain k' where "init_apic 0xFEE00000 0xFEC00000 sample_apic = Inr k'"
    using init_apic_space [of sample_apic "0xFEE00000" "0xFEC00000"]
    by (auto simp: sample_apic_def sample_vm_facts)
  then show ?thesis using init_apic_masks_pics by fastforce
qed



end
