(* ===== verification/VmmInit.thy ===== *)
theory VmmInit
  imports Vmm
begin

text \<open>
  What \<open>init_paging\<close> and \<open>map_kernel\<close> of \<open>kernel/memory/vmm.c\<close> achieve: how many tables
  the 19200 calls of \<open>map_page\<close> need at most, and which address translates to which after
  them. The functions themselves are in theory Vmm.
\<close>

section \<open>init_paging\<close>

text \<open>The pages \<open>init_paging\<close> maps from step \<open>i\<close> on, in its order.\<close>

definition paging_triple :: "u64 \<Rightarrow> u32 \<Rightarrow> nat \<Rightarrow> (u64 \<times> u64) list" where
  "paging_triple start fb i =
     [(start + of_nat (i * 0x1000), of_nat (i * 0x1000)),
      (of_nat (i * 0x1000), of_nat (i * 0x1000)),
      (ucast (fb + of_nat (i * 0x1000)), ucast (fb + of_nat (i * 0x1000)))]"

definition paging_list :: "u64 \<Rightarrow> u32 \<Rightarrow> nat \<Rightarrow> (u64 \<times> u64) list" where
  "paging_list start fb i = concat (map (paging_triple start fb) [i..<6400])"

lemma init_paging_loop_list:
  "init_paging_loop start fb i s = map_pages s (paging_list start fb i)"
proof (induction start fb i s rule: init_paging_loop.induct)
  case (1 start fb i s)
  show ?case
  proof (cases "i < 6400")
    case True
    then have "paging_list start fb i = paging_triple start fb i @ paging_list start fb (Suc i)"
      by (simp add: paging_list_def upt_conv_Cons)
    moreover have "init_paging_loop start fb (Suc i) =
        (\<lambda>s'. map_pages s' (paging_list start fb (Suc i)))"
      using "1.IH" [OF True] by (intro ext)
    ultimately show ?thesis
      using True by (subst init_paging_loop.simps) (simp add: paging_triple_def seq_assoc)
  next
    case False
    then show ?thesis
      by (subst init_paging_loop.simps) (simp add: paging_list_def)
  qed
qed

text \<open>How many tables a contiguous range needs: its path prefixes are few.\<close>

definition p1 :: "u64 \<Rightarrow> u64 list" where "p1 n = [n AND 0x1FF]"
definition p2 :: "u64 \<Rightarrow> u64 list" where "p2 n = [drop_bit 9 n AND 0x1FF, n AND 0x1FF]"
definition p3 :: "u64 \<Rightarrow> u64 list" where
  "p3 n = [drop_bit 18 n AND 0x1FF, drop_bit 9 n AND 0x1FF, n AND 0x1FF]"

lemma va_tables_p:
  "va_tables va = {[], p1 (drop_bit 39 va), p2 (drop_bit 30 va), p3 (drop_bit 21 va)}"
  by (simp add: va_tables_def va_path_def p1_def p2_def p3_def PML4_INDEX_def PUD_INDEX_def
      PMD_INDEX_def)

definition slots :: "nat \<Rightarrow> u64 \<Rightarrow> u64 set" where
  "slots n b = of_nat ` {unat b div 2 ^ n .. unat b div 2 ^ n + 0x18FFFFF div 2 ^ n + 1}"

lemma drop_bit_in_slots:
  assumes "unat b + 0x1900000 \<le> 2 ^ 64" and "k < 0x1900000"
  shows "drop_bit n (b + of_nat k) \<in> slots n b"
proof -
  have "unat (drop_bit n (b + of_nat k)) = (unat b + k) div 2 ^ n"
    using assms by (simp add: unat_drop_bit_u64 unat_add_no_wrap)
  moreover have "(unat b + k) div 2 ^ n \<le> unat b div 2 ^ n + 0x18FFFFF div 2 ^ n + 1"
  proof -
    have "(unat b + k) div 2 ^ n \<le> (unat b + 0x18FFFFF) div 2 ^ n"
      using assms(2) by (intro div_le_mono) simp
    also have "\<dots> \<le> unat b div 2 ^ n + 0x18FFFFF div 2 ^ n + 1"
      by (rule div_add_le) simp
    finally show ?thesis .
  qed
  moreover have "unat b div 2 ^ n \<le> (unat b + k) div 2 ^ n" by (intro div_le_mono) simp
  ultimately have "unat (drop_bit n (b + of_nat k)) \<in>
      {unat b div 2 ^ n .. unat b div 2 ^ n + 0x18FFFFF div 2 ^ n + 1}" by simp
  then have "of_nat (unat (drop_bit n (b + of_nat k))) \<in> slots n b"
    unfolding slots_def by (rule imageI)
  then show ?thesis by simp
qed

definition range_tables :: "u64 \<Rightarrow> u64 list set" where
  "range_tables b = p1 ` slots 39 b \<union> p2 ` slots 30 b \<union> p3 ` slots 21 b"

lemma card_slots: "card (slots n b) \<le> 0x18FFFFF div 2 ^ n + 2" and finite_slots: "finite (slots n b)"
proof -
  have "card (slots n b) \<le> card {unat b div 2 ^ n .. unat b div 2 ^ n + 0x18FFFFF div 2 ^ n + 1}"
    unfolding slots_def by (rule card_image_le) simp
  then show "card (slots n b) \<le> 0x18FFFFF div 2 ^ n + 2" by simp
  show "finite (slots n b)" by (simp add: slots_def)
qed

lemma finite_range_tables: "finite (range_tables b)"
  by (simp add: range_tables_def finite_slots)

lemma card_range_tables: "card (range_tables b) \<le> 18"
proof -
  have "card (p1 ` slots 39 b) \<le> 2" "card (p2 ` slots 30 b) \<le> 2" "card (p3 ` slots 21 b) \<le> 14"
    using card_image_le [OF finite_slots [of 39 b], of p1] card_slots [of 39 b]
      card_image_le [OF finite_slots [of 30 b], of p2] card_slots [of 30 b]
      card_image_le [OF finite_slots [of 21 b], of p3] card_slots [of 21 b]
    by simp_all
  then show ?thesis
    unfolding range_tables_def
    using card_Un_le [of "p1 ` slots 39 b \<union> p2 ` slots 30 b" "p3 ` slots 21 b"]
      card_Un_le [of "p1 ` slots 39 b" "p2 ` slots 30 b"] by linarith
qed

lemma va_tables_in_range:
  assumes "unat b + 0x1900000 \<le> 2 ^ 64" and "k < 0x1900000"
  shows "va_tables (b + of_nat k) \<subseteq> insert [] (range_tables b)"
  using drop_bit_in_slots [OF assms] by (auto simp: va_tables_p range_tables_def)

lemma ucast_add_no_wrap:
  assumes "unat fb + k < 2 ^ 32"
  shows "(ucast (fb + of_nat k :: u32) :: u64) = ucast fb + of_nat k"
proof -
  have k: "unat (of_nat k :: u32) = k"
    using assms by (simp add: unsigned_of_nat take_bit_nat_eq_self)
  have "unat (fb + of_nat k :: u32) = unat fb + k"
    using assms k by (simp add: unat_word_ariths)
  moreover have "unat (ucast fb + of_nat k :: u64) = unat fb + k"
    using assms by (subst unat_add_no_wrap) (simp_all add: unat_ucast_u32)
  ultimately show ?thesis
    by (simp add: word_unat_eq_iff unat_ucast_u32)
qed

lemma paging_list_tables:
  assumes "unat start + 0x1900000 \<le> 2 ^ 64" and "unat fb + 0x1900000 \<le> 2 ^ 32"
    and "x \<in> set (paging_list start fb 0)"
  shows "va_tables (fst x) \<subseteq>
    insert [] (range_tables start \<union> range_tables 0 \<union> range_tables (ucast fb))"
proof -
  obtain i where i: "i < 6400" and x: "x \<in> set (paging_triple start fb i)"
    using assms(3) by (auto simp: paging_list_def)
  have k: "i * 0x1000 < 0x1900000" using i by simp
  have "ucast (fb + of_nat (i * 0x1000) :: u32) = (ucast fb + of_nat (i * 0x1000) :: u64)"
    using assms(2) k by (intro ucast_add_no_wrap) linarith
  then have "fst x \<in> {start + of_nat (i * 0x1000), 0 + of_nat (i * 0x1000),
      ucast fb + of_nat (i * 0x1000)}"
    using x unfolding paging_triple_def by auto
  moreover have "unat (ucast fb :: u64) + 0x1900000 \<le> 2 ^ 64"
    using assms(2) by (simp add: unat_ucast_u32)
  ultimately show ?thesis
    using va_tables_in_range [OF assms(1) k] va_tables_in_range [of 0, OF _ k]
      va_tables_in_range [of "ucast fb", OF _ k] by auto
qed

text \<open>The tables \<open>init_paging\<close> may need, and the state in front of its loop.\<close>

definition paging_tables :: "u64 \<Rightarrow> u32 \<Rightarrow> u64 list set" where
  "paging_tables start fb = insert [] (range_tables start \<union> range_tables 0 \<union> range_tables (ucast fb))"

lemma finite_paging_tables [simp]: "finite (paging_tables start fb)"
  by (simp add: paging_tables_def finite_range_tables)

lemma card_paging_tables: "card (paging_tables start fb) \<le> 55"
  using card_range_tables [of start] card_range_tables [of 0] card_range_tables [of "ucast fb"]
    card_Un_le [of "range_tables start \<union> range_tables 0" "range_tables (ucast fb)"]
    card_Un_le [of "range_tables start" "range_tables 0"] finite_range_tables
  by (auto simp: paging_tables_def card_insert_if intro: le_trans)

lemma init_paging_root:
  assumes inv: "pmm_inv (phys s)" and free: "55 \<le> free_count (phys s)"
  obtains f ph s0 where "pmm_allocate (phys s) = Inr (f, ph)" and "f \<in> used_frames ph" and "pmm_inv ph"
    and "s0 = s\<lparr>pml := f, phys := ph, mem := clear_frame (mem s) f\<rparr>" and "vm_inv s0" and "tables s0 = {[]}"
    and "budget s0 = free_count (phys s)" and "card (paging_tables start fb \<union> tables s0) \<le> budget s0"
    and "\<forall>vb. mapping s0 vb = None"
    and "init_paging start fb s = seq (map_pages s0 (paging_list start fb 0)) (\<lambda>s. Inr (set_cr3 (pml s) s))"
proof -
  obtain f ph where alloc: "pmm_allocate (phys s) = Inr (f, ph)" and f0: "f \<noteq> 0"
    and cnt: "Suc (free_count ph) = free_count (phys s)"
    using pmm_allocate_succeeds [OF inv] free by auto
  have f: "frame_ok f" "used_frames ph = insert f (used_frames (phys s))" "pmm_inv ph"
    using frames.alloc_ok frames.alloc_used frames.alloc_inv inv alloc f0 by blast+
  let ?s = "s\<lparr>pml := f, phys := ph, mem := clear_frame (mem s) f\<rparr>"
  have tabs: "tables ?s = {[]}"
    using byte_entries.tree_ok_wiped_root(2) [OF f(1)] by (simp add: tables_def)
  have vinv: "vm_inv ?s"
    using tree_ok_mono [OF byte_entries.tree_ok_wiped_root(1) [OF f(1)]] f
    by (simp add: vm_inv_def)
  have bud: "budget ?s = free_count (phys s)"
    using cnt tabs by (simp add: budget_def)
  have "paging_tables start fb \<union> tables ?s = paging_tables start fb" by (auto simp: tabs paging_tables_def)
  then have room: "card (paging_tables start fb \<union> tables ?s) \<le> budget ?s"
    using card_paging_tables [of start fb] bud free by simp
  have "mapping ?s vb = None" for vb
  proof -
    have "va_path vb \<notin> tables ?s" using tabs by (simp add: va_path_def)
    then show ?thesis
      by (simp add: tables_def table_paths_def mapping_def vm_leaf_def leaf_def)
  qed
  moreover have "init_paging start fb s = seq (map_pages ?s (paging_list start fb 0)) (\<lambda>s. Inr (set_cr3 (pml s) s))"
    using alloc by (simp add: init_paging_def init_paging_loop_list clear_frame_def)
  ultimately show thesis using that [OF alloc _ f(3) refl vinv tabs bud room] f(2) by simp
qed

lemma init_paging_maps:
  assumes inv: "pmm_inv (phys s)" and free: "55 \<le> free_count (phys s)"
    and start: "unat start + 0x1900000 \<le> 2 ^ 64" and fb: "unat fb + 0x1900000 \<le> 2 ^ 32"
  shows "\<exists>s'. init_paging start fb s = Inr s' \<and> vm_inv s' \<and> cr3 s' = pml s' \<and>
    free_count (phys s) \<le> free_count (phys s') + 55 \<and>
    (\<forall>vb. mapping s' vb = map_option (\<lambda>x. leaf_entry (snd x))
       (find (\<lambda>x. same_page (fst x) vb) (paging_list start fb 0)))"
proof -
  let ?V = "paging_tables start fb"
  obtain f ph s0 where s0: "vm_inv s0" "tables s0 = {[]}" "budget s0 = free_count (phys s)"
    "card (?V \<union> tables s0) \<le> budget s0" "\<forall>vb. mapping s0 vb = None"
    and run: "init_paging start fb s = seq (map_pages s0 (paging_list start fb 0)) (\<lambda>s. Inr (set_cr3 (pml s) s))"
    by (rule init_paging_root [OF inv free, where start = start and fb = fb]) (rule that, assumption+)
  have Vt: "?V \<union> tables s0 = ?V" by (auto simp: s0(2) paging_tables_def)
  have "\<forall>x\<in>set (paging_list start fb 0). va_tables (fst x) \<subseteq> ?V"
    using paging_list_tables [OF start fb] by (auto simp: paging_tables_def)
  then obtain s' where s': "map_pages s0 (paging_list start fb 0) = Inr s'" "vm_inv s'"
      "budget s' = budget s0" "tables s' \<subseteq> ?V \<union> tables s0"
    and maps: "\<And>vb. mapping s' vb = map_option (\<lambda>x. leaf_entry (snd x))
        (find (\<lambda>x. same_page (fst x) vb) (paging_list start fb 0))"
    using map_pages_ok [OF s0(1,4) finite_paging_tables, of "paging_list start fb 0"] s0(5) by auto
  have "card (tables s') \<le> card ?V"
    using s'(4) unfolding Vt by (intro card_mono) simp_all
  then have "free_count (phys s) \<le> free_count (phys s') + 55"
    using s'(3) s0(3) card_paging_tables [of start fb] by (simp add: budget_def)
  then show ?thesis
    using run s'(1,2) maps by (auto simp: set_cr3_def vm_inv_def mapping_def vm_leaf_def)
qed

text \<open>The page number of an address, and the frame \<open>init_paging\<close> gives each page number.\<close>

definition page_no :: "u64 \<Rightarrow> nat" where
  "page_no va = unat va div 4096 mod 2 ^ 36"

definition KERNEL_BASE :: u64 where
  "KERNEL_BASE = 0xFFFFFFFF80000000"

lemma same_page_no: "same_page va vb \<longleftrightarrow> page_no va = page_no vb"
  by (simp add: same_page_iff page_no_def)

lemma page_no_kernel:
  assumes "unat a < 0x1900000"
  shows "unat (KERNEL_BASE + a) = 0xFFFFFFFF80000000 + unat a"
    and "page_no (KERNEL_BASE + a) = 0xFFFF80000 + unat a div 4096"
proof -
  show u: "unat (KERNEL_BASE + a) = 0xFFFFFFFF80000000 + unat a"
    using assms by (subst unat_add_no_wrap_word) (simp_all add: KERNEL_BASE_def)
  have "(0xFFFFFFFF80000000 + unat a) div 4096 = (0xFFFF80000 + unat a div 4096) + 0xFFFF * 2 ^ 36"
    by simp
  then have "(0xFFFFFFFF80000000 + unat a) div 4096 mod 2 ^ 36 =
      (0xFFFF80000 + unat a div 4096) mod 2 ^ 36"
    by (simp only: mod_mult_self1)
  also have "\<dots> = 0xFFFF80000 + unat a div 4096"
    using assms by (intro mod_less) (simp add: div_less_iff_less_mult)
  finally show "page_no (KERNEL_BASE + a) = 0xFFFF80000 + unat a div 4096"
    by (simp only: page_no_def u)
qed

lemma page_no_low:
  assumes "unat a < 2 ^ 32"
  shows "page_no a = unat a div 4096" and "page_no a < 2 ^ 20"
proof -
  have lt: "unat a div 4096 < 2 ^ 20" using assms by (simp add: div_less_iff_less_mult)
  then show "page_no a = unat a div 4096" by (simp add: page_no_def)
  with lt show "page_no a < 2 ^ 20" by simp
qed

lemma unat_page_step: "i < 6400 \<Longrightarrow> unat (of_nat (i * 0x1000) :: u64) = i * 4096"
  by (subst unat_of_nat_u64) simp_all

lemma unat_fb_step:
  assumes "unat fb + 0x1900000 \<le> 2 ^ 32" and "i < 6400"
  shows "unat (ucast (fb + of_nat (i * 0x1000) :: u32) :: u64) = unat fb + i * 4096"
proof -
  have "ucast (fb + of_nat (i * 0x1000) :: u32) = (ucast fb + of_nat (i * 0x1000) :: u64)"
    using assms by (intro ucast_add_no_wrap) linarith
  moreover have "unat (ucast fb + of_nat (i * 0x1000) :: u64) = unat fb + i * 4096"
    using assms by (subst unat_add_no_wrap) (simp_all add: unat_ucast_u32)
  ultimately show ?thesis by simp
qed

lemma paging_list_frame:
  assumes "x \<in> set (paging_list KERNEL_BASE fb 0)" and "4096 dvd unat fb"
    and "unat fb + 0x1900000 \<le> 2 ^ 32"
  shows "unat (snd x) =
    (if page_no (fst x) < 2 ^ 20 then page_no (fst x) else page_no (fst x) - 0xFFFF80000) * 4096"
proof -
  obtain i where i: "i < 6400" and x: "x \<in> set (paging_triple KERNEL_BASE fb i)"
    using assms(1) by (auto simp: paging_list_def)
  note k = unat_page_step [OF i]
  obtain q where q: "unat fb = 4096 * q" using assms(2) by (auto simp: dvd_def)
  have f: "unat (ucast (fb + of_nat (i * 0x1000) :: u32) :: u64) = 4096 * (q + i)"
    using unat_fb_step [OF assms(3) i] q by simp
  have b: "4096 * (q + i) < 2 ^ 32" using assms(3) q i by simp
  consider "x = (KERNEL_BASE + of_nat (i * 0x1000), of_nat (i * 0x1000))"
    | "x = (of_nat (i * 0x1000), of_nat (i * 0x1000))"
    | "x = (ucast (fb + of_nat (i * 0x1000)), ucast (fb + of_nat (i * 0x1000)))"
    using x by (auto simp: paging_triple_def)
  then show ?thesis
  proof cases
    case 1
    have "page_no (fst x) = 0xFFFF80000 + i"
      using page_no_kernel(2) [of "of_nat (i * 0x1000)"] 1 k i by simp
    then show ?thesis using 1 k by simp
  next
    case 2
    then show ?thesis
      using page_no_low [of "of_nat (i * 0x1000)"] k i by simp
  next
    case 3
    then show ?thesis
      using page_no_low [of "ucast (fb + of_nat (i * 0x1000))"] f b by simp
  qed
qed

lemma unat_frame_offset:
  assumes "frame_ok pa"
  shows "unat (pa OR (v AND 0xFFF)) = unat pa + unat v mod 4096"
proof -
  have m: "v AND 0xFFF = take_bit 12 v"
    by (simp add: take_bit_eq_mask mask_eq_exp_minus_1)
  have "pa AND take_bit 12 v = 0"
  proof (rule bit_word_eqI)
    fix n
    have "bit pa n \<longrightarrow> 12 \<le> n"
      using assms unfolding frame_ok_def by (metis bit_and_iff ADDRESS_MASK_bits)
    then show "bit (pa AND take_bit 12 v) n = bit 0 n"
      by (auto simp: bit_and_iff bit_take_bit_iff)
  qed
  then have "pa OR take_bit 12 v = pa + take_bit 12 v"
    by (rule disjunctive_add_eq_or [symmetric])
  moreover have "unat (take_bit 12 v) = unat v mod 4096" by (rule unat_take_bit_12)
  moreover have "unat pa + unat v mod 4096 < 2 ^ 64"
  proof -
    have "unat pa < 2 ^ 52" using assms by (simp only: frame_ok_iff)
    moreover have "unat v mod 4096 < 4096" by simp
    ultimately show ?thesis by simp
  qed
  ultimately show ?thesis
    unfolding m by (simp add: unat_add_no_wrap_word)
qed

lemma translate_listed:
  assumes map: "mapping s va = map_option (\<lambda>x. leaf_entry (snd x))
       (find (\<lambda>x. same_page (fst x) va) (paging_list KERNEL_BASE fb 0))"
    and fb: "4096 dvd unat fb" "unat fb + 0x1900000 \<le> 2 ^ 32"
    and listed: "\<exists>x\<in>set (paging_list KERNEL_BASE fb 0). page_no (fst x) = page_no va"
    and dest: "unat va' = (if page_no va < 2 ^ 20 then page_no va else page_no va - 0xFFFF80000)
        * 4096 + unat va mod 4096"
    and bound: "unat va' < 2 ^ 52"
  shows "translate s va = Some va'"
proof -
  obtain x where x: "find (\<lambda>x. same_page (fst x) va) (paging_list KERNEL_BASE fb 0) = Some x"
    using find_ex listed unfolding same_page_no by meson
  have "x \<in> set (paging_list KERNEL_BASE fb 0)" and no: "page_no (fst x) = page_no va"
    using find_SomeD [OF x] by (simp_all only: same_page_no)
  then have pa: "unat (snd x) =
      (if page_no va < 2 ^ 20 then page_no va else page_no va - 0xFFFF80000) * 4096"
    using paging_list_frame [OF _ fb] by simp
  have "4096 dvd unat (snd x)" unfolding pa by (rule dvd_triv_right)
  moreover have "unat (snd x) \<le> unat va'" unfolding pa dest by (rule le_add1)
  then have "unat (snd x) < 2 ^ 52" using bound by (rule le_less_trans)
  ultimately have ok: "frame_ok (snd x)" by (simp only: frame_ok_iff)
  have "unat (snd x OR (va AND 0xFFF)) = unat va'"
    using unat_frame_offset [OF ok, of va] unfolding pa dest .
  then have "snd x OR (va AND 0xFFF) = va'" by (simp add: word_unat_eq_iff)
  then show ?thesis
    using map x ok by (simp add: translate_def leaf_entry_frame)
qed

lemma paging_list_memI:
  "i < 6400 \<Longrightarrow> x \<in> set (paging_triple start fb i) \<Longrightarrow> x \<in> set (paging_list start fb 0)"
  unfolding paging_list_def by (auto intro!: bexI [of _ i])

lemma init_paging_translates:
  assumes map: "\<And>vb. mapping s' vb = map_option (\<lambda>x. leaf_entry (snd x))
       (find (\<lambda>x. same_page (fst x) vb) (paging_list KERNEL_BASE fb 0))"
    and fb: "4096 dvd unat fb" "unat fb + 0x1900000 \<le> 2 ^ 32"
  shows "unat a < 0x1900000 \<Longrightarrow> translate s' a = Some a"
    and "unat a < 0x1900000 \<Longrightarrow> translate s' (KERNEL_BASE + a) = Some a"
    and "unat fb \<le> unat a \<Longrightarrow> unat a < unat fb + 0x1900000 \<Longrightarrow> translate s' a = Some a"
proof -
  let ?L = "paging_list KERNEL_BASE fb 0"
  {
    assume a: "unat a < 0x1900000"
    define i where "i = unat a div 4096"
    have i: "i < 6400" using a by (simp add: i_def div_less_iff_less_mult)
    have step: "unat (of_nat (i * 0x1000) :: u64) < 0x1900000" "unat (of_nat (i * 0x1000) :: u64) div 4096 = i"
      using unat_page_step [OF i] i by simp_all
    have low: "page_no a = i" "page_no a < 2 ^ 20" using page_no_low [of a] a by (simp_all add: i_def)
    have "(of_nat (i * 0x1000), of_nat (i * 0x1000)) \<in> set ?L"
      using i by (rule paging_list_memI) (simp add: paging_triple_def)
    moreover have "page_no (of_nat (i * 0x1000)) = page_no a"
      using page_no_low(1) [of "of_nat (i * 0x1000)"] step low by simp
    ultimately have "\<exists>x\<in>set ?L. page_no (fst x) = page_no a" by force
    then show "translate s' a = Some a"
      using low a by (intro translate_listed [OF map fb]) (simp_all add: i_def)
    have "(KERNEL_BASE + of_nat (i * 0x1000), of_nat (i * 0x1000)) \<in> set ?L"
      using i by (rule paging_list_memI) (simp add: paging_triple_def)
    moreover have "page_no (KERNEL_BASE + of_nat (i * 0x1000)) = page_no (KERNEL_BASE + a)"
      using page_no_kernel(2) [OF step(1)] page_no_kernel(2) [OF a] step(2) by (simp add: i_def)
    ultimately have "\<exists>x\<in>set ?L. page_no (fst x) = page_no (KERNEL_BASE + a)" by force
    moreover have "0xFFFFFFFF80000000 + unat a = unat a + 0xFFFFFFFF80000 * 4096" by simp
    then have "(0xFFFFFFFF80000000 + unat a) mod 4096 = unat a mod 4096"
      by (simp only: mod_mult_self1)
    ultimately show "translate s' (KERNEL_BASE + a) = Some a"
      using a page_no_kernel [OF a] by (intro translate_listed [OF map fb]) simp_all
  }
  {
    assume a: "unat fb \<le> unat a" "unat a < unat fb + 0x1900000"
    define i where "i = (unat a - unat fb) div 4096"
    obtain q where q: "unat fb = 4096 * q" using fb(1) by (auto simp: dvd_def)
    have i: "i < 6400" using a by (simp add: i_def div_less_iff_less_mult)
    have no: "unat a div 4096 = q + i"
      using a(1) q by (simp add: i_def)
    have low: "page_no a = q + i" "page_no a < 2 ^ 20" using page_no_low [of a] a fb(2) no by simp_all
    have f: "unat (ucast (fb + of_nat (i * 0x1000) :: u32) :: u64) = 4096 * (q + i)"
      using unat_fb_step [OF fb(2) i] q by simp
    have "(ucast (fb + of_nat (i * 0x1000)), ucast (fb + of_nat (i * 0x1000))) \<in> set ?L"
      using i by (rule paging_list_memI) (simp add: paging_triple_def)
    moreover have "page_no (ucast (fb + of_nat (i * 0x1000) :: u32)) = page_no a"
      using page_no_low(1) [of "ucast (fb + of_nat (i * 0x1000) :: u32)"] f low fb(2) q i by simp
    ultimately have "\<exists>x\<in>set ?L. page_no (fst x) = page_no a" by force
    moreover have "unat a = (q + i) * 4096 + unat a mod 4096"
      using no by (metis div_mult_mod_eq)
    ultimately show "translate s' a = Some a"
      using low a fb(2) by (intro translate_listed [OF map fb]) simp_all
  }
qed

text \<open>
  C9 init_paging_maps_memory. With 55 free frames (of the 100 the allocator has) \<open>init_paging\<close>
  succeeds and loads the root of a well-formed tree; then the first 25 megabytes are
  identity mapped and also mapped at the kernel's base, and so are the 25 megabytes of the
  frame buffer at their own address.
\<close>

theorem init_paging_maps_memory:
  assumes "pmm_inv (phys s)" and "55 \<le> free_count (phys s)"
    and "4096 dvd unat framebuffer" and "unat framebuffer + 0x1900000 \<le> 2 ^ 32"
  shows "\<exists>s'. init_paging KERNEL_BASE framebuffer s = Inr s' \<and> vm_inv s' \<and> cr3 s' = pml s' \<and>
    (\<forall>a. unat a < 0x1900000 \<longrightarrow>
       translate s' a = Some a \<and> translate s' (KERNEL_BASE + a) = Some a) \<and>
    (\<forall>a. unat framebuffer \<le> unat a \<and> unat a < unat framebuffer + 0x1900000 \<longrightarrow>
       translate s' a = Some a)"
proof -
  have "unat KERNEL_BASE + 0x1900000 \<le> 2 ^ 64" by (simp add: KERNEL_BASE_def)
  then obtain s' where s': "init_paging KERNEL_BASE framebuffer s = Inr s'" "vm_inv s'"
      "cr3 s' = pml s'"
    and map: "\<And>vb. mapping s' vb = map_option (\<lambda>x. leaf_entry (snd x))
       (find (\<lambda>x. same_page (fst x) vb) (paging_list KERNEL_BASE framebuffer 0))"
    using init_paging_maps [OF assms(1,2) _ assms(4)] by blast
  show ?thesis
    using s' init_paging_translates [OF map assms(3,4)] by blast
qed

theorem init_paging_maps_memory_witness:
  "\<exists>s'. init_paging KERNEL_BASE 0xFD000000 sample_vm = Inr s' \<and>
     translate s' 0xFFFFFFFF80012345 = Some 0x12345 \<and> translate s' 0xFD000004 = Some 0xFD000004"
proof -
  have "pmm_inv (phys sample_vm)" using sample_vm_facts by (simp add: vm_inv_def)
  then obtain s' where "init_paging KERNEL_BASE 0xFD000000 sample_vm = Inr s'"
    and low: "\<And>a. unat a < 0x1900000 \<Longrightarrow> translate s' (KERNEL_BASE + a) = Some a"
    and fb: "\<And>a. 0xFD000000 \<le> unat a \<Longrightarrow> unat a < 0xFD000000 + 0x1900000 \<Longrightarrow>
      translate s' a = Some a"
    using init_paging_maps_memory [of sample_vm "0xFD000000"] sample_vm_facts(3) by auto
  moreover have "translate s' 0xFFFFFFFF80012345 = Some 0x12345"
    using low [of "0x12345"] by (simp add: KERNEL_BASE_def)
  moreover have "translate s' 0xFD000004 = Some 0xFD000004" using fb [of "0xFD000004"] by simp
  ultimately show ?thesis by blast
qed

section \<open>map_kernel\<close>

lemma map_kernel_loop_fails:
  "0x80000000 \<le> unat end' \<Longrightarrow> \<exists>e. map_kernel_loop start end' i s = Inl e"
proof (induction start end' i s rule: map_kernel_loop.induct)
  case (1 start end' i s)
  show ?case
  proof (cases "0x7FFFFFFF < i")
    case True
    then show ?thesis by (subst map_kernel_loop.simps) simp
  next
    case False
    then have lt: "of_nat i < end'"
      using "1.prems" by (simp add: word_less_nat_alt unat_of_nat_u64)
    show ?thesis
    proof (cases "map_page s (0xFFFFFFFF80000000 + of_nat i) (start + of_nat i)")
      case (Inl e)
      then show ?thesis using False lt by (subst map_kernel_loop.simps) simp
    next
      case (Inr s')
      have "\<exists>e. map_kernel_loop start end' (i + 0x1000) s' = Inl e"
        using "1.IH" [OF False lt "1.prems"] .
      then show ?thesis using Inr False lt by (subst map_kernel_loop.simps) simp
    qed
  qed
qed

text \<open>
  Lemma map_kernel_never_returns. For a kernel linked in the upper half, \<open>map_kernel\<close> compares
  its \<open>int\<close> counter with an address no \<open>int\<close> reaches: it never returns normally but ends
  in a fault, when the frames run out or when the counter overflows.
\<close>

theorem map_kernel_never_returns:
  assumes "0x80000000 \<le> unat kernel_end" and "unat kernel_end + 0x1000 < 2 ^ 64"
  shows "\<exists>e. map_kernel kernel_start kernel_end s = Inl e"
proof -
  have "unat (kernel_end + 0x1000) = unat kernel_end + 0x1000"
    using assms unat_add_no_wrap_word [of kernel_end "0x1000"] by simp
  moreover have "unat (kernel_end + 0x1000) mod 4096 < 4096" by simp
  ultimately have "0x80000000 \<le> unat ((kernel_end + 0x1000) AND NOT 0xFFF)"
    using assms(1) unfolding unat_page_down by linarith
  then show ?thesis
    unfolding map_kernel_def by (rule map_kernel_loop_fails)
qed

theorem map_kernel_never_returns_witness:
  "\<exists>e. map_kernel 0xFFFFFFFF80000000 0xFFFFFFFF80010000 sample_vm = Inl e"
  by (rule map_kernel_never_returns) simp_all

end
