(* ===== verification/VmmFrame.thy ===== *)
theory VmmFrame
  imports VmmInit
begin

text \<open>
  What the page tables of \<open>kernel/memory/vmm.c\<close> and other users of memory owe each other:
  tables are read and written in the frames of the pool only.
\<close>

section \<open>Page tables and other writes\<close>

text \<open>Tables are read through the entries of the frames in use only.\<close>

lemma table_at_cong:
  assumes "tree_ok E root U" and "\<And>t i. t \<in> U \<Longrightarrow> i < 512 \<Longrightarrow> E' t i = E t i"
  shows "path_ok p \<Longrightarrow> table_at E' root p = table_at E root p"
proof (induction p rule: rev_induct)
  case Nil
  then show ?case by simp
next
  case (snoc i p)
  then have ok: "path_ok p" "i < 512" by simp_all
  show ?case
  proof (cases "table_at E root p")
    case None
    then show ?thesis using snoc.IH ok by (simp add: table_at_snoc)
  next
    case (Some t)
    then have "E' t i = E t i" using tree_ok_member [OF assms(1)] assms(2) ok by blast
    then show ?thesis using Some snoc.IH ok by (simp add: table_at_snoc)
  qed
qed

lemma tree_ok_cong:
  assumes "tree_ok E root U" and "\<And>t i. t \<in> U \<Longrightarrow> i < 512 \<Longrightarrow> E' t i = E t i"
  shows "tree_ok E' root U"
    and "path_ok p \<Longrightarrow> i < 512 \<Longrightarrow> leaf E' root p i = leaf E root p i"
proof -
  note cong = table_at_cong [of E root U E', OF assms]
  show "tree_ok E' root U"
    using assms(1) unfolding tree_ok_def by (simp add: cong cong: conj_cong)
  assume "path_ok p" "i < 512"
  then show "leaf E' root p i = leaf E root p i"
    using assms(2) tree_ok_member [OF assms(1)]
    by (auto simp: leaf_def cong split: option.split)
qed

text \<open>Memory that agrees on the pool's frames holds the same tables.\<close>

definition pool_range :: "pmm \<Rightarrow> u64 \<Rightarrow> bool" where
  "pool_range s x \<longleftrightarrow> unat (pool_base (pool s)) \<le> unat x \<and> unat x < unat (pool_base (pool s)) + 409600"

lemma used_frame_range:
  assumes "pmm_inv s" and "u \<in> used_frames s" and "in_range x u 4096"
  shows "pool_range s x"
proof -
  obtain i where i: "i < 100" "u = frame_addr s i" using assms(2) by (auto simp: used_frames_def)
  then have u: "unat u = unat (pool_base (pool s)) + i * 4096"
    using unat_frame_addr [OF assms(1)] by simp
  moreover from this have "unat u + 4096 \<le> 2 ^ 64" using i(1) assms(1) by (simp add: pmm_inv_def)
  ultimately show ?thesis using i(1) assms(3) in_range_iff [of u 4096 x] by (simp add: pool_range_def)
qed

lemma vm_inv_memory:
  assumes "vm_inv s" and "\<And>x. pool_range (phys s) x \<Longrightarrow> m x = mem s x"
  shows "vm_inv (s\<lparr>mem := m\<rparr>)" and "mapping (s\<lparr>mem := m\<rparr>) va = mapping s va"
    and "translate (s\<lparr>mem := m\<rparr>) va = translate s va"
proof -
  have inv: "pmm_inv (phys s)" and tree: "tree_ok (entries (mem s)) (pml s) (used_frames (phys s))"
    using assms(1) by (simp_all add: vm_inv_def)
  have eq: "entries m t i = entries (mem s) t i" if "t \<in> used_frames (phys s)" "i < 512" for t i
    unfolding entries_def
  proof (rule acc64.ld_cong)
    fix x assume "in_range x (t + 8 * i) 8"
    then have "in_range x t 4096" using entry_in_page [OF that(2)] by blast
    then show "m x = mem s x" using used_frame_range [OF inv that(1)] assms(2) by blast
  qed
  note c = tree_ok_cong [OF tree, of "entries m", OF eq]
  show "vm_inv (s\<lparr>mem := m\<rparr>)" using inv c(1) by (simp add: vm_inv_def)
  show "mapping (s\<lparr>mem := m\<rparr>) va = mapping s va"
    unfolding mapping_def vm_leaf_def using c(2) by simp
  then show "translate (s\<lparr>mem := m\<rparr>) va = translate s va" by (simp add: translate_def)
qed

section \<open>The pool stays where it is\<close>

lemma pmm_allocate_base: "pmm_allocate s = Inr (a, s') \<Longrightarrow> pool_base (pool s') = pool_base (pool s)"
proof -
  have "pmm_allocate_loop s i = Inr (a, s') \<Longrightarrow> pool_base (pool s') = pool_base (pool s)" for i
  proof (induction s i rule: pmm_allocate_loop.induct)
    case (1 s i)
    then show ?case by (subst (asm) (2) pmm_allocate_loop.simps) (auto split: if_splits)
  qed
  then show "pmm_allocate s = Inr (a, s') \<Longrightarrow> pool_base (pool s') = pool_base (pool s)"
    by (simp add: pmm_allocate_def)
qed

definition base_of :: "vm \<Rightarrow> u64" where
  "base_of s = pool_base (pool (phys s))"

lemma next_table_base: "next_table s t i = Inr (u, s') \<Longrightarrow> base_of s' = base_of s"
  by (auto simp: next_table_def base_of_def Let_def dest: pmm_allocate_base split: if_splits elim!: seq_InrE)

lemma map_page_base: "map_page s va pa = Inr s' \<Longrightarrow> base_of s' = base_of s"
  by (auto simp: map_page_def Let_def base_of_def [symmetric] dest!: next_table_base elim!: seq_InrE split: if_splits)
    (simp_all add: base_of_def)

lemma init_paging_loop_base: "init_paging_loop st fb i s = Inr s' \<Longrightarrow> base_of s' = base_of s"
proof (induction st fb i s rule: init_paging_loop.induct)
  case (1 st fb i s)
  then show ?case
    by (subst (asm) (2) init_paging_loop.simps)
      (auto dest!: map_page_base elim!: seq_InrE split: if_splits)
qed

lemma init_paging_base: "init_paging st fb s = Inr s' \<Longrightarrow> base_of s' = base_of s"
  by (auto simp: init_paging_def Let_def set_cr3_def dest!: pmm_allocate_base init_paging_loop_base
      elim!: seq_InrE) (simp_all add: base_of_def)

section \<open>map_page writes to the pool only\<close>

definition pool_frame :: "vm \<Rightarrow> vm \<Rightarrow> bool" where
  "pool_frame s s' \<longleftrightarrow> base_of s' = base_of s \<and> (\<forall>x. \<not> pool_range (phys s) x \<longrightarrow> mem s' x = mem s x)"

lemma pool_frame_refl [simp]: "pool_frame s s"
  by (simp add: pool_frame_def)

lemma pool_frame_trans: "pool_frame s s' \<Longrightarrow> pool_frame s' s'' \<Longrightarrow> pool_frame s s''"
  by (simp add: pool_frame_def pool_range_def base_of_def)

lemma store_in_frame:
  assumes "pmm_inv (phys s)" and "t \<in> used_frames (phys s)" and "i < 512" and "\<not> pool_range (phys s) x"
  shows "store64 m (t + 8 * i) v x = m x"
proof -
  have "\<not> in_range x (t + 8 * i) 8"
    using entry_in_page [OF assms(3)] used_frame_range [OF assms(1,2)] assms(4) by blast
  then show ?thesis by (rule acc64.st_outside)
qed

lemma next_table_frame:
  assumes "vm_inv s" and "path_ok (p @ [i])" and "table_at (entries (mem s)) (pml s) p = Some t"
    and "p @ [i] \<in> tables s \<or> 0 < free_count (phys s)" and "next_table s t i = Inr (u, s')"
  shows "pool_frame s s'"
proof (cases "present (entries (mem s) t i)")
  case True
  then have "s' = s" using assms(5) by (simp add: next_table_def present_iff entries_def)
  then show ?thesis by simp
next
  case False
  have inv: "pmm_inv (phys s)" and tree: "tree_ok (entries (mem s)) (pml s) (used_frames (phys s))"
    using assms(1) by (auto simp: vm_inv_def)
  have "p @ [i] \<notin> tables s"
    using assms(3) False by (simp add: tables_def table_paths_def table_at_snoc)
  then have "0 < free_count (phys s)" using assms(4) by blast
  then obtain f ph where alloc: "pmm_allocate (phys s) = Inr (f, ph)" "f \<noteq> 0"
    using pmm_allocate_succeeds [OF inv] by blast
  have t: "t \<in> used_frames (phys s)" using tree_ok_member [OF tree _ assms(3)] assms(2) by simp
  have f: "f \<in> used_frames ph" "pmm_inv ph"
    using frames.alloc_used frames.alloc_inv inv alloc by blast+
  have base: "pool_base (pool ph) = pool_base (pool (phys s))" by (rule pmm_allocate_base [OF alloc(1)])
  have s': "s' = s\<lparr>mem := store64 (memset (mem s) f 0 0x1000) (t + 8 * i)
      ((f AND ADDRESS_MASK) OR PRESENT OR WRITABLE), phys := ph\<rparr>"
    using assms(5) False alloc(1) by (auto simp: next_table_def present_iff entries_def Let_def)
  have "mem s' x = mem s x" if out: "\<not> pool_range (phys s) x" for x
  proof -
    have "\<not> in_range x f 4096"
      using used_frame_range [OF f(2,1)] out base by (auto simp: pool_range_def)
    then have "memset (mem s) f 0 0x1000 x = mem s x" by (simp add: mem_simps)
    moreover have "i < 512" using assms(2) by (simp add: path_ok_def)
    ultimately show ?thesis using store_in_frame [OF inv t _ out] by (simp add: s')
  qed
  then show ?thesis using base by (simp add: pool_frame_def base_of_def s')
qed

lemma next_table_step:
  assumes "vm_inv s" and "path_ok (p @ [i])" and "table_at (entries (mem s)) (pml s) p = Some t"
    and "card (V \<union> tables s) \<le> budget s" "finite V" "p @ [i] \<in> V"
  obtains t' s' where "next_table s t i = Inr (t', s')" and "vm_inv s'" and "pml s' = pml s"
    and "card (V \<union> tables s') \<le> budget s'" and "table_at (entries (mem s')) (pml s') (p @ [i]) = Some t'"
    and "pool_frame s s'"
  using next_table_in [OF assms] next_table_frame [OF assms(1-3) room_for_path [OF assms(4-6)]]
  by (auto simp: vm_extends_def)

lemma map_page_frame:
  assumes inv: "vm_inv s" and room: "card (va_tables va - tables s) \<le> free_count (phys s)"
    and run: "map_page s va pa = Inr s'"
  shows "pool_frame s s'"
proof -
  let ?a = "PML4_INDEX va" and ?b = "PUD_INDEX va" and ?c = "PMD_INDEX va"
  have V: "card (va_tables va \<union> tables s) \<le> budget s" using room by (simp add: budget_def card_missing_tables)
  have in_V: "[] @ [?a] \<in> va_tables va" "[?a] @ [?b] \<in> va_tables va" "[?a, ?b] @ [?c] \<in> va_tables va"
    by (auto simp: va_tables_def va_path_def)
  have ok: "path_ok ([] @ [?a])" "path_ok ([?a] @ [?b])" "path_ok ([?a, ?b] @ [?c])"
    by (simp_all add: path_ok_def)
  note fin = finite_va_tables [of va]
  have root: "table_at (entries (mem s)) (pml s) [] = Some (pml s)" by simp
  obtain pud s1 where 1: "next_table s (pml s) ?a = Inr (pud, s1)" "vm_inv s1"
      "card (va_tables va \<union> tables s1) \<le> budget s1"
      "table_at (entries (mem s1)) (pml s1) ([] @ [?a]) = Some pud" "pool_frame s s1"
    using next_table_step [OF inv ok(1) root V fin in_V(1)] by metis
  obtain pmd s2 where 2: "next_table s1 pud ?b = Inr (pmd, s2)" "vm_inv s2"
      "card (va_tables va \<union> tables s2) \<le> budget s2"
      "table_at (entries (mem s2)) (pml s2) ([?a] @ [?b]) = Some pmd" "pool_frame s1 s2"
    using next_table_step [OF 1(2) ok(2) 1(4) [unfolded append_Nil] 1(3) fin in_V(2)] by metis
  obtain pt s3 where 3: "next_table s2 pmd ?c = Inr (pt, s3)" "vm_inv s3"
      "table_at (entries (mem s3)) (pml s3) ([?a, ?b] @ [?c]) = Some pt" "pool_frame s2 s3"
    using next_table_step [OF 2(2) ok(3) 2(4) [unfolded append_Cons append_Nil] 2(3) fin in_V(3)] by metis
  have s3: "pool_frame s s3" using 1(5) 2(5) 3(4) pool_frame_trans by blast
  have p3: "pmm_inv (phys s3)" "tree_ok (entries (mem s3)) (pml s3) (used_frames (phys s3))"
    using 3(2) by (auto simp: vm_inv_def)
  then have "pt \<in> used_frames (phys s3)" using tree_ok_member [OF p3(2) ok(3) 3(3)] by simp
  then have "pool_frame s3 (s3\<lparr>mem := store64 (mem s3) (pt + 8 * PT_INDEX va) (pa OR PAT OR PRESENT OR WRITABLE)\<rparr>)"
    using store_in_frame [OF p3(1)] by (simp add: pool_frame_def base_of_def)
  moreover have "s' = s3 \<or> s' = s3\<lparr>mem := store64 (mem s3) (pt + 8 * PT_INDEX va) (pa OR PAT OR PRESENT OR WRITABLE)\<rparr>"
    using run 1(1) 2(1) 3(1) by (auto simp: map_page_def Let_def split: if_splits)
  ultimately show ?thesis using s3 pool_frame_trans by blast
qed

section \<open>init_paging writes to the pool only\<close>

lemma map_pages_frame:
  assumes "finite V"
  shows "vm_inv s \<Longrightarrow> card (V \<union> tables s) \<le> budget s \<Longrightarrow> \<forall>x\<in>set xs. va_tables (fst x) \<subseteq> V \<Longrightarrow>
    map_pages s xs = Inr s' \<Longrightarrow> pool_frame s s'"
proof (induction xs arbitrary: s)
  case (Cons x xs)
  obtain va pa where x: "x = (va, pa)" by (cases x)
  then have sub: "va_tables va \<subseteq> V" using Cons.prems by simp
  obtain s1 where s1: "map_page s va pa = Inr s1" "vm_inv s1" "budget s1 = budget s"
    "tables s1 = va_tables va \<union> tables s"
    using map_page_ok [OF Cons.prems(1,2) assms sub, of pa] by blast
  have "card (va_tables va - tables s) + card (tables s) = card (va_tables va \<union> tables s)"
    by (rule card_missing_tables [symmetric])
  also have "\<dots> \<le> card (V \<union> tables s)" using sub assms by (intro card_mono) auto
  finally have "card (va_tables va - tables s) \<le> free_count (phys s)"
    using Cons.prems(2) by (simp add: budget_def)
  then have f: "pool_frame s s1" using map_page_frame [OF Cons.prems(1)] s1(1) by blast
  have "V \<union> tables s1 = V \<union> tables s" using s1(4) sub by auto
  then have "pool_frame s1 s'" using Cons.IH [OF s1(2)] Cons.prems s1(1,3) x by simp
  with f show ?case by (rule pool_frame_trans)
qed simp

lemma init_paging_frame:
  assumes "pmm_inv (phys s)" and "55 \<le> free_count (phys s)" and "unat start + 0x1900000 \<le> 2 ^ 64"
    and "unat fb + 0x1900000 \<le> 2 ^ 32" and "init_paging start fb s = Inr s'"
  shows "pool_frame s s'"
proof -
  obtain f ph s0 where alloc: "pmm_allocate (phys s) = Inr (f, ph)" "f \<in> used_frames ph" "pmm_inv ph"
    "s0 = s\<lparr>pml := f, phys := ph, mem := clear_frame (mem s) f\<rparr>" "vm_inv s0"
    "card (paging_tables start fb \<union> tables s0) \<le> budget s0"
    and run: "init_paging start fb s = seq (map_pages s0 (paging_list start fb 0)) (\<lambda>s. Inr (set_cr3 (pml s) s))"
    by (rule init_paging_root [OF assms(1,2), where start = start and fb = fb]) (rule that, assumption+)
  obtain s1 where s1: "map_pages s0 (paging_list start fb 0) = Inr s1" "s' = set_cr3 (pml s1) s1"
    using assms(5) unfolding run by (auto elim!: seq_InrE)
  have base: "pool_base (pool ph) = pool_base (pool (phys s))" by (rule pmm_allocate_base [OF alloc(1)])
  have "clear_frame (mem s) f x = mem s x" if "\<not> pool_range (phys s) x" for x
    using used_frame_range [OF alloc(3,2)] that base by (auto simp: clear_frame_def mem_simps pool_range_def)
  then have "pool_frame s s0" using base by (simp add: pool_frame_def base_of_def alloc(4))
  moreover have "\<forall>x\<in>set (paging_list start fb 0). va_tables (fst x) \<subseteq> paging_tables start fb"
    using paging_list_tables [OF assms(3,4)] by (auto simp: paging_tables_def)
  then have "pool_frame s0 s1"
    using map_pages_frame [OF finite_paging_tables alloc(5,6) _ s1(1)] by blast
  ultimately have "pool_frame s s1" by (rule pool_frame_trans)
  then show ?thesis by (simp add: s1(2) set_cr3_def pool_frame_def base_of_def)
qed

end
