(* ===== verification/Acpi.thy ===== *)
theory Acpi
  imports TerminalFrame VmmFrame
begin

text \<open>
  Finding the interrupt controllers, \<open>kernel/acpi.c\<close> and \<open>kernel/include/acpi.h\<close>: the search
  for the root descriptor, the walk over the tables of the RSDT or XSDT, and the walk over
  the records of the MADT. Tables are read from the memory of the paging state \<open>vm\<close>, since the
  walk maps pages on its way; it also prints, on a terminal whose screen is that memory.

  In the header the attribute \<open>packed\<close> stands behind the name of each typedef, where the
  compiler ignores it: the structures have their natural layout. Only \<open>XSDT_t\<close> differs from
  the packed one, its 64-bit array starts at offset 40 and not 36.
\<close>

section \<open>State and layout\<close>

record apic_t =
  local_apic :: u64
  io_apic :: u64

record acpi_state =
  ac_apic :: apic_t
  ac_vm :: vm
  ac_con :: console

definition get_apic :: "acpi_state \<Rightarrow> apic_t" where "get_apic s = ac_apic s"

definition REGION_START :: u64 where "REGION_START = 0xE0000"
definition REGION_END :: u64 where "REGION_END = 0x100000"

definition xsdp_revision :: "memory \<Rightarrow> u64 \<Rightarrow> u8" where "xsdp_revision m p = m (p + 15)"
definition xsdp_rsdt :: "memory \<Rightarrow> u64 \<Rightarrow> u32" where "xsdp_rsdt m p = load32 m (p + 16)"
definition xsdp_xsdt :: "memory \<Rightarrow> u64 \<Rightarrow> u64" where "xsdp_xsdt m p = load64 m (p + 24)"

definition sdt_length :: "memory \<Rightarrow> u64 \<Rightarrow> u32" where "sdt_length m p = load32 m (p + 4)"
definition SDT_HEADER_SIZE :: u64 where "SDT_HEADER_SIZE = 36"

definition madt_address :: "memory \<Rightarrow> u64 \<Rightarrow> u32" where "madt_address m p = load32 m (p + 36)"
definition MADT_RECORDS :: u64 where "MADT_RECORDS = 44"

definition record_type :: "memory \<Rightarrow> u64 \<Rightarrow> u8" where "record_type m r = m r"
definition record_length :: "memory \<Rightarrow> u64 \<Rightarrow> u8" where "record_length m r = m (r + 1)"
definition local_apic_id :: "memory \<Rightarrow> u64 \<Rightarrow> u8" where "local_apic_id m r = m (r + 2)"
definition io_apic_address :: "memory \<Rightarrow> u64 \<Rightarrow> u32" where "io_apic_address m r = load32 m (r + 4)"

definition rsdt_address :: "memory \<Rightarrow> u64 \<Rightarrow> nat \<Rightarrow> u32" where
  "rsdt_address m p i = load32 m (p + 36 + 4 * of_nat i)"
definition xsdt_address :: "memory \<Rightarrow> u64 \<Rightarrow> nat \<Rightarrow> u64" where
  "xsdt_address m p i = load64 m (p + 40 + 8 * of_nat i)"

definition has_signature :: "string \<Rightarrow> memory \<Rightarrow> u64 \<Rightarrow> bool" where
  "has_signature sig m p \<longleftrightarrow>
     strcmp (bytes_at m p) (bytes_of (chars sig)) (of_nat (length sig)) = 0"

section \<open>Operations\<close>

function checksum_loop :: "memory \<Rightarrow> u64 \<Rightarrow> nat \<Rightarrow> nat \<Rightarrow> u8 \<Rightarrow> u8" where
  "checksum_loop m table i len acc =
     (if i < len then checksum_loop m table (Suc i) len (acc + m (table + of_nat i)) else acc)"
  by pat_completeness auto
termination
  by (relation "measure (\<lambda>(m, t, i, len, acc). len - i)") auto

declare checksum_loop.simps [simp del]

definition verify_checksum :: "memory \<Rightarrow> u64 \<Rightarrow> u64 \<Rightarrow> u8" where
  "verify_checksum m table len = checksum_loop m table 0 (unat len) 0"

function find_xsdp_loop :: "memory \<Rightarrow> u64 \<Rightarrow> u64" where
  "find_xsdp_loop m addr =
     (if addr < REGION_END then
        (if has_signature ''RSD PTR '' m addr then addr else find_xsdp_loop m (addr + 16))
      else 0)"
  by pat_completeness auto
termination
proof (relation "measure (\<lambda>(m, addr). unat REGION_END - unat addr)")
  fix m :: memory and addr :: u64
  assume "addr < REGION_END"
  then have "unat addr < 0x100000" by (simp add: REGION_END_def word_less_nat_alt)
  moreover from this have "unat (addr + 16) = unat addr + 16"
    by (intro unat_add_no_wrap_word [of addr 16, simplified]) simp
  ultimately show "((m, addr + 16), m, addr) \<in> measure (\<lambda>(m, addr). unat REGION_END - unat addr)"
    by (simp add: REGION_END_def)
qed simp

declare find_xsdp_loop.simps [simp del]

definition find_xsdp :: "memory \<Rightarrow> u64" where
  "find_xsdp m = find_xsdp_loop m REGION_START"

text \<open>Printing on the terminal, whose screen is the memory.\<close>

definition on_terminal :: "(console \<Rightarrow> console res option) \<Rightarrow> acpi_state \<Rightarrow> acpi_state res option" where
  "on_terminal f s =
     oseq (f ((ac_con s)\<lparr>screen := mem (ac_vm s)\<rparr>)) (\<lambda>t.
       Some (Inr (s\<lparr>ac_con := t, ac_vm := (ac_vm s)\<lparr>mem := screen t\<rparr>\<rparr>)))"

definition say :: "string \<Rightarrow> acpi_state \<Rightarrow> acpi_state res option" where
  "say str = on_terminal (print (bytes_of (chars str)))"

definition say_hex :: "u64 \<Rightarrow> acpi_state \<Rightarrow> acpi_state res option" where
  "say_hex n = on_terminal (print_hex n)"

text \<open>
  The body of the loop over the MADT's records, \<open>r\<close> being the record. The two copies of the loop
  differ in that the second, of the XSDT walk, announces the I/O controller.
\<close>

definition madt_record :: "bool \<Rightarrow> u64 \<Rightarrow> acpi_state \<Rightarrow> acpi_state res option" where
  "madt_record announce r s =
     (if record_type (mem (ac_vm s)) r = 0 then
        oseq (say ''LOCAL APIC ID: '' s) (\<lambda>s.
          let apicID = local_apic_id (mem (ac_vm s)) r
          in if apicID = 0 then say (''0'' @ [CHR 0x0A]) s
             else if apicID = 1 then say (''1'' @ [CHR 0x0A]) s
             else say_hex (ucast apicID) s)
      else if record_type (mem (ac_vm s)) r = 1 then
        oseq (if announce then
                oseq (say ''IO APIC address: '' s) (\<lambda>s.
                  say_hex (ucast (io_apic_address (mem (ac_vm s)) r)) s)
              else Some (Inr s)) (\<lambda>s.
          Some (Inr (s\<lparr>ac_apic := (ac_apic s)\<lparr>io_apic := ucast (io_apic_address (mem (ac_vm s)) r)\<rparr>\<rparr>)))
      else Some (Inr s))"

text \<open>A record of length zero keeps the loop in its place for ever.\<close>

partial_function (option) madt_loop :: "bool \<Rightarrow> u64 \<Rightarrow> u64 \<Rightarrow> acpi_state \<Rightarrow> acpi_state res option" where
  "madt_loop announce r end' s =
     (if r < end' then
        (case madt_record announce r s of
           None \<Rightarrow> None
         | Some (Inl e) \<Rightarrow> Some (Inl e)
         | Some (Inr s) \<Rightarrow> madt_loop announce (r + ucast (record_length (mem (ac_vm s)) r)) end' s)
      else Some (Inr s))"

definition parse_madt :: "bool \<Rightarrow> u64 \<Rightarrow> acpi_state \<Rightarrow> acpi_state res option" where
  "parse_madt announce madt s =
     madt_loop announce (madt + MADT_RECORDS) (madt + ucast (sdt_length (mem (ac_vm s)) madt))
       (s\<lparr>ac_apic := (ac_apic s)\<lparr>local_apic := ucast (madt_address (mem (ac_vm s)) madt)\<rparr>\<rparr>)"

text \<open>The RSDT walk looks at 25 addresses, however long the table says it is.\<close>

function rsdt_loop :: "u64 \<Rightarrow> nat \<Rightarrow> acpi_state \<Rightarrow> acpi_state res option" where
  "rsdt_loop rsdt sdt_index s =
     (if sdt_index < 25 then
        let table = ucast (rsdt_address (mem (ac_vm s)) rsdt sdt_index)
        in if has_signature ''APIC'' (mem (ac_vm s)) table then parse_madt False table s
           else rsdt_loop rsdt (Suc sdt_index) s
      else Some (Inr s))"
  by pat_completeness auto
termination
  by (relation "measure (\<lambda>(r, i, s). 25 - i)") auto

declare rsdt_loop.simps [simp del]

definition parse_rsdt :: "u64 \<Rightarrow> acpi_state \<Rightarrow> acpi_state res option" where
  "parse_rsdt rsdt s = rsdt_loop rsdt 0 s"

definition swap_upper_lower :: "u64 \<Rightarrow> u64" where
  "swap_upper_lower value =
     (let lower = ucast (value AND 0xFFFFFFFF) :: u32;
          upper = ucast (drop_bit 32 value AND 0xFFFFFFFF) :: u32
      in push_bit 32 (ucast lower) OR ucast upper)"

definition xsdt_entry_count :: "memory \<Rightarrow> u64 \<Rightarrow> u32" where
  "xsdt_entry_count m xsdt = ucast ((ucast (sdt_length m xsdt) - SDT_HEADER_SIZE) div 8)"

text \<open>
  One turn of the loop over the XSDT's entries; \<open>True\<close> is the \<open>break\<close> behind the MADT. The
  signature is printed as a string, up to the first zero byte of the table.
\<close>

definition xsdt_entry :: "u64 \<Rightarrow> nat \<Rightarrow> acpi_state \<Rightarrow> (bool \<times> acpi_state) res option" where
  "xsdt_entry xsdt sdt_index s =
     oseq (say ''parse_xsdt loop: '' s) (\<lambda>s.
     oseq (say_hex (of_nat sdt_index) s) (\<lambda>s.
     let table = swap_upper_lower (xsdt_address (mem (ac_vm s)) xsdt sdt_index) in
     oseq (Some (map_page (ac_vm s) table table)) (\<lambda>v.
     oseq (say ''table: '' (s\<lparr>ac_vm := v\<rparr>)) (\<lambda>s.
     oseq (on_terminal (print (bytes_at (mem (ac_vm s)) table)) s) (\<lambda>s.
       if has_signature ''APIC'' (mem (ac_vm s)) table
       then oseq (parse_madt True table s) (\<lambda>s. Some (Inr (True, s)))
       else Some (Inr (False, s)))))))"

function xsdt_loop :: "u64 \<Rightarrow> nat \<Rightarrow> nat \<Rightarrow> acpi_state \<Rightarrow> acpi_state res option" where
  "xsdt_loop xsdt entry_count sdt_index s =
     (if sdt_index < entry_count then
        (case xsdt_entry xsdt sdt_index s of
           None \<Rightarrow> None
         | Some (Inl e) \<Rightarrow> Some (Inl e)
         | Some (Inr (found, s)) \<Rightarrow>
             if found then Some (Inr s) else xsdt_loop xsdt entry_count (Suc sdt_index) s)
      else Some (Inr s))"
  by pat_completeness auto
termination
  by (relation "measure (\<lambda>(x, n, i, s). n - i)") auto

declare xsdt_loop.simps [simp del]

text \<open>The checksum of the XSDT is printed, good or bad, and not acted on.\<close>

definition parse_xsdt :: "u64 \<Rightarrow> acpi_state \<Rightarrow> acpi_state res option" where
  "parse_xsdt xsdt s =
     oseq (if verify_checksum (mem (ac_vm s)) xsdt (ucast (sdt_length (mem (ac_vm s)) xsdt)) = 0
           then say (''checksum verification successful'' @ [CHR 0x0A]) s
           else say (''checksum verification failed'' @ [CHR 0x0A]) s) (\<lambda>s.
       xsdt_loop xsdt (unat (xsdt_entry_count (mem (ac_vm s)) xsdt)) 0 s)"

datatype acpi_result = Halted acpi_state | Parsed acpi_state

definition parse_acpi :: "acpi_state \<Rightarrow> acpi_result res option" where
  "parse_acpi s =
     (let xsdp = find_xsdp (mem (ac_vm s)) in
      if xsdp = 0 then
        oseq (say (''Root system descriptor pointer not found!'' @ [CHR 0x0A]) s) (\<lambda>s. Some (Inr (Halted s)))
      else if xsdp_revision (mem (ac_vm s)) xsdp \<ge> 2 \<and> xsdp_xsdt (mem (ac_vm s)) xsdp \<noteq> 0 then
        oseq (say (''acpi version 2'' @ [CHR 0x0A]) s) (\<lambda>s.
        oseq (Some (map_page (ac_vm s) (xsdp_xsdt (mem (ac_vm s)) xsdp) (xsdp_xsdt (mem (ac_vm s)) xsdp))) (\<lambda>v.
        oseq (say (''Mapped xsdt'' @ [CHR 0x0A]) (s\<lparr>ac_vm := v\<rparr>)) (\<lambda>s.
        oseq (parse_xsdt (xsdp_xsdt (mem (ac_vm s)) xsdp) s) (\<lambda>s. Some (Inr (Parsed s))))))
      else
        oseq (say (''acpi version 1'' @ [CHR 0x0A]) s) (\<lambda>s.
        oseq (Some (map_page (ac_vm s) (ucast (xsdp_rsdt (mem (ac_vm s)) xsdp)) (ucast (xsdp_rsdt (mem (ac_vm s)) xsdp)))) (\<lambda>v.
        oseq (parse_rsdt (ucast (xsdp_rsdt (mem v) xsdp)) (s\<lparr>ac_vm := v\<rparr>)) (\<lambda>s. Some (Inr (Parsed s))))))"

section \<open>Checksum and search\<close>

lemma checksum_loop_eq:
  "checksum_loop m t i n s = s + (\<Sum>k \<leftarrow> [i..<n]. m (t + of_nat k))"
proof (induction m t i n s rule: checksum_loop.induct)
  case (1 m t i n s)
  show ?case
  proof (cases "i < n")
    case True
    then have "[i..<n] = i # [Suc i..<n]" by (rule upt_conv_Cons)
    then show ?thesis
      using "1.IH" [OF True] True by (subst checksum_loop.simps) (simp add: add.assoc)
  next
    case False
    then show ?thesis by (subst checksum_loop.simps) simp
  qed
qed

lemma has_signature_iff:
  assumes "length sig < 2 ^ 64"
  shows "has_signature sig m p \<longleftrightarrow> (\<forall>i<length sig. m (p + of_nat i) = chars sig ! i)"
  using assms by (simp add: has_signature_def strcmp_eq bytes_at_def bytes_of_def chars_def unat_of_nat_u64)

definition xsdp_slot :: "nat \<Rightarrow> u64" where
  "xsdp_slot k = REGION_START + 16 * of_nat k"

lemma xsdp_slot_unat: "k \<le> 8192 \<Longrightarrow> unat (xsdp_slot k) = 0xE0000 + 16 * k"
proof -
  assume "k \<le> 8192"
  moreover have "xsdp_slot k = of_nat (0xE0000 + 16 * k)"
    by (simp add: xsdp_slot_def REGION_START_def)
  moreover have "0xE0000 + 16 * k < 2 ^ 64" using \<open>k \<le> 8192\<close> by simp
  ultimately show ?thesis by (simp only: unat_of_nat_u64)
qed

lemma find_xsdp_loop_eq:
  "k \<le> 8192 \<Longrightarrow> find_xsdp_loop m (xsdp_slot k) =
     (case find (\<lambda>k. has_signature ''RSD PTR '' m (xsdp_slot k)) [k..<8192] of
        None \<Rightarrow> 0 | Some j \<Rightarrow> xsdp_slot j)"
proof (induction "8192 - k" arbitrary: k)
  case 0
  then have "\<not> xsdp_slot k < REGION_END"
    using xsdp_slot_unat [of k] by (simp add: word_less_nat_alt REGION_END_def)
  then show ?case using 0 by (subst find_xsdp_loop.simps) simp
next
  case (Suc n)
  then have k: "k < 8192" by simp
  then have "xsdp_slot k < REGION_END"
    using xsdp_slot_unat [of k] by (simp add: word_less_nat_alt REGION_END_def)
  moreover have "xsdp_slot k + 16 = xsdp_slot (Suc k)" by (simp add: xsdp_slot_def algebra_simps)
  moreover have "[k..<8192] = k # [Suc k..<8192]" using k by (rule upt_conv_Cons)
  ultimately show ?case
    using Suc.hyps(1) [of "Suc k"] Suc.hyps(2) k by (subst find_xsdp_loop.simps) simp
qed

section \<open>The XSDT entries\<close>

text \<open>Entry \<open>k\<close> of the table as the specification lays it out, packed behind the header.\<close>

definition xsdt_packed :: "memory \<Rightarrow> u64 \<Rightarrow> nat \<Rightarrow> u64" where
  "xsdt_packed m p k = load64 m (p + 36 + 8 * of_nat k)"

definition lo32 :: "u64 \<Rightarrow> u32" where "lo32 v = ucast v"
definition hi32 :: "u64 \<Rightarrow> u32" where "hi32 v = ucast (drop_bit 32 v)"

lemma halves_join: "(v :: u64) = ucast (lo32 v) OR push_bit 32 (ucast (hi32 v))"
  (is "_ = ?r")
proof (rule bit_word_eqI)
  fix i assume "i < LENGTH(64)"
  then show "bit v i = bit ?r i"
    by (cases "32 \<le> i") (auto simp: lo32_def hi32_def bit_simps)
qed

lemma halves_of_join:
  "lo32 (ucast a OR push_bit 32 (ucast b)) = a" "hi32 (ucast a OR push_bit 32 (ucast b)) = b"
proof -
  show "lo32 (ucast a OR push_bit 32 (ucast b)) = a"
    unfolding lo32_def by (rule bit_word_eqI) (auto simp: bit_simps)
  show "hi32 (ucast a OR push_bit 32 (ucast b)) = b"
    unfolding hi32_def by (rule bit_word_eqI) (auto simp: bit_simps dest: bit_imp_le_length)
qed

lemma load64_lo32: "lo32 (load64 m a) = load32 m a"
  and load64_hi32: "hi32 (load64 m a) = load32 m (a + 4)"
  unfolding load64_halves by (rule halves_of_join)+

lemma swap_join: "swap_upper_lower v = ucast (hi32 v) OR push_bit 32 (ucast (lo32 v))"
proof -
  have m: "(0xFFFFFFFF :: u64) = mask 32" by (simp add: mask_eq_exp_minus_1)
  have 1: "(ucast (v AND mask 32) :: u32) = lo32 v"
    unfolding lo32_def by (rule bit_word_eqI) (auto simp: bit_simps)
  have 2: "(ucast (drop_bit 32 v AND mask 32) :: u32) = hi32 v"
    unfolding hi32_def by (rule bit_word_eqI) (auto simp: bit_simps)
  show ?thesis unfolding swap_upper_lower_def Let_def m 1 2 by (rule or.commute)
qed

lemma xsdt_shift:
  "swap_upper_lower (xsdt_address m p k) =
     ucast (lo32 (xsdt_packed m p (Suc k))) OR push_bit 32 (ucast (hi32 (xsdt_packed m p k)))"
proof -
  have a: "p + 40 + 8 * of_nat k + 4 = p + 36 + 8 * of_nat (Suc k)"
    and b: "p + 36 + 8 * of_nat k + 4 = p + 40 + 8 * of_nat k"
    by (simp_all add: algebra_simps)
  show ?thesis
    unfolding swap_join xsdt_address_def xsdt_packed_def load64_hi32 load64_lo32 a b ..
qed

section \<open>Properties\<close>

text \<open>Lemma verify_checksum_sum. The checksum is the sum of the table's bytes modulo 256, so a table is
  accepted exactly when they add up to a multiple of 256; the loop never wraps its counter.\<close>
theorem verify_checksum_sum:
  "unat (verify_checksum m table len) =
     (\<Sum>k \<leftarrow> [0..<unat len]. unat (m (table + of_nat k))) mod 256"
proof -
  have "unat (\<Sum>k \<leftarrow> ks. f k :: u8) = (\<Sum>k \<leftarrow> ks. unat (f k)) mod 256" for ks :: "nat list" and f
    by (induction ks) (simp_all add: unat_word_ariths mod_add_right_eq)
  then show ?thesis by (simp add: verify_checksum_def checksum_loop_eq)
qed

text \<open>Lemma find_xsdp_first. The search returns the lowest of the 8192 addresses divisible by 16 between
  0xE0000 and 0x100000 at which the eight bytes of the signature stand, and 0 when there is
  none; no checksum is looked at.\<close>
theorem find_xsdp_first:
  "find_xsdp m =
     (case find (\<lambda>k. \<forall>i<8. m (xsdp_slot k + of_nat i) = chars ''RSD PTR '' ! i) [0..<8192] of
        None \<Rightarrow> 0 | Some k \<Rightarrow> xsdp_slot k)"
proof -
  have "find_xsdp m = find_xsdp_loop m (xsdp_slot 0)"
    by (simp add: find_xsdp_def xsdp_slot_def)
  moreover have length: "length ''RSD PTR '' = 8" by simp
  have "has_signature ''RSD PTR '' m p \<longleftrightarrow> (\<forall>i<8. m (p + of_nat i) = chars ''RSD PTR '' ! i)" for p
    using has_signature_iff [of "''RSD PTR ''" m p] unfolding length by simp
  ultimately show ?thesis using find_xsdp_loop_eq [of 0 m] by simp
qed

theorem find_xsdp_first_witness:
  "find_xsdp (\<lambda>a. 0) = 0"
proof -
  have "find (\<lambda>k. \<forall>i<8. (0 :: u8) = chars ''RSD PTR '' ! i) [0..<8192] = None"
    by (auto simp: find_None_iff chars_def intro!: exI [of _ 0])
  then show ?thesis by (simp only: find_xsdp_first option.case)
qed

text \<open>C37 xsdt_reads_next_entry. Because the array of the unpacked structure starts four bytes too
  far, what step \<open>k\<close> of the XSDT walk reads is the high half of entry \<open>k\<close> and the low half of entry
  \<open>k + 1\<close>; exchanging the halves joins them the right way round. With tables below 4 GiB, whose
  high halves are zero, step \<open>k\<close> therefore looks at entry \<open>k + 1\<close>, and the first is never seen.\<close>
theorem xsdt_reads_next_entry:
  "swap_upper_lower (xsdt_address m p k) =
     ucast (lo32 (xsdt_packed m p (Suc k))) OR push_bit 32 (ucast (hi32 (xsdt_packed m p k))) \<and>
   (hi32 (xsdt_packed m p k) = 0 \<and> hi32 (xsdt_packed m p (Suc k)) = 0 \<longrightarrow>
      swap_upper_lower (xsdt_address m p k) = xsdt_packed m p (Suc k))"
proof -
  have "hi32 (xsdt_packed m p k) = 0 \<and> hi32 (xsdt_packed m p (Suc k)) = 0 \<Longrightarrow>
      swap_upper_lower (xsdt_address m p k) = xsdt_packed m p (Suc k)"
    unfolding xsdt_shift using halves_join [of "xsdt_packed m p (Suc k)"] by simp
  then show ?thesis using xsdt_shift by blast
qed

theorem xsdt_reads_next_entry_witness:
  "swap_upper_lower (xsdt_address (\<lambda>a. if a = 0x2024 then 0x11 else if a = 0x202C then 0x22 else 0)
     0x2000 0) = 0x22"
proof -
  let ?m = "\<lambda>a :: u64. if a = 0x2024 then 0x11 else if a = 0x202C then 0x22 else 0 :: u8"
  have p: "xsdt_packed ?m 0x2000 0 = 0x11" "xsdt_packed ?m 0x2000 1 = 0x22"
    by (simp_all add: xsdt_packed_def load64_def mem_eval)
  then have "hi32 (xsdt_packed ?m 0x2000 0) = 0" "hi32 (xsdt_packed ?m 0x2000 (Suc 0)) = 0"
    by (simp_all add: hi32_def)
  moreover have "ucast (lo32 0x22) = (0x22 :: u64)" by (simp add: lo32_def)
  ultimately show ?thesis using xsdt_reads_next_entry [of ?m "0x2000" 0] p by simp
qed

text \<open>Lemma swap_upper_lower_involution. Exchanging the halves of a value twice gives it back.\<close>
theorem swap_upper_lower_involution:
  "swap_upper_lower (swap_upper_lower v) = v"
  unfolding swap_join halves_of_join by (rule halves_join [symmetric])

end
