(* ===== verification/AcpiTerminal.thy ===== *)
theory AcpiTerminal
  imports Acpi
begin

text \<open>
  The two services \<open>kernel/acpi.c\<close> uses on its way, printing and mapping a page, as steps on its
  state: both succeed, both write to their own memory only, the framebuffer and the frames of
  the pool, and neither takes a mapping away. What lies outside can be read at any time.
\<close>

section \<open>Reading memory that stays the same\<close>

text \<open>\<open>C\<close> is the memory that may change.\<close>

definition clear_of :: "(u64 \<Rightarrow> bool) \<Rightarrow> u64 \<Rightarrow> nat \<Rightarrow> bool" where
  "clear_of C a n \<longleftrightarrow> (\<forall>x. in_range x a n \<longrightarrow> \<not> C x)"

definition same_outside :: "(u64 \<Rightarrow> bool) \<Rightarrow> memory \<Rightarrow> memory \<Rightarrow> bool" where
  "same_outside C m m' \<longleftrightarrow> (\<forall>x. \<not> C x \<longrightarrow> m' x = m x)"

lemma clear_of_mono: "clear_of C a n \<Longrightarrow> (\<And>x. D x \<Longrightarrow> C x) \<Longrightarrow> clear_of D a n"
  by (auto simp: clear_of_def)

definition agree :: "memory \<Rightarrow> memory \<Rightarrow> u64 \<Rightarrow> nat \<Rightarrow> bool" where
  "agree m m' a n \<longleftrightarrow> (\<forall>x. in_range x a n \<longrightarrow> m' x = m x)"

lemma agree_byte: "agree m m' a n \<Longrightarrow> k < n \<Longrightarrow> n < 2 ^ 64 \<Longrightarrow> m' (a + of_nat k) = m (a + of_nat k)"
  by (simp add: agree_def in_range_def unat_of_nat_u64)

lemma same_outside_agree: "same_outside C m m' \<Longrightarrow> clear_of C a n \<Longrightarrow> agree m m' a n"
  by (auto simp: same_outside_def clear_of_def agree_def)

lemma same_outside_trans: "same_outside C m m' \<Longrightarrow> same_outside C m' m'' \<Longrightarrow> same_outside C m m''"
  by (simp add: same_outside_def)

lemma agree_part:
  assumes "agree m m' a n" and "k + i \<le> n" and "n < 2 ^ 64" and "in_range x (a + of_nat k) i"
  shows "m' x = m x"
proof -
  have "unat (of_nat k :: u64) = k" using assms by (intro unat_of_nat_u64) simp
  then have "in_range x a n" using assms in_range_sub [of x a "of_nat k" i n] by simp
  then show ?thesis using assms(1) by (simp add: agree_def)
qed

lemma agree_load32:
  "agree m m' a n \<Longrightarrow> k + 4 \<le> n \<Longrightarrow> n < 2 ^ 64 \<Longrightarrow> load32 m' (a + of_nat k) = load32 m (a + of_nat k)"
  by (rule acc32.ld_cong, rule agree_part)

lemma agree_load64:
  "agree m m' a n \<Longrightarrow> k + 8 \<le> n \<Longrightarrow> n < 2 ^ 64 \<Longrightarrow> load64 m' (a + of_nat k) = load64 m (a + of_nat k)"
  by (rule acc64.ld_cong, rule agree_part)

lemma agree_signature:
  assumes "agree m m' a n" and "length sig \<le> n" and "n < 2 ^ 64"
  shows "has_signature sig m' a \<longleftrightarrow> has_signature sig m a"
  using assms agree_byte [OF assms(1)] by (simp add: has_signature_iff)

section \<open>The steps\<close>

text \<open>The memory the walk writes to.\<close>

definition scratch :: "nat \<Rightarrow> nat \<Rightarrow> acpi_state \<Rightarrow> u64 \<Rightarrow> bool" where
  "scratch H W s x \<longleftrightarrow> in_frame (vesa_info (ac_con s)) (8 * W) (16 * H) x \<or> pool_range (phys (ac_vm s)) x"

text \<open>Page tables and terminal in order, the framebuffer outside the frame pool.\<close>

definition acpi_inv :: "nat \<Rightarrow> nat \<Rightarrow> acpi_state \<Rightarrow> bool" where
  "acpi_inv H W s \<longleftrightarrow> vm_inv (ac_vm s) \<and> (\<exists>hist. shows_text H W hist (ac_con s)) \<and> device_fits H W (ac_con s) \<and>
     (\<forall>x. in_frame (vesa_info (ac_con s)) (8 * W) (16 * H) x \<longrightarrow> \<not> pool_range (phys (ac_vm s)) x)"

text \<open>A step that takes at most \<open>n\<close> frames.\<close>

definition acpi_step :: "nat \<Rightarrow> nat \<Rightarrow> nat \<Rightarrow> acpi_state \<Rightarrow> acpi_state \<Rightarrow> bool" where
  "acpi_step H W n s s' \<longleftrightarrow> acpi_inv H W s' \<and> base_of (ac_vm s') = base_of (ac_vm s) \<and>
     vesa_info (ac_con s') = vesa_info (ac_con s) \<and>
     same_outside (scratch H W s) (mem (ac_vm s)) (mem (ac_vm s')) \<and>
     (\<forall>va. mapping (ac_vm s) va \<noteq> None \<longrightarrow> mapping (ac_vm s') va = mapping (ac_vm s) va) \<and>
     free_count (phys (ac_vm s)) \<le> free_count (phys (ac_vm s')) + n"

lemma scratch_eq:
  "base_of (ac_vm s') = base_of (ac_vm s) \<Longrightarrow> vesa_info (ac_con s') = vesa_info (ac_con s) \<Longrightarrow>
     scratch H W s' = scratch H W s"
  by (simp add: scratch_def base_of_def pool_range_def fun_eq_iff)

lemma acpi_step_refl: "acpi_inv H W s \<Longrightarrow> acpi_step H W n s s"
  by (simp add: acpi_step_def same_outside_def)

lemma acpi_step_trans:
  "acpi_step H W n s s' \<Longrightarrow> acpi_step H W k s' s'' \<Longrightarrow> acpi_step H W (n + k) s s''"
proof -
  assume "acpi_step H W n s s'" "acpi_step H W k s' s''"
  moreover from this(1) have "scratch H W s' = scratch H W s" by (intro scratch_eq) (simp_all add: acpi_step_def)
  ultimately show ?thesis
    using same_outside_trans [of "scratch H W s" "mem (ac_vm s)" "mem (ac_vm s')" "mem (ac_vm s'')"]
    by (auto simp: acpi_step_def)
qed

lemma acpi_step_mono: "acpi_step H W n s s' \<Longrightarrow> n \<le> k \<Longrightarrow> acpi_step H W k s s'"
  by (simp add: acpi_step_def)

lemma acpi_step_inv: "acpi_step H W n s s' \<Longrightarrow> acpi_inv H W s'"
  by (simp add: acpi_step_def)

lemma acpi_step_frames: "acpi_step H W n s s' \<Longrightarrow> k + n \<le> free_count (phys (ac_vm s)) \<Longrightarrow> k \<le> free_count (phys (ac_vm s'))"
  by (simp add: acpi_step_def)

lemma acpi_step_same:
  "acpi_step H W n s s' \<Longrightarrow> same_outside (scratch H W s) (mem (ac_vm s)) (mem (ac_vm s')) \<and> scratch H W s' = scratch H W s"
  using scratch_eq [of s' s H W] by (simp add: acpi_step_def)

lemma acpi_step_agree:
  "acpi_step H W n s s' \<Longrightarrow> clear_of (scratch H W s) a k \<Longrightarrow> agree (mem (ac_vm s)) (mem (ac_vm s')) a k"
  using acpi_step_same same_outside_agree by blast

lemma acpi_step_apic:
  "acpi_step H W n s s' \<Longrightarrow> acpi_step H W n s (s'\<lparr>ac_apic := a\<rparr>)"
  "acpi_step H W n (s\<lparr>ac_apic := a\<rparr>) s' = acpi_step H W n s s'"
  "acpi_inv H W (s\<lparr>ac_apic := a\<rparr>) = acpi_inv H W s"
  "scratch H W (s\<lparr>ac_apic := a\<rparr>) = scratch H W s"
  by (simp_all add: acpi_step_def acpi_inv_def scratch_def same_outside_def fun_eq_iff)

section \<open>Printing\<close>

text \<open>What a printing routine does.\<close>

definition prints :: "(console \<Rightarrow> console res option) \<Rightarrow> bool" where
  "prints f \<longleftrightarrow> (\<forall>H W hist t. shows_text H W hist t \<longrightarrow>
     (\<exists>hist' t'. f t = Some (Inr t') \<and> shows_text H W hist' t' \<and> frame_step H W hist t hist' t'))"

lemma prints_text: "text_ok s \<Longrightarrow> length s < 256 \<Longrightarrow> prints (print (bytes_of s))"
  unfolding prints_def using frame.rel_print by blast

lemma prints_hex: "prints (print_hex n)"
  unfolding prints_def using frame.rel_print_hex by blast

lemma shows_text_screen: "shows_text H W hist (t\<lparr>screen := m\<rparr>) = shows_text H W hist t"
  by (simp add: shows_text_def console_ok_def displayed_def)

lemma on_terminal_step:
  assumes "acpi_inv H W s" and "prints f"
  shows "\<exists>s'. on_terminal f s = Some (Inr s') \<and> acpi_step H W 0 s s' \<and> ac_apic s' = ac_apic s"
proof -
  let ?t = "(ac_con s)\<lparr>screen := mem (ac_vm s)\<rparr>"
  have inv: "vm_inv (ac_vm s)" "device_fits H W ?t"
    and apart: "\<And>x. in_frame (vesa_info (ac_con s)) (8 * W) (16 * H) x \<Longrightarrow> \<not> pool_range (phys (ac_vm s)) x"
    using assms(1) by (auto simp: acpi_inv_def device_fits_def)
  obtain hist where "shows_text H W hist ?t" using assms(1) by (auto simp: acpi_inv_def shows_text_screen)
  then obtain hist' t' where t': "f ?t = Some (Inr t')" "shows_text H W hist' t'" "frame_step H W hist ?t hist' t'"
    using assms(2) unfolding prints_def by blast
  then have f: "frame_only H W ?t t'" using inv(2) by (simp add: frame_step_def)
  then have keep: "vesa_info t' = vesa_info (ac_con s)"
    "\<And>x. \<not> in_frame (vesa_info (ac_con s)) (8 * W) (16 * H) x \<Longrightarrow> screen t' x = mem (ac_vm s) x"
    by (simp_all add: frame_only_def)
  let ?s = "s\<lparr>ac_con := t', ac_vm := (ac_vm s)\<lparr>mem := screen t'\<rparr>\<rparr>"
  have "screen t' x = mem (ac_vm s) x" if "pool_range (phys (ac_vm s)) x" for x
    using that keep(2) apart by blast
  note vm = vm_inv_memory [OF inv(1) this]
  have "acpi_step H W 0 s ?s"
    using vm t'(2) keep apart frame_only_fits [OF f] inv(2)
    by (auto simp: acpi_step_def acpi_inv_def scratch_def same_outside_def base_of_def)
  then show ?thesis using t'(1) by (simp add: on_terminal_def)
qed

lemma acpi_texts:
  "text_ok (chars ''LOCAL APIC ID: '')" "text_ok (chars (''0'' @ [CHR 0x0A]))" "text_ok (chars (''1'' @ [CHR 0x0A]))"
  "text_ok (chars ''IO APIC address: '')" "text_ok (chars ''parse_xsdt loop: '')" "text_ok (chars ''table: '')"
  "text_ok (chars (''checksum verification successful'' @ [CHR 0x0A]))"
  "text_ok (chars (''checksum verification failed'' @ [CHR 0x0A]))"
  "text_ok (chars (''acpi version 2'' @ [CHR 0x0A]))" "text_ok (chars (''acpi version 1'' @ [CHR 0x0A]))"
  "text_ok (chars (''Mapped xsdt'' @ [CHR 0x0A]))"
  "text_ok (chars (''Root system descriptor pointer not found!'' @ [CHR 0x0A]))"
  "text_ok (chars ''local apic: '')" "text_ok (chars ''IO apic: '')"
  by (simp_all add: text_ok_def chars_def printable_def)

lemma say_step:
  assumes "acpi_inv H W s" and "text_ok (chars str)" and "length str < 256"
  shows "\<exists>s'. say str s = Some (Inr s') \<and> acpi_step H W 0 s s' \<and> ac_apic s' = ac_apic s"
  unfolding say_def using assms by (intro on_terminal_step prints_text) (simp_all add: chars_def)

lemma say_hex_step:
  "acpi_inv H W s \<Longrightarrow> \<exists>s'. say_hex n s = Some (Inr s') \<and> acpi_step H W 0 s s' \<and> ac_apic s' = ac_apic s"
  unfolding say_hex_def by (intro on_terminal_step prints_hex)

section \<open>Mapping\<close>

lemma map_page_more:
  assumes "vm_inv s" and "3 \<le> free_count (phys s)"
  shows "\<exists>s'. map_page s va pa = Inr s' \<and> vm_inv s' \<and> pool_frame s s' \<and>
    (\<forall>va. mapping s va \<noteq> None \<longrightarrow> mapping s' va = mapping s va) \<and> free_count (phys s) \<le> free_count (phys s') + 3"
proof -
  have "[] \<in> tables s" by (simp add: tables_def table_paths_def)
  then have n: "card (va_tables va - tables s) \<le> 3" by (rule new_tables_le_3)
  then have room: "card (va_tables va - tables s) \<le> free_count (phys s)" using assms(2) by simp
  obtain s' where s': "map_page s va pa = Inr s'" "vm_inv s'"
    "free_count (phys s') + card (va_tables va - tables s) = free_count (phys s)"
    "mapping s' va = Some (case mapping s va of Some e \<Rightarrow> e | None \<Rightarrow> leaf_entry pa)"
    "\<forall>vb. \<not> same_page va vb \<longrightarrow> mapping s' vb = mapping s vb"
    using map_page_budget [OF assms(1) room, of pa] by blast
  have "mapping s' vb = mapping s vb" if "mapping s vb \<noteq> None" for vb
  proof (cases "same_page va vb")
    case True
    then show ?thesis using that s'(4) mapping_same_page [OF True] by auto
  qed (use s'(5) in blast)
  then show ?thesis using s'(1-3) n map_page_frame [OF assms(1) room s'(1)] by auto
qed

lemma map_step:
  assumes "acpi_inv H W s" and "3 \<le> free_count (phys (ac_vm s))"
  shows "\<exists>v. map_page (ac_vm s) va pa = Inr v \<and> acpi_step H W 3 s (s\<lparr>ac_vm := v\<rparr>)"
proof -
  have "vm_inv (ac_vm s)" using assms(1) by (simp add: acpi_inv_def)
  from map_page_more [OF this assms(2)] obtain v where v: "map_page (ac_vm s) va pa = Inr v" "vm_inv v"
    "pool_frame (ac_vm s) v" "\<forall>va. mapping (ac_vm s) va \<noteq> None \<longrightarrow> mapping v va = mapping (ac_vm s) va"
    "free_count (phys (ac_vm s)) \<le> free_count (phys v) + 3" by blast
  have "pool_range (phys v) = pool_range (phys (ac_vm s))"
    using v(3) by (simp add: pool_frame_def base_of_def pool_range_def fun_eq_iff)
  then have "acpi_step H W 3 s (s\<lparr>ac_vm := v\<rparr>)"
    using v assms(1) by (simp add: acpi_step_def acpi_inv_def scratch_def same_outside_def pool_frame_def)
  then show ?thesis using v(1) by blast
qed

end
