(* ===== verification/AcpiWalk.thy ===== *)
theory AcpiWalk
  imports AcpiTerminal
begin

text \<open>
  The whole of \<open>parse_acpi\<close> of \<open>kernel/acpi.c\<close>: the tables it reads lie outside the framebuffer
  and the frame pool, so that the walk, which prints and maps pages on its way, finds what the
  firmware put there.
\<close>

section \<open>The records of the MADT\<close>

text \<open>\<open>rs\<close> are the addresses of the records from \<open>a\<close> up to the end \<open>e\<close>, each found from the length
  byte of the one before.\<close>

fun records_at :: "memory \<Rightarrow> u64 \<Rightarrow> u64 \<Rightarrow> u64 list \<Rightarrow> bool" where
  "records_at m a e [] \<longleftrightarrow> e \<le> a"
| "records_at m a e (r # rs) \<longleftrightarrow> r = a \<and> a < e \<and> records_at m (a + ucast (record_length m a)) e rs"

definition last_io_apic :: "memory \<Rightarrow> u64 list \<Rightarrow> u64 \<Rightarrow> u64" where
  "last_io_apic m rs x = foldl (\<lambda>x r. if record_type m r = 1 then ucast (io_apic_address m r) else x) x rs"

lemma agree_record:
  assumes "agree m m' r 8"
  shows "record_type m' r = record_type m r" "record_length m' r = record_length m r"
    "local_apic_id m' r = local_apic_id m r" "io_apic_address m' r = io_apic_address m r"
  using agree_byte [OF assms, of 0] agree_byte [OF assms, of 1] agree_byte [OF assms, of 2]
    agree_load32 [OF assms, of 4]
  by (simp_all add: record_type_def record_length_def local_apic_id_def io_apic_address_def)

lemma agree_records:
  "records_at m a e rs \<Longrightarrow> \<forall>r \<in> set rs. agree m m' r 8 \<Longrightarrow>
     records_at m' a e rs \<and> last_io_apic m' rs x = last_io_apic m rs x"
proof (induction rs arbitrary: a x)
  case (Cons r rs)
  then have "agree m m' r 8" "r = a" by simp_all
  with Cons agree_record [of m m' r] show ?case by (auto simp: last_io_apic_def)
qed (simp add: last_io_apic_def)

lemma madt_record_step:
  assumes "acpi_inv H W s" and "clear_of (scratch H W s) r 8"
  shows "\<exists>s'. madt_record announce r s = Some (Inr s') \<and> acpi_step H W 0 s s' \<and>
    ac_apic s' = (if record_type (mem (ac_vm s)) r = 1
      then (ac_apic s)\<lparr>io_apic := ucast (io_apic_address (mem (ac_vm s)) r)\<rparr> else ac_apic s)"
proof -
  let ?m = "mem (ac_vm s)"
  consider "record_type ?m r = 0" | "record_type ?m r = 1" | "record_type ?m r \<notin> {0, 1}" by blast
  then show ?thesis
  proof cases
    case 1
    obtain s1 where s1: "say ''LOCAL APIC ID: '' s = Some (Inr s1)" "acpi_step H W 0 s s1" "ac_apic s1 = ac_apic s"
      using say_step [OF assms(1) acpi_texts(1)] by auto
    note inv = acpi_step_inv [OF s1(2)]
    let ?id = "local_apic_id (mem (ac_vm s1)) r"
    obtain s2 where "(if ?id = 0 then say (''0'' @ [CHR 0x0A]) s1 else if ?id = 1 then say (''1'' @ [CHR 0x0A]) s1
        else say_hex (ucast ?id) s1) = Some (Inr s2)" "acpi_step H W 0 s1 s2" "ac_apic s2 = ac_apic s1"
      using say_step [OF inv acpi_texts(2)] say_step [OF inv acpi_texts(3)] say_hex_step [OF inv, of "ucast ?id"]
      by (cases "?id = 0"; cases "?id = 1") auto
    then show ?thesis
      using 1 s1 acpi_step_trans [OF s1(2)] by (simp add: madt_record_def Let_def)
  next
    case 2
    obtain s2 where s2: "(if announce then
          oseq (say ''IO APIC address: '' s) (\<lambda>s. say_hex (ucast (io_apic_address (mem (ac_vm s)) r)) s)
        else Some (Inr s)) = Some (Inr s2)" "acpi_step H W 0 s s2" "ac_apic s2 = ac_apic s"
    proof (cases announce)
      case True
      obtain s1 where s1: "say ''IO APIC address: '' s = Some (Inr s1)" "acpi_step H W 0 s s1" "ac_apic s1 = ac_apic s"
        using say_step [OF assms(1) acpi_texts(4)] by auto
      obtain s2 where "say_hex (ucast (io_apic_address (mem (ac_vm s1)) r)) s1 = Some (Inr s2)"
        "acpi_step H W 0 s1 s2" "ac_apic s2 = ac_apic s1"
        using say_hex_step [OF acpi_step_inv [OF s1(2)]] by blast
      then show thesis using that s1 acpi_step_trans [OF s1(2)] True by simp
    qed (use assms(1) acpi_step_refl that in auto)
    have "io_apic_address (mem (ac_vm s2)) r = io_apic_address ?m r"
      by (rule agree_record(4) [OF acpi_step_agree [OF s2(2) assms(2)]])
    then show ?thesis
      using 2 s2 acpi_step_apic(1) [OF s2(2)] by (simp add: madt_record_def)
  next
    case 3
    then show ?thesis using assms(1) acpi_step_refl by (simp add: madt_record_def)
  qed
qed

lemma madt_loop_walk:
  "acpi_inv H W s \<Longrightarrow> records_at (mem (ac_vm s)) a e rs \<Longrightarrow> \<forall>r \<in> set rs. clear_of (scratch H W s) r 8 \<Longrightarrow>
     \<exists>s'. madt_loop announce a e s = Some (Inr s') \<and> acpi_step H W 0 s s' \<and>
       ac_apic s' = (ac_apic s)\<lparr>io_apic := last_io_apic (mem (ac_vm s)) rs (io_apic (ac_apic s))\<rparr>"
proof (induction rs arbitrary: a s)
  case Nil
  then have "\<not> a < e" by (simp add: not_less)
  then show ?case
    using Nil(1) acpi_step_refl by (subst madt_loop.simps) (simp add: last_io_apic_def)
next
  case (Cons r rs)
  let ?m = "mem (ac_vm s)"
  have r: "r = a" "a < e" "records_at ?m (a + ucast (record_length ?m a)) e rs" "clear_of (scratch H W s) a 8"
    using Cons.prems by auto
  obtain s1 where s1: "madt_record announce a s = Some (Inr s1)" "acpi_step H W 0 s s1"
    "ac_apic s1 = (if record_type ?m a = 1 then (ac_apic s)\<lparr>io_apic := ucast (io_apic_address ?m a)\<rparr> else ac_apic s)"
    using madt_record_step [OF Cons.prems(1) r(4)] by blast
  have rest: "\<forall>r \<in> set rs. agree ?m (mem (ac_vm s1)) r 8"
    using Cons.prems(3) acpi_step_agree [OF s1(2)] by simp
  note same = agree_record [OF acpi_step_agree [OF s1(2) r(4)]] agree_records [OF r(3) rest]
  obtain s' where s': "madt_loop announce (a + ucast (record_length (mem (ac_vm s1)) a)) e s1 = Some (Inr s')"
    "acpi_step H W 0 s1 s'"
    "ac_apic s' = (ac_apic s1)\<lparr>io_apic := last_io_apic (mem (ac_vm s1)) rs (io_apic (ac_apic s1))\<rparr>"
    using Cons.IH [OF acpi_step_inv [OF s1(2)]] Cons.prems(3) same acpi_step_same [OF s1(2)] by (metis list.set_intros(2))
  have "ac_apic s' = (ac_apic s)\<lparr>io_apic := last_io_apic ?m (r # rs) (io_apic (ac_apic s))\<rparr>"
    unfolding s'(3) s1(3) using same(5) r(1) by (simp add: last_io_apic_def)
  then show ?case
    using r s1(1) s'(1,2) acpi_step_trans [OF s1(2)] by (subst madt_loop.simps) simp
qed

text \<open>A well-formed MADT outside the memory the walk writes to, and what is read from it.\<close>

definition madt_at :: "memory \<Rightarrow> (u64 \<Rightarrow> bool) \<Rightarrow> u64 \<Rightarrow> u64 list \<Rightarrow> bool" where
  "madt_at m C madt rs \<longleftrightarrow> has_signature ''APIC'' m madt \<and>
     records_at m (madt + MADT_RECORDS) (madt + ucast (sdt_length m madt)) rs \<and>
     clear_of C madt 256 \<and> (\<forall>r \<in> set rs. clear_of C r 8)"

definition controllers :: "memory \<Rightarrow> u64 \<Rightarrow> u64 list \<Rightarrow> apic_t \<Rightarrow> apic_t" where
  "controllers m madt rs a = a\<lparr>local_apic := ucast (madt_address m madt), io_apic := last_io_apic m rs (io_apic a)\<rparr>"

lemma parse_madt_walk:
  assumes "acpi_inv H W s" and "madt_at (mem (ac_vm s)) (scratch H W s) madt rs"
  shows "\<exists>s'. parse_madt announce madt s = Some (Inr s') \<and> acpi_step H W 0 s s' \<and>
    ac_apic s' = controllers (mem (ac_vm s)) madt rs (ac_apic s)"
  using madt_loop_walk [of H W "s\<lparr>ac_apic := (ac_apic s)\<lparr>local_apic := ucast (madt_address (mem (ac_vm s)) madt)\<rparr>\<rparr>"]
    assms by (fastforce simp: parse_madt_def madt_at_def acpi_step_apic controllers_def)

lemma madt_at_same:
  assumes "same_outside C m m'" and "madt_at m C madt rs"
  shows "madt_at m' C madt rs" and "controllers m' madt rs = controllers m madt rs"
proof -
  have a: "agree m m' madt 256" and r: "\<forall>r \<in> set rs. agree m m' r 8"
    and rec: "records_at m (madt + MADT_RECORDS) (madt + ucast (sdt_length m madt)) rs"
    using assms same_outside_agree [OF assms(1)] by (simp_all add: madt_at_def)
  have sig: "has_signature ''APIC'' m' madt = has_signature ''APIC'' m madt"
    by (rule agree_signature [OF a]) simp_all
  have len: "sdt_length m' madt = sdt_length m madt" "madt_address m' madt = madt_address m madt"
    using agree_load32 [OF a, of 4] agree_load32 [OF a, of 36] by (simp_all add: sdt_length_def madt_address_def)
  show "madt_at m' C madt rs" using assms(2) sig len agree_records [OF rec r] by (simp add: madt_at_def)
  show "controllers m' madt rs = controllers m madt rs"
    using len agree_records [OF rec r] by (simp add: controllers_def fun_eq_iff)
qed

lemma madt_at_step:
  assumes "acpi_step H W n s s'" and "madt_at (mem (ac_vm s)) (scratch H W s) madt rs"
  shows "madt_at (mem (ac_vm s')) (scratch H W s') madt rs"
    and "controllers (mem (ac_vm s')) madt rs = controllers (mem (ac_vm s)) madt rs"
  using madt_at_same [OF _ assms(2)] acpi_step_same [OF assms(1)] by auto

section \<open>The walk over the RSDT\<close>

text \<open>
  What the firmware provides: \<open>ts\<close> are the addresses of the tables the RSDT lists before the
  MADT, and \<open>rs\<close> the records of the MADT.
\<close>

definition rsdt_at :: "memory \<Rightarrow> (u64 \<Rightarrow> bool) \<Rightarrow> u64 \<Rightarrow> u64 list \<Rightarrow> u64 \<Rightarrow> u64 list \<Rightarrow> bool" where
  "rsdt_at m C rsdt ts madt rs \<longleftrightarrow> length ts < 25 \<and> clear_of C rsdt 136 \<and>
     (\<forall>i < length ts. ucast (rsdt_address m rsdt i) = ts ! i) \<and>
     ucast (rsdt_address m rsdt (length ts)) = madt \<and>
     (\<forall>t \<in> set ts. clear_of C t 4 \<and> \<not> has_signature ''APIC'' m t) \<and> madt_at m C madt rs"

lemma rsdt_at_same:
  assumes "same_outside C m m'" and "rsdt_at m C rsdt ts madt rs"
  shows "rsdt_at m' C rsdt ts madt rs"
proof -
  note agree = same_outside_agree [OF assms(1)]
  have r: "agree m m' rsdt 136" and l: "length ts < 25" using assms(2) agree by (simp_all add: rsdt_at_def)
  have "rsdt_address m' rsdt i = rsdt_address m rsdt i" if "i \<le> length ts" for i
    using agree_load32 [OF r, of "36 + 4 * i"] l that by (simp add: rsdt_address_def add.assoc)
  moreover have "has_signature ''APIC'' m' t = has_signature ''APIC'' m t" if "t \<in> set ts" for t
  proof (rule agree_signature [of m m' t 4])
    show "agree m m' t 4" using assms(2) that by (intro agree) (simp add: rsdt_at_def)
  qed simp_all
  ultimately show ?thesis
    using assms(2) madt_at_same(1) [OF assms(1)] by (simp add: rsdt_at_def)
qed

lemma rsdt_at_step:
  "acpi_step H W n s s' \<Longrightarrow> rsdt_at (mem (ac_vm s)) (scratch H W s) rsdt ts madt rs \<Longrightarrow>
     rsdt_at (mem (ac_vm s')) (scratch H W s') rsdt ts madt rs"
  using rsdt_at_same acpi_step_same by metis

lemma rsdt_loop_eq:
  "i \<le> 25 \<Longrightarrow> rsdt_loop rsdt i s =
     (case find (\<lambda>i. has_signature ''APIC'' (mem (ac_vm s)) (ucast (rsdt_address (mem (ac_vm s)) rsdt i))) [i..<25] of
        None \<Rightarrow> Some (Inr s)
      | Some j \<Rightarrow> parse_madt False (ucast (rsdt_address (mem (ac_vm s)) rsdt j)) s)"
proof (induction "25 - i" arbitrary: i)
  case 0
  then show ?case by (subst rsdt_loop.simps) simp
next
  case (Suc n)
  then have i: "i < 25" by simp
  then have "[i..<25] = i # [Suc i..<25]" by (rule upt_conv_Cons)
  then show ?case
    using i Suc.hyps(1) [of "Suc i"] Suc.hyps(2) by (subst rsdt_loop.simps) (simp add: Let_def)
qed

lemma parse_rsdt_walk:
  assumes "acpi_inv H W s" and "rsdt_at (mem (ac_vm s)) (scratch H W s) rsdt ts madt rs"
  shows "\<exists>s'. parse_rsdt rsdt s = Some (Inr s') \<and> acpi_step H W 0 s s' \<and>
    ac_apic s' = controllers (mem (ac_vm s)) madt rs (ac_apic s)"
proof -
  let ?P = "\<lambda>i. has_signature ''APIC'' (mem (ac_vm s)) (ucast (rsdt_address (mem (ac_vm s)) rsdt i))"
  have l: "length ts < 25" "\<forall>i < length ts. \<not> ?P i" "?P (length ts)"
    "ucast (rsdt_address (mem (ac_vm s)) rsdt (length ts)) = madt" "madt_at (mem (ac_vm s)) (scratch H W s) madt rs"
    using assms(2) by (auto simp: rsdt_at_def madt_at_def)
  have "find ?P [0..<25] = Some (length ts)"
    using l by (auto simp: find_Some_iff intro!: exI [of _ "length ts"])
  then have "parse_rsdt rsdt s = parse_madt False madt s"
    using rsdt_loop_eq [of 0 rsdt s] l(4) by (simp add: parse_rsdt_def)
  then show ?thesis using parse_madt_walk [OF assms(1) l(5)] by simp
qed

section \<open>The walk over the XSDT\<close>

text \<open>What the terminal prints when it is given a table for a string.\<close>

definition signature_text :: "memory \<Rightarrow> u64 \<Rightarrow> bool" where
  "signature_text m t \<longleftrightarrow> (\<exists>n < 256. m (t + of_nat n) = 0 \<and>
     (\<forall>i < n. printable (m (t + of_nat i)) \<and> m (t + of_nat i) \<noteq> 0))"

lemma signature_prints: "signature_text m t \<Longrightarrow> prints (print (bytes_at m t))"
proof -
  assume "signature_text m t"
  then obtain n where n: "n < 256" "m (t + of_nat n) = 0" "\<forall>i < n. printable (m (t + of_nat i)) \<and> m (t + of_nat i) \<noteq> 0"
    by (auto simp: signature_text_def)
  let ?s = "map (\<lambda>i. m (t + of_nat i)) [0..<n]"
  have "text_ok ?s" using n(3) by (auto simp: text_ok_def)
  moreover from this have "print (bytes_at m t) = print (bytes_of ?s)"
    using n by (intro print_reader [of n]) (auto simp: bytes_at_def)
  ultimately show ?thesis using prints_text [of ?s] n(1) by simp
qed

lemma agree_signature_text:
  assumes "agree m m' t 256"
  shows "signature_text m' t = signature_text m t"
  using agree_byte [OF assms] by (auto simp: signature_text_def)

definition xsdt_at :: "memory \<Rightarrow> (u64 \<Rightarrow> bool) \<Rightarrow> u64 \<Rightarrow> u64 list \<Rightarrow> u64 \<Rightarrow> u64 list \<Rightarrow> bool" where
  "xsdt_at m C xsdt ts madt rs \<longleftrightarrow> length ts < unat (xsdt_entry_count m xsdt) \<and> length ts < 1000 \<and>
     clear_of C xsdt (48 + 8 * length ts) \<and>
     (\<forall>i \<le> length ts. swap_upper_lower (xsdt_address m xsdt i) = (ts @ [madt]) ! i) \<and>
     (\<forall>t \<in> set (ts @ [madt]). clear_of C t 256 \<and> signature_text m t) \<and>
     (\<forall>t \<in> set ts. \<not> has_signature ''APIC'' m t) \<and> madt_at m C madt rs"

lemma xsdt_at_same:
  assumes "same_outside C m m'" and "xsdt_at m C xsdt ts madt rs"
  shows "xsdt_at m' C xsdt ts madt rs"
proof -
  note agree = same_outside_agree [OF assms(1)]
  have x: "agree m m' xsdt (48 + 8 * length ts)" and l: "length ts < 1000"
    using assms(2) agree by (simp_all add: xsdt_at_def)
  have t: "agree m m' t 256" if "t \<in> set (ts @ [madt])" for t
    using assms(2) that by (intro agree) (auto simp: xsdt_at_def)
  have "xsdt_address m' xsdt i = xsdt_address m xsdt i" if "i \<le> length ts" for i
    using agree_load64 [OF x, of "40 + 8 * i"] that l by (simp add: xsdt_address_def add.assoc)
  moreover have "xsdt_entry_count m' xsdt = xsdt_entry_count m xsdt"
    using agree_load32 [OF x, of 4] l by (simp add: xsdt_entry_count_def sdt_length_def)
  moreover have "signature_text m' t = signature_text m t" if "t \<in> set (ts @ [madt])" for t
    using agree_signature_text [OF t [OF that]] .
  moreover have "has_signature ''APIC'' m' t = has_signature ''APIC'' m t" if "t \<in> set ts" for t
    using t that by (intro agree_signature [of m m' t 256]) simp_all
  ultimately show ?thesis
    using assms(2) madt_at_same(1) [OF assms(1)] by (simp add: xsdt_at_def)
qed

lemma xsdt_at_step:
  "acpi_step H W n s s' \<Longrightarrow> xsdt_at (mem (ac_vm s)) (scratch H W s) xsdt ts madt rs \<Longrightarrow>
     xsdt_at (mem (ac_vm s')) (scratch H W s') xsdt ts madt rs"
  using xsdt_at_same acpi_step_same by metis

text \<open>An entry up to the text it prints of the table.\<close>

lemma xsdt_entry_start:
  assumes "acpi_inv H W s" and "3 \<le> free_count (phys (ac_vm s))" and "clear_of (scratch H W s) xsdt n"
    and "48 + 8 * i \<le> n" and "n < 2 ^ 64" and "swap_upper_lower (xsdt_address (mem (ac_vm s)) xsdt i) = t"
  shows "\<exists>s4. acpi_step H W 3 s s4 \<and> ac_apic s4 = ac_apic s \<and>
    xsdt_entry xsdt i s = oseq (on_terminal (print (bytes_at (mem (ac_vm s4)) t)) s4) (\<lambda>s.
      if has_signature ''APIC'' (mem (ac_vm s)) t then oseq (parse_madt True t s) (\<lambda>s. Some (Inr (True, s)))
      else Some (Inr (False, s)))"
proof -
  obtain s1 where s1: "say ''parse_xsdt loop: '' s = Some (Inr s1)" "acpi_step H W 0 s s1" "ac_apic s1 = ac_apic s"
    using say_step [OF assms(1) acpi_texts(5)] by auto
  obtain s2 where s2: "say_hex (of_nat i) s1 = Some (Inr s2)" "acpi_step H W 0 s1 s2" "ac_apic s2 = ac_apic s1"
    using say_hex_step [OF acpi_step_inv [OF s1(2)]] by blast
  note st2 = acpi_step_trans [OF s1(2) s2(2), simplified]
  have "3 \<le> free_count (phys (ac_vm s2))" using acpi_step_frames [OF st2] assms(2) by simp
  then obtain v where v: "map_page (ac_vm s2) t t = Inr v" "acpi_step H W 3 s2 (s2\<lparr>ac_vm := v\<rparr>)"
    using map_step [OF acpi_step_inv [OF st2]] by blast
  obtain s4 where s4: "say ''table: '' (s2\<lparr>ac_vm := v\<rparr>) = Some (Inr s4)" "acpi_step H W 0 (s2\<lparr>ac_vm := v\<rparr>) s4"
    "ac_apic s4 = ac_apic s2"
    using say_step [OF acpi_step_inv [OF v(2)] acpi_texts(6)] by auto
  have "swap_upper_lower (xsdt_address (mem (ac_vm s2)) xsdt i) = t"
    using agree_load64 [OF acpi_step_agree [OF st2 assms(3)], of "40 + 8 * i"] assms(4-6)
    by (simp add: xsdt_address_def add.assoc)
  then show ?thesis
    using acpi_step_trans [OF acpi_step_trans [OF st2 v(2)] s4(2), simplified] s1 s2 v(1) s4
    by (intro exI [of _ s4]) (simp add: xsdt_entry_def)
qed

lemma xsdt_entry_walk:
  assumes "acpi_inv H W s" and "xsdt_at (mem (ac_vm s)) (scratch H W s) xsdt ts madt rs" and "i \<le> length ts" and "3 \<le> free_count (phys (ac_vm s))"
  shows "\<exists>s'. xsdt_entry xsdt i s = Some (Inr (i = length ts, s')) \<and> acpi_step H W 3 s s' \<and>
    ac_apic s' = (if i = length ts then controllers (mem (ac_vm s)) madt rs (ac_apic s) else ac_apic s)"
proof -
  let ?t = "(ts @ [madt]) ! i"
  have t: "?t \<in> set (ts @ [madt])" using assms(3) by (intro nth_mem) simp
  have x: "clear_of (scratch H W s) xsdt (48 + 8 * length ts)" "48 + 8 * i \<le> 48 + 8 * length ts" "48 + 8 * length ts < 2 ^ 64"
    "swap_upper_lower (xsdt_address (mem (ac_vm s)) xsdt i) = ?t"
    using assms(2,3) by (simp_all add: xsdt_at_def)
  obtain s4 where st4: "acpi_step H W 3 s s4" and a4: "ac_apic s4 = ac_apic s"
    and e4: "xsdt_entry xsdt i s = oseq (on_terminal (print (bytes_at (mem (ac_vm s4)) ?t)) s4) (\<lambda>s.
      if has_signature ''APIC'' (mem (ac_vm s)) ?t then oseq (parse_madt True ?t s) (\<lambda>s. Some (Inr (True, s)))
      else Some (Inr (False, s)))"
    using xsdt_entry_start [OF assms(1,4) x] by blast
  have "signature_text (mem (ac_vm s4)) ?t" using xsdt_at_step [OF st4 assms(2)] t unfolding xsdt_at_def by blast
  then obtain s5 where s5: "on_terminal (print (bytes_at (mem (ac_vm s4)) ?t)) s4 = Some (Inr s5)"
    "acpi_step H W 0 s4 s5" "ac_apic s5 = ac_apic s4"
    using on_terminal_step [OF acpi_step_inv [OF st4] signature_prints] by blast
  note st5 = acpi_step_trans [OF st4 s5(2), simplified]
  have x5: "xsdt_at (mem (ac_vm s5)) (scratch H W s5) xsdt ts madt rs" by (rule xsdt_at_step [OF st5 assms(2)])
  show ?thesis
  proof (cases "i = length ts")
    case True
    then have "?t = madt" and m: "madt_at (mem (ac_vm s5)) (scratch H W s5) madt rs" using x5 by (simp_all add: xsdt_at_def)
    moreover obtain s6 where "parse_madt True madt s5 = Some (Inr s6)" "acpi_step H W 0 s5 s6"
      "ac_apic s6 = controllers (mem (ac_vm s5)) madt rs (ac_apic s5)"
      using parse_madt_walk [OF acpi_step_inv [OF st5] m] by blast
    moreover have "controllers (mem (ac_vm s5)) madt rs = controllers (mem (ac_vm s)) madt rs"
      using assms(2) by (intro madt_at_step(2) [OF st5]) (simp add: xsdt_at_def)
    ultimately show ?thesis
      using True e4 acpi_step_trans [OF st5, of 0] a4 s5 by (simp add: madt_at_def)
  next
    case False
    then have "\<not> has_signature ''APIC'' (mem (ac_vm s5)) ?t"
      using x5 assms(3) by (simp add: xsdt_at_def nth_append)
    then show ?thesis using False e4 st5 a4 s5 by simp
  qed
qed

lemma xsdt_loop_walk:
  assumes "acpi_inv H W s" and "xsdt_at (mem (ac_vm s)) (scratch H W s) xsdt ts madt rs" and "i \<le> length ts"
    and "3 * (length ts - i + 1) \<le> free_count (phys (ac_vm s))" and "length ts < n"
  shows "\<exists>s'. xsdt_loop xsdt n i s = Some (Inr s') \<and> acpi_step H W (3 * (length ts - i + 1)) s s' \<and>
    ac_apic s' = controllers (mem (ac_vm s)) madt rs (ac_apic s)"
  using assms
proof (induction "length ts - i" arbitrary: i s)
  case 0
  then have "i = length ts" by simp
  then show ?case
    using xsdt_entry_walk [OF 0(2-4)] 0(5,6) by (subst xsdt_loop.simps) auto
next
  case (Suc k)
  then have i: "i < length ts" by simp
  obtain s1 where s1: "xsdt_entry xsdt i s = Some (Inr (False, s1))" "acpi_step H W 3 s s1" "ac_apic s1 = ac_apic s"
    using xsdt_entry_walk [OF Suc.prems(1-3)] Suc.prems(4) i by auto
  have k: "k = length ts - Suc i" and d: "length ts - i = Suc (length ts - Suc i)" using Suc.hyps(2) i by simp_all
  then have "3 * (length ts - Suc i + 1) \<le> free_count (phys (ac_vm s1))"
    using acpi_step_frames [OF s1(2), of "3 * (length ts - Suc i + 1)"] Suc.prems(4) by simp
  then obtain s' where s': "xsdt_loop xsdt n (Suc i) s1 = Some (Inr s')"
    "acpi_step H W (3 * (length ts - Suc i + 1)) s1 s'" "ac_apic s' = controllers (mem (ac_vm s1)) madt rs (ac_apic s1)"
    using Suc.hyps(1) [OF k acpi_step_inv [OF s1(2)] xsdt_at_step [OF s1(2) Suc.prems(2)]] i Suc.prems(5) by auto
  have "controllers (mem (ac_vm s1)) madt rs = controllers (mem (ac_vm s)) madt rs"
    using Suc.prems(2) by (intro madt_at_step(2) [OF s1(2)]) (simp add: xsdt_at_def)
  moreover have "xsdt_loop xsdt n i s = Some (Inr s')"
    using s1(1) s'(1) i Suc.prems(5) by (subst xsdt_loop.simps) simp
  ultimately show ?case
    using acpi_step_trans [OF s1(2) s'(2)] s'(3) s1(3) d by (simp add: add.commute)
qed

lemma parse_xsdt_start:
  assumes "acpi_inv H W s"
  shows "\<exists>s1. acpi_step H W 0 s s1 \<and> ac_apic s1 = ac_apic s \<and>
    parse_xsdt xsdt s = xsdt_loop xsdt (unat (xsdt_entry_count (mem (ac_vm s1)) xsdt)) 0 s1"
  using say_step [OF assms acpi_texts(7)] say_step [OF assms acpi_texts(8)]
  by (cases "verify_checksum (mem (ac_vm s)) xsdt (ucast (sdt_length (mem (ac_vm s)) xsdt)) = 0")
    (auto simp: parse_xsdt_def)

lemma parse_xsdt_walk:
  assumes "acpi_inv H W s" and "xsdt_at (mem (ac_vm s)) (scratch H W s) xsdt ts madt rs" and "3 * (length ts + 1) \<le> free_count (phys (ac_vm s))"
  shows "\<exists>s'. parse_xsdt xsdt s = Some (Inr s') \<and> acpi_step H W (3 * (length ts + 1)) s s' \<and>
    ac_apic s' = controllers (mem (ac_vm s)) madt rs (ac_apic s)"
proof -
  obtain s1 where s1: "acpi_step H W 0 s s1" "ac_apic s1 = ac_apic s"
    "parse_xsdt xsdt s = xsdt_loop xsdt (unat (xsdt_entry_count (mem (ac_vm s1)) xsdt)) 0 s1"
    using parse_xsdt_start [OF assms(1)] by blast
  note x1 = xsdt_at_step [OF s1(1) assms(2)]
  have "3 * (length ts - 0 + 1) \<le> free_count (phys (ac_vm s1))" "length ts < unat (xsdt_entry_count (mem (ac_vm s1)) xsdt)"
    using acpi_step_frames [OF s1(1)] assms(3) x1 by (simp_all add: xsdt_at_def)
  then obtain s' where s': "xsdt_loop xsdt (unat (xsdt_entry_count (mem (ac_vm s1)) xsdt)) 0 s1 = Some (Inr s')"
    "acpi_step H W (3 * (length ts + 1)) s1 s'" "ac_apic s' = controllers (mem (ac_vm s1)) madt rs (ac_apic s1)"
    using xsdt_loop_walk [OF acpi_step_inv [OF s1(1)] x1, of 0] by auto
  have "controllers (mem (ac_vm s1)) madt rs = controllers (mem (ac_vm s)) madt rs"
    using assms(2) by (intro madt_at_step(2) [OF s1(1)]) (simp add: xsdt_at_def)
  then show ?thesis using s' s1 acpi_step_trans [OF s1(1) s'(2)] by simp
qed

section \<open>From the root pointer to the controllers\<close>

text \<open>
  The tables of either version as the firmware leaves them, with frames for the pages mapped on
  the way: \<open>ts\<close> are the tables looked at before the MADT, \<open>rs\<close> its records. The XSDT holds the
  tables at the places the walk looks at, one entry late.
\<close>

definition acpi_tables :: "memory \<Rightarrow> (u64 \<Rightarrow> bool) \<Rightarrow> u64 list \<Rightarrow> u64 \<Rightarrow> u64 list \<Rightarrow> bool" where
  "acpi_tables m C ts madt rs \<longleftrightarrow>
     (let xsdp = find_xsdp m in xsdp \<noteq> 0 \<and> clear_of C REGION_START 0x20000 \<and> clear_of C xsdp 36 \<and>
     (if xsdp_revision m xsdp \<ge> 2 \<and> xsdp_xsdt m xsdp \<noteq> 0 then xsdt_at m C (xsdp_xsdt m xsdp) ts madt rs
      else rsdt_at m C (ucast (xsdp_rsdt m xsdp)) ts madt rs))"

lemma xsdp_step:
  assumes "acpi_step H W n s s'" and "clear_of (scratch H W s) xsdp 36"
  shows "xsdp_rsdt (mem (ac_vm s')) xsdp = xsdp_rsdt (mem (ac_vm s)) xsdp"
    and "xsdp_xsdt (mem (ac_vm s')) xsdp = xsdp_xsdt (mem (ac_vm s)) xsdp"
  using agree_load32 [OF acpi_step_agree [OF assms], of 16] agree_load64 [OF acpi_step_agree [OF assms], of 24]
  by (simp_all add: xsdp_rsdt_def xsdp_xsdt_def)

lemma parse_acpi_xsdt:
  assumes "acpi_inv H W s" and "find_xsdp (mem (ac_vm s)) = xsdp" and "xsdp \<noteq> 0" and "clear_of (scratch H W s) xsdp 36"
    and "xsdp_revision (mem (ac_vm s)) xsdp \<ge> 2" and "xsdp_xsdt (mem (ac_vm s)) xsdp = xsdt" and "xsdt \<noteq> 0"
    and "xsdt_at (mem (ac_vm s)) (scratch H W s) xsdt ts madt rs" and "3 * (length ts + 2) \<le> free_count (phys (ac_vm s))"
  shows "\<exists>s'. parse_acpi s = Some (Inr (Parsed s')) \<and> acpi_step H W (3 * (length ts + 2)) s s' \<and>
    ac_apic s' = controllers (mem (ac_vm s)) madt rs (ac_apic s)"
proof -
  obtain s1 where s1: "say (''acpi version 2'' @ [CHR 0x0A]) s = Some (Inr s1)" "acpi_step H W 0 s s1" "ac_apic s1 = ac_apic s"
    using say_step [OF assms(1) acpi_texts(9)] by auto
  have "3 \<le> free_count (phys (ac_vm s1))" using acpi_step_frames [OF s1(2)] assms(9) by simp
  then obtain v where v: "map_page (ac_vm s1) xsdt xsdt = Inr v" "acpi_step H W 3 s1 (s1\<lparr>ac_vm := v\<rparr>)"
    using map_step [OF acpi_step_inv [OF s1(2)]] by blast
  obtain s3 where s3: "say (''Mapped xsdt'' @ [CHR 0x0A]) (s1\<lparr>ac_vm := v\<rparr>) = Some (Inr s3)"
    "acpi_step H W 0 (s1\<lparr>ac_vm := v\<rparr>) s3" "ac_apic s3 = ac_apic s1"
    using say_step [OF acpi_step_inv [OF v(2)] acpi_texts(11)] by auto
  note st = acpi_step_trans [OF acpi_step_trans [OF s1(2) v(2)] s3(2), simplified]
  have "3 * (length ts + 1) \<le> free_count (phys (ac_vm s3))" using acpi_step_frames [OF st] assms(9) by simp
  then obtain s' where s': "parse_xsdt xsdt s3 = Some (Inr s')" "acpi_step H W (3 * (length ts + 1)) s3 s'"
    "ac_apic s' = controllers (mem (ac_vm s3)) madt rs (ac_apic s3)"
    using parse_xsdt_walk [OF acpi_step_inv [OF st] xsdt_at_step [OF st assms(8)]] by blast
  have "controllers (mem (ac_vm s3)) madt rs = controllers (mem (ac_vm s)) madt rs"
    using assms(8) by (intro madt_at_step(2) [OF st]) (simp add: xsdt_at_def)
  moreover have "xsdp_xsdt (mem (ac_vm s1)) xsdp = xsdt" "xsdp_xsdt (mem (ac_vm s3)) xsdp = xsdt"
    using xsdp_step(2) [OF s1(2) assms(4)] xsdp_step(2) [OF st assms(4)] assms(6) by simp_all
  ultimately show ?thesis
    using assms(2,3,5-7) s1 v(1) s3 s' acpi_step_mono [OF acpi_step_trans [OF st s'(2)]]
    by (simp add: parse_acpi_def Let_def)
qed

lemma parse_acpi_rsdt:
  assumes "acpi_inv H W s" and "find_xsdp (mem (ac_vm s)) = xsdp" and "xsdp \<noteq> 0" and "clear_of (scratch H W s) xsdp 36"
    and "\<not> (xsdp_revision (mem (ac_vm s)) xsdp \<ge> 2 \<and> xsdp_xsdt (mem (ac_vm s)) xsdp \<noteq> 0)"
    and "ucast (xsdp_rsdt (mem (ac_vm s)) xsdp) = rsdt"
    and "rsdt_at (mem (ac_vm s)) (scratch H W s) rsdt ts madt rs" and "3 \<le> free_count (phys (ac_vm s))"
  shows "\<exists>s'. parse_acpi s = Some (Inr (Parsed s')) \<and> acpi_step H W 3 s s' \<and>
    ac_apic s' = controllers (mem (ac_vm s)) madt rs (ac_apic s)"
proof -
  obtain s1 where s1: "say (''acpi version 1'' @ [CHR 0x0A]) s = Some (Inr s1)" "acpi_step H W 0 s s1" "ac_apic s1 = ac_apic s"
    using say_step [OF assms(1) acpi_texts(10)] by auto
  have "3 \<le> free_count (phys (ac_vm s1))" using acpi_step_frames [OF s1(2)] assms(8) by simp
  then obtain v where v: "map_page (ac_vm s1) rsdt rsdt = Inr v" "acpi_step H W 3 s1 (s1\<lparr>ac_vm := v\<rparr>)"
    using map_step [OF acpi_step_inv [OF s1(2)]] by blast
  note st = acpi_step_trans [OF s1(2) v(2), simplified]
  obtain s' where s': "parse_rsdt rsdt (s1\<lparr>ac_vm := v\<rparr>) = Some (Inr s')" "acpi_step H W 0 (s1\<lparr>ac_vm := v\<rparr>) s'"
    "ac_apic s' = controllers (mem v) madt rs (ac_apic s1)"
    using parse_rsdt_walk [OF acpi_step_inv [OF st] rsdt_at_step [OF st assms(7)]] by auto
  have "controllers (mem v) madt rs = controllers (mem (ac_vm s)) madt rs"
    using assms(7) madt_at_step(2) [OF st] by (simp add: rsdt_at_def)
  moreover have "ucast (xsdp_rsdt (mem (ac_vm s1)) xsdp) = rsdt" "ucast (xsdp_rsdt (mem v) xsdp) = rsdt"
    using xsdp_step(1) [OF s1(2) assms(4)] xsdp_step(1) [OF st assms(4)] assms(6) by simp_all
  ultimately show ?thesis
    using assms(2,3,5) s1 v(1) s' acpi_step_trans [OF st s'(2)]
    by (auto simp: parse_acpi_def Let_def)
qed

lemma parse_acpi_walk:
  assumes "acpi_inv H W s" and "acpi_tables (mem (ac_vm s)) (scratch H W s) ts madt rs"
    and "3 * (length ts + 2) \<le> free_count (phys (ac_vm s))"
  shows "\<exists>s'. parse_acpi s = Some (Inr (Parsed s')) \<and> acpi_step H W (3 * (length ts + 2)) s s' \<and>
    ac_apic s' = controllers (mem (ac_vm s)) madt rs (ac_apic s)"
proof -
  define xsdp where "xsdp = find_xsdp (mem (ac_vm s))"
  have x: "find_xsdp (mem (ac_vm s)) = xsdp" "xsdp \<noteq> 0" "clear_of (scratch H W s) xsdp 36"
    using assms(2) by (simp_all add: acpi_tables_def Let_def xsdp_def)
  show ?thesis
  proof (cases "xsdp_revision (mem (ac_vm s)) xsdp \<ge> 2 \<and> xsdp_xsdt (mem (ac_vm s)) xsdp \<noteq> 0")
    case True
    then have "xsdt_at (mem (ac_vm s)) (scratch H W s) (xsdp_xsdt (mem (ac_vm s)) xsdp) ts madt rs"
      using assms(2) by (simp add: acpi_tables_def Let_def x(1))
    with True show ?thesis using parse_acpi_xsdt [OF assms(1) x _ refl] assms(3) by blast
  next
    case False
    then have "rsdt_at (mem (ac_vm s)) (scratch H W s) (ucast (xsdp_rsdt (mem (ac_vm s)) xsdp)) ts madt rs"
      using assms(2) by (auto simp: acpi_tables_def Let_def x(1) split: if_splits)
    then have "\<exists>s'. parse_acpi s = Some (Inr (Parsed s')) \<and> acpi_step H W 3 s s' \<and>
        ac_apic s' = controllers (mem (ac_vm s)) madt rs (ac_apic s)"
      using parse_acpi_rsdt [OF assms(1) x False refl] assms(3) by simp
    then show ?thesis using acpi_step_mono [of H W 3] by fastforce
  qed
qed

text \<open>The tables stay what they are when other memory changes.\<close>

lemma find_xsdp_same:
  assumes "same_outside C m m'" and "clear_of C REGION_START 0x20000"
  shows "find_xsdp m' = find_xsdp m"
proof -
  note agree = same_outside_agree [OF assms]
  have "has_signature ''RSD PTR '' m' (xsdp_slot k) = has_signature ''RSD PTR '' m (xsdp_slot k)" if "k < 8192" for k
  proof -
    have "m' (xsdp_slot k + of_nat i) = m (xsdp_slot k + of_nat i)" if "i < 8" for i
      using agree_byte [OF agree, of "16 * k + i"] that \<open>k < 8192\<close> by (simp add: xsdp_slot_def add.assoc)
    then show ?thesis by (simp add: has_signature_iff)
  qed
  then have "find (\<lambda>k. has_signature ''RSD PTR '' m' (xsdp_slot k)) [0..<8192] =
      find (\<lambda>k. has_signature ''RSD PTR '' m (xsdp_slot k)) [0..<8192]"
    by (intro find_cong) auto
  moreover have "find_xsdp m = find_xsdp_loop m (xsdp_slot 0)" for m
    by (simp add: find_xsdp_def xsdp_slot_def)
  ultimately show ?thesis using find_xsdp_loop_eq [of 0 m] find_xsdp_loop_eq [of 0 m'] by simp
qed

lemma acpi_tables_same:
  assumes "same_outside C m m'" and "acpi_tables m C ts madt rs"
  shows "acpi_tables m' C ts madt rs" and "controllers m' madt rs = controllers m madt rs"
proof -
  let ?x = "find_xsdp m"
  have c: "clear_of C REGION_START 0x20000" "clear_of C ?x 36"
    using assms(2) by (simp_all add: acpi_tables_def Let_def)
  have x: "find_xsdp m' = ?x" by (rule find_xsdp_same [OF assms(1) c(1)])
  note a = same_outside_agree [OF assms(1) c(2)]
  have "xsdp_revision m' ?x = xsdp_revision m ?x" "xsdp_rsdt m' ?x = xsdp_rsdt m ?x" "xsdp_xsdt m' ?x = xsdp_xsdt m ?x"
    using agree_byte [OF a, of 15] agree_load32 [OF a, of 16] agree_load64 [OF a, of 24]
    by (simp_all add: xsdp_revision_def xsdp_rsdt_def xsdp_xsdt_def)
  then show "acpi_tables m' C ts madt rs"
    using assms rsdt_at_same xsdt_at_same by (auto simp: acpi_tables_def Let_def x)
  have "madt_at m C madt rs"
    using assms(2) by (auto simp: acpi_tables_def rsdt_at_def xsdt_at_def Let_def split: if_splits)
  then show "controllers m' madt rs = controllers m madt rs" by (rule madt_at_same(2) [OF assms(1)])
qed

lemma acpi_tables_mono:
  assumes "acpi_tables m C ts madt rs" and "\<And>x. D x \<Longrightarrow> C x"
  shows "acpi_tables m D ts madt rs"
proof -
  have c: "clear_of C a n \<Longrightarrow> clear_of D a n" for a n using clear_of_mono assms(2) by blast
  have m: "madt_at m C madt rs \<Longrightarrow> madt_at m D madt rs" by (simp add: madt_at_def c)
  have "rsdt_at m C a ts madt rs \<Longrightarrow> rsdt_at m D a ts madt rs" for a by (simp add: rsdt_at_def c m)
  moreover have "xsdt_at m C a ts madt rs \<Longrightarrow> xsdt_at m D a ts madt rs" for a by (simp add: xsdt_at_def c m)
  ultimately show ?thesis using assms(1) by (auto simp: acpi_tables_def Let_def c)
qed

section \<open>Properties\<close>

text \<open>C5 parse_acpi_finds_controllers. When the root pointer is found and leads to a well-formed MADT
  outside the framebuffer and the frame pool, through the XSDT or, in version 1, the RSDT,
  parsing returns with the local controller's address of the MADT's header and the I/O
  controller's of its last record of type 1. Page tables and terminal stay in order, every page
  mapped before keeps its mapping, and only framebuffer and pool change.\<close>
theorem parse_acpi_finds_controllers:
  assumes "acpi_inv H W s" and "acpi_tables (mem (ac_vm s)) (scratch H W s) ts madt rs"
    and "3 * (length ts + 2) \<le> free_count (phys (ac_vm s))"
  shows "\<exists>s'. parse_acpi s = Some (Inr (Parsed s')) \<and>
    local_apic (get_apic s') = ucast (madt_address (mem (ac_vm s)) madt) \<and>
    io_apic (get_apic s') = last_io_apic (mem (ac_vm s)) rs (io_apic (ac_apic s)) \<and> acpi_inv H W s' \<and>
    (\<forall>va. mapping (ac_vm s) va \<noteq> None \<longrightarrow> mapping (ac_vm s') va = mapping (ac_vm s) va) \<and>
    (\<forall>x. \<not> scratch H W s x \<longrightarrow> mem (ac_vm s') x = mem (ac_vm s) x)"
  using parse_acpi_walk [OF assms] by (auto simp: acpi_step_def controllers_def get_apic_def same_outside_def)

text \<open>Version 1 tables over \<open>sample_vm\<close>: the root pointer at 0xE0000 names an RSDT at 0x3000, whose
  first entry is a MADT at 0x1000 with one local controller record and one for the I/O controller.\<close>

definition sample_madt :: memory where
  "sample_madt a = (if a = 0x1000 then 0x41 else if a = 0x1001 then 0x50 else if a = 0x1002 then 0x49
     else if a = 0x1003 then 0x43 else if a = 0x1004 then 64 else if a = 0x1026 then 0xE0
     else if a = 0x1027 then 0xFE else if a = 0x102D then 8 else if a = 0x1034 then 1
     else if a = 0x1035 then 12 else if a = 0x103A then 0xC0 else if a = 0x103B then 0xFE else 0)"

definition sample_tables :: memory where
  "sample_tables a = (if a = 0x3025 then 0x10
     else if a = 0xE0000 then 0x52 else if a = 0xE0001 then 0x53 else if a = 0xE0002 then 0x44
     else if a = 0xE0003 then 0x20 else if a = 0xE0004 then 0x50 else if a = 0xE0005 then 0x54
     else if a = 0xE0006 then 0x52 else if a = 0xE0007 then 0x20 else if a = 0xE0011 then 0x30
     else sample_madt a)"

definition sample_console :: console where
  "sample_console = (case init_text_terminal font_memory 0x5000 sample_info blank_console of Inr t \<Rightarrow> t | Inl _ \<Rightarrow> blank_console)"

lemma sample_console_facts:
  "shows_text 48 128 [[]] sample_console" "device_fits 48 128 sample_console" "vesa_info sample_console = sample_info"
proof -
  obtain t where t: "init_text_terminal font_memory 0x5000 sample_info blank_console = Inr t"
    "unat (term_height (terminal t)) = 48" "unat (term_width (terminal t)) = 128"
    "psf_height (psf_header t) = 16" "psf_width (psf_header t) = 8" "vesa_info t = sample_info"
    using sample_init by blast
  have c: "sample_console = t" by (simp add: sample_console_def t(1))
  show "shows_text 48 128 [[]] sample_console" using init_shows [OF t(1-3)] c by simp
  show "device_fits 48 128 sample_console"
    using t by (simp add: c device_fits_def frame_fits_def extent_def pixel_bytes_def sample_info_def)
  show "vesa_info sample_console = sample_info" using t c by simp
qed

definition acpi_start :: "memory \<Rightarrow> acpi_state" where
  "acpi_start m = \<lparr>ac_apic = \<lparr>local_apic = 0, io_apic = 0\<rparr>, ac_vm = sample_vm\<lparr>mem := m\<rparr>, ac_con = sample_console\<rparr>"

lemma acpi_start_simps [simp]:
  "mem (ac_vm (acpi_start m)) = m" "phys (ac_vm (acpi_start m)) = phys sample_vm"
  "ac_apic (acpi_start m) = \<lparr>local_apic = 0, io_apic = 0\<rparr>"
  by (simp_all add: acpi_start_def)

lemma acpi_start_scratch: "scratch 48 128 (acpi_start m) x \<Longrightarrow> 0x200000 \<le> unat x"
  by (auto simp: scratch_def acpi_start_def sample_console_facts in_frame_def sample_info_def pool_range_def
      sample_vm_def sample_pmm_def)

lemma acpi_start_inv:
  assumes "\<And>x. 0x200000 \<le> unat x \<Longrightarrow> m x = 0"
  shows "acpi_inv 48 128 (acpi_start m)"
proof -
  have "m x = mem sample_vm x" if "pool_range (phys sample_vm) x" for x
    using that by (subst assms) (auto simp: pool_range_def sample_vm_def sample_pmm_def)
  from vm_inv_memory(1) [OF sample_vm_facts(1) this]
  have "vm_inv (ac_vm (acpi_start m))" by (simp add: acpi_start_def)
  then show ?thesis
    using sample_console_facts
    by (auto simp: acpi_inv_def acpi_start_def in_frame_def sample_info_def pool_range_def sample_vm_def sample_pmm_def)
qed

lemma acpi_start_clear: "unat a + n \<le> 0x200000 \<Longrightarrow> clear_of (scratch 48 128 (acpi_start m)) a n"
  unfolding clear_of_def
proof (intro allI impI notI)
  fix x assume "unat a + n \<le> 0x200000" "in_range x a n" "scratch 48 128 (acpi_start m) x"
  then show False using acpi_start_scratch [of m x] in_range_iff [of a n x] by simp
qed

lemma all_less_8: "(\<forall>i<8. P i) \<longleftrightarrow> P 0 \<and> P 1 \<and> P 2 \<and> P 3 \<and> P 4 \<and> P 5 \<and> P 6 \<and> P (7 :: nat)"
  and all_less_4: "(\<forall>i<4. P i) \<longleftrightarrow> P 0 \<and> P 1 \<and> P 2 \<and> P (3 :: nat)"
  by (simp_all add: eval_nat_numeral All_less_Suc conj_ac)

lemma sample_signatures:
  "has_signature ''RSD PTR '' sample_tables 0xE0000" "has_signature ''APIC'' sample_tables 0x1000"
proof -
  have "\<forall>i<8. sample_tables (0xE0000 + of_nat i) = chars ''RSD PTR '' ! i"
    unfolding all_less_8 by (simp add: sample_tables_def chars_def)
  then show "has_signature ''RSD PTR '' sample_tables 0xE0000" by (subst has_signature_iff) simp_all
  have "\<forall>i<4. sample_tables (0x1000 + of_nat i) = chars ''APIC'' ! i"
    unfolding all_less_4 by (simp add: sample_tables_def sample_madt_def chars_def)
  then show "has_signature ''APIC'' sample_tables 0x1000" by (subst has_signature_iff) simp_all
qed

lemma sample_tables_inv: "acpi_inv 48 128 (acpi_start sample_tables)"
proof (rule acpi_start_inv)
  fix x :: u64 assume "0x200000 \<le> unat x"
  then have "\<And>k. unat k < 0x200000 \<Longrightarrow> x \<noteq> k" by auto
  then show "sample_tables x = 0" by (simp add: sample_tables_def sample_madt_def)
qed

lemma sample_xsdp: "find_xsdp sample_tables = 0xE0000"
  using sample_signatures(1) unfolding find_xsdp_def
  by (subst find_xsdp_loop.simps) (simp add: REGION_START_def REGION_END_def)

lemma sample_acpi_tables:
  assumes C: "\<And>x. C x \<Longrightarrow> 0x4000 \<le> unat x \<and> \<not> (0xE0000 \<le> unat x \<and> unat x < 0x100000)"
  shows "acpi_tables sample_tables C [] 0x1000 [0x102C, 0x1034]"
proof -
  have low: "clear_of C a n" if "unat a + n \<le> 0x4000" for a n
    using C that in_range_iff [of a n] by (fastforce simp: clear_of_def)
  have firmware: "clear_of C a n" if "0xE0000 \<le> unat a" "unat a + n \<le> 0x100000" for a n
    using C that in_range_iff [of a n] by (fastforce simp: clear_of_def)
  have "xsdp_revision sample_tables 0xE0000 = 0" "xsdp_rsdt sample_tables 0xE0000 = 0x3000"
    "rsdt_address sample_tables 0x3000 0 = 0x1000" "sdt_length sample_tables 0x1000 = 64"
    "sample_tables 0x102D = 8" "sample_tables 0x1035 = 12"
    by (simp_all add: xsdp_revision_def xsdp_rsdt_def rsdt_address_def sdt_length_def load32_def mem_eval
        sample_tables_def sample_madt_def)
  then show ?thesis
    using sample_signatures(2)
    by (simp add: acpi_tables_def sample_xsdp rsdt_at_def madt_at_def MADT_RECORDS_def record_length_def
        low firmware REGION_START_def)
qed

lemma sample_acpi_start:
  "acpi_tables sample_tables (scratch 48 128 (acpi_start sample_tables)) [] 0x1000 [0x102C, 0x1034]"
  using acpi_start_scratch by (intro sample_acpi_tables) fastforce

theorem parse_acpi_finds_controllers_witness:
  "\<exists>s'. parse_acpi (acpi_start sample_tables) = Some (Inr (Parsed s')) \<and>
     local_apic (get_apic s') = 0xFEE00000 \<and> io_apic (get_apic s') = 0xFEC00000"
proof -
  have "madt_address sample_tables 0x1000 = 0xFEE00000" "io_apic_address sample_tables 0x1034 = 0xFEC00000"
    "record_type sample_tables 0x102C = 0" "record_type sample_tables 0x1034 = 1"
    by (simp_all add: madt_address_def io_apic_address_def record_type_def load32_def mem_eval sample_tables_def sample_madt_def)
  then show ?thesis
    using parse_acpi_finds_controllers [OF sample_tables_inv, of "[]" "0x1000" "[0x102C, 0x1034]"] sample_acpi_start
    by (auto simp: last_io_apic_def sample_vm_facts)
qed

lemma madt_loop_stuck:
  assumes "r < e" and "acpi_inv H W s" and "clear_of (scratch H W s) r 8" and "record_length (mem (ac_vm s)) r = 0"
  shows "madt_loop announce r e s = None"
proof -
  let ?P = "\<lambda>r e s. r < e \<and> acpi_inv H W s \<and> clear_of (scratch H W s) r 8 \<and> record_length (mem (ac_vm s)) r = 0"
  have "\<not> ?P r e s" if "madt_loop announce r e s = Some q" for q
  proof (rule madt_loop.raw_induct [where P = "\<lambda>announce r e s q. \<not> ?P r e s", OF _ that])
    fix f and announce :: bool and r e :: u64 and s :: acpi_state and q :: "acpi_state res"
    assume IH: "\<And>announce r e s q. f announce r e s = Some q \<Longrightarrow> \<not> ?P r e s"
      and eq: "(if r < e then (case madt_record announce r s of None \<Rightarrow> None | Some (Inl e) \<Rightarrow> Some (Inl e)
          | Some (Inr s) \<Rightarrow> f announce (r + ucast (record_length (mem (ac_vm s)) r)) e s) else Some (Inr s)) = Some q"
    show "\<not> ?P r e s"
    proof
      assume p: "?P r e s"
      then obtain s1 where s1: "madt_record announce r s = Some (Inr s1)" "acpi_step H W 0 s s1"
        using madt_record_step [of H W s r announce] by blast
      have len: "record_length (mem (ac_vm s1)) r = 0"
        using agree_record(2) [OF acpi_step_agree [OF s1(2)]] p by simp
      then have "f announce r e s1 = Some q" using eq p s1(1) by simp
      then have "\<not> ?P r e s1" by (rule IH)
      then show False using p len acpi_step_inv [OF s1(2)] acpi_step_same [OF s1(2)] by simp
    qed
  qed
  then show ?thesis using assms by (cases "madt_loop announce r e s") auto
qed

text \<open>C38 madt_zero_length_hangs. A first record of length zero stops the walk over the MADT for ever,
  whatever its type.\<close>
theorem madt_zero_length_hangs:
  assumes "acpi_inv H W s" and "madt + MADT_RECORDS < madt + ucast (sdt_length (mem (ac_vm s)) madt)"
    and "record_length (mem (ac_vm s)) (madt + MADT_RECORDS) = 0" and "clear_of (scratch H W s) (madt + MADT_RECORDS) 8"
  shows "parse_madt announce madt s = None"
  unfolding parse_madt_def
  using assms by (intro madt_loop_stuck [of _ _ H W]) (simp_all add: acpi_step_apic)

lemma sample_tables_hang:
  "acpi_inv 48 128 (acpi_start (sample_tables(0x102D := 0)))"
proof (rule acpi_start_inv)
  fix x :: u64 assume "0x200000 \<le> unat x"
  then have "\<And>k. unat k < 0x200000 \<Longrightarrow> x \<noteq> k" by auto
  then show "(sample_tables(0x102D := 0)) x = 0" by (simp add: sample_tables_def sample_madt_def)
qed

theorem madt_zero_length_hangs_witness:
  "parse_madt True 0x1000 (acpi_start (sample_tables(0x102D := 0))) = None"
proof -
  have "sdt_length (sample_tables(0x102D := 0)) 0x1000 = 64"
    by (simp add: sdt_length_def load32_def mem_eval sample_tables_def sample_madt_def)
  then show ?thesis
    by (intro madt_zero_length_hangs [OF sample_tables_hang])
      (simp_all add: MADT_RECORDS_def record_length_def acpi_start_clear)
qed

text \<open>C36 xsdt_long_table_faults. The XSDT walk prints the signature of a table as a string and so
  prints the length behind it: a first table whose length has a low byte outside ASCII, such as
  0xF4, the length of an ACPI 2 FADT, makes the terminal index its glyphs out of bounds.\<close>
theorem xsdt_long_table_faults:
  assumes "acpi_inv H W s" and "3 \<le> free_count (phys (ac_vm s))"
    and "0 < xsdt_entry_count (mem (ac_vm s)) xsdt" and "clear_of (scratch H W s) xsdt 48"
    and "swap_upper_lower (xsdt_address (mem (ac_vm s)) xsdt 0) = table" and "clear_of (scratch H W s) table 256"
    and "map (\<lambda>i. mem (ac_vm s) (table + of_nat i)) [0..<n] = sig @ len # rest" and "mem (ac_vm s) (table + of_nat n) = 0"
    and "n < 256" and "text_ok sig" and "\<not> printable len" and "0 \<notin> set (len # rest)"
  shows "parse_xsdt xsdt s = Some (Inl Out_Of_Bounds)"
proof -
  let ?str = "sig @ len # rest"
  obtain s1 where s1: "acpi_step H W 0 s s1"
    "parse_xsdt xsdt s = xsdt_loop xsdt (unat (xsdt_entry_count (mem (ac_vm s1)) xsdt)) 0 s1"
    using parse_xsdt_start [OF assms(1)] by blast
  have x1: "clear_of (scratch H W s1) xsdt 48" "3 \<le> free_count (phys (ac_vm s1))"
    using acpi_step_same [OF s1(1)] acpi_step_frames [OF s1(1)] assms(2,4) by simp_all
  note agree = acpi_step_agree [OF s1(1) assms(4)]
  have cnt: "xsdt_entry_count (mem (ac_vm s1)) xsdt = xsdt_entry_count (mem (ac_vm s)) xsdt"
    and adr: "swap_upper_lower (xsdt_address (mem (ac_vm s1)) xsdt 0) = table"
    using agree_load32 [OF agree, of 4] agree_load64 [OF agree, of 40] assms(5)
    by (simp_all add: xsdt_entry_count_def sdt_length_def xsdt_address_def)
  obtain s4 where st: "acpi_step H W 3 s1 s4"
    and e: "xsdt_entry xsdt 0 s1 = oseq (on_terminal (print (bytes_at (mem (ac_vm s4)) table)) s4) (\<lambda>s.
      if has_signature ''APIC'' (mem (ac_vm s)) table then oseq (parse_madt True table s) (\<lambda>s. Some (Inr (True, s)))
      else Some (Inr (False, s)))"
    using xsdt_entry_start [OF acpi_step_inv [OF s1(1)] x1(2,1) _ _ adr] by auto
  note t4 = acpi_step_agree [OF acpi_step_trans [OF s1(1) st] assms(6)]
  have len: "length ?str = n" using arg_cong [OF assms(7), of length] by simp
  have "bytes_at (mem (ac_vm s4)) table i = ?str ! i" if "i < n" for i
    using agree_byte [OF t4, of i] that assms(9) arg_cong [OF assms(7), of "\<lambda>l. l ! i"] by (simp add: bytes_at_def)
  moreover have "bytes_at (mem (ac_vm s4)) table n = 0"
    using agree_byte [OF t4, of n] assms(8,9) by (simp add: bytes_at_def)
  ultimately have "print (bytes_at (mem (ac_vm s4)) table) = print (bytes_of ?str)"
    using len assms(9,10,12) by (intro print_reader [of n]) (auto simp: text_ok_def)
  moreover obtain hist where "shows_text H W hist ((ac_con s4)\<lparr>screen := mem (ac_vm s4)\<rparr>)"
    using acpi_step_inv [OF st] by (auto simp: acpi_inv_def shows_text_screen)
  ultimately have "xsdt_entry xsdt 0 s1 = Some (Inl Out_Of_Bounds)"
    using print_stops_at_unprintable [of H W hist _ sig len rest] assms(9-12) len e by (simp add: on_terminal_def)
  moreover have "0 < unat (xsdt_entry_count (mem (ac_vm s1)) xsdt)"
    using assms(3) unfolding cnt by (simp add: word_less_nat_alt)
  ultimately show ?thesis using s1(2) by (simp add: xsdt_loop.simps)
qed

text \<open>An XSDT at 0x4000 whose first table looked at is a FADT of 244 bytes at 0x5000.\<close>

definition fadt_tables :: memory where
  "fadt_tables a = (if a = 0x4004 then 44 else if a = 0x402D then 0x50
     else if a = 0x5000 then 0x46 else if a = 0x5001 then 0x41 else if a = 0x5002 then 0x43
     else if a = 0x5003 then 0x50 else if a = 0x5004 then 0xF4 else 0)"

theorem xsdt_long_table_faults_witness:
  "parse_xsdt 0x4000 (acpi_start fadt_tables) = Some (Inl Out_Of_Bounds)"
proof -
  have inv: "acpi_inv 48 128 (acpi_start fadt_tables)"
  proof (rule acpi_start_inv)
    fix x :: u64 assume "0x200000 \<le> unat x"
    then have "\<And>k. unat k < 0x200000 \<Longrightarrow> x \<noteq> k" by auto
    then show "fadt_tables x = 0" by (simp add: fadt_tables_def)
  qed
  have "sdt_length fadt_tables 0x4000 = 44" "xsdt_address fadt_tables 0x4000 0 = 0x500000000000"
    by (simp_all add: sdt_length_def xsdt_address_def load32_def load64_def mem_eval fadt_tables_def)
  then have x: "0 < xsdt_entry_count fadt_tables 0x4000" "swap_upper_lower (xsdt_address fadt_tables 0x4000 0) = 0x5000"
    by (simp_all add: xsdt_entry_count_def SDT_HEADER_SIZE_def swap_upper_lower_def)
  have up: "[0..<5] = [0, 1, 2, 3, 4 :: nat]" by (simp add: upt_rec)
  have "map (\<lambda>i. fadt_tables (0x5000 + of_nat i)) [0..<5] = [0x46, 0x41, 0x43, 0x50] @ 0xF4 # []"
    unfolding up by (simp add: fadt_tables_def)
  moreover have "fadt_tables (0x5000 + of_nat 5) = 0" by (simp add: fadt_tables_def)
  moreover have "text_ok [0x46, 0x41, 0x43, 0x50]" "\<not> printable 0xF4" "0 \<notin> set [0xF4 :: u8]"
    by (simp_all add: text_ok_def printable_def)
  ultimately show ?thesis
    using xsdt_long_table_faults [OF inv, of "0x4000" "0x5000" 5 "[0x46, 0x41, 0x43, 0x50]" "0xF4" "[]"] x
    by (simp add: acpi_start_clear sample_vm_facts)
qed

end
