(* ===== verification/TerminalScreen.thy ===== *)
theory TerminalScreen
  imports PrintStep
begin

text \<open>
  The pixels of the text terminal of \<open>kernel/utils/text_terminal.c\<close>: with a font of 8 by 16
  pixels in a mode of 32 bits per pixel, what the screen shows is at every moment the picture
  of the row buffer, although clearing a glyph clears one column and one row of pixels too
  many.
\<close>

section \<open>Cells\<close>

text \<open>Pixel \<open>i\<close> of line \<open>j\<close> of the cell in column \<open>c\<close> of text row \<open>r\<close>, \<open>S\<close> pixels a line.\<close>

definition px_cell :: "nat \<Rightarrow> nat \<Rightarrow> nat \<Rightarrow> nat \<Rightarrow> nat \<Rightarrow> nat" where
  "px_cell S r c j i = (16 * r + j) * S + (8 * c + i)"

lemma px_cell_inj:
  assumes "8 * c + i < S" and "8 * c' + i' < S" and "j < 16" "j' < 16" "i < 8" "i' < 8"
  shows "px_cell S r c j i = px_cell S r' c' j' i' \<longleftrightarrow> r = r' \<and> c = c' \<and> j = j' \<and> i = i'"
proof -
  have "px_cell S r c j i = px_cell S r' c' j' i' \<longleftrightarrow>
      16 * r + j = 16 * r' + j' \<and> 8 * c + i = 8 * c' + i'"
    unfolding px_cell_def using assms(1,2) by (rule px_index_inj)
  moreover have "16 * r + j = 16 * r' + j' \<longleftrightarrow> r = r' \<and> j = j'"
    using px_index_inj [OF assms(3,4), of r r'] by (simp add: mult.commute)
  moreover have "8 * c + i = 8 * c' + i' \<longleftrightarrow> c = c' \<and> i = i'"
    using px_index_inj [OF assms(5,6), of c c'] by (simp add: mult.commute)
  ultimately show ?thesis by blast
qed

lemma px_cell_less: "8 * c + i < S \<Longrightarrow> j < 16 \<Longrightarrow> r < y \<Longrightarrow> px_cell S r c j i < 16 * y * S"
proof -
  assume a: "8 * c + i < S" "j < 16" "r < y"
  then have "px_cell S r c j i < Suc (16 * r + j) * S" by (simp add: px_cell_def)
  also have "Suc (16 * r + j) \<le> 16 * y" using a by simp
  then have "Suc (16 * r + j) * S \<le> 16 * y * S" by (rule mult_le_mono1)
  finally show ?thesis .
qed

lemma px_cell_ge: "y \<le> r \<Longrightarrow> 16 * y * S \<le> px_cell S r c j i"
proof -
  assume "y \<le> r"
  then have "16 * y \<le> 16 * r + j" by simp
  then have "16 * y * S \<le> (16 * r + j) * S" by (rule mult_le_mono1)
  then show ?thesis unfolding px_cell_def by (rule trans_le_add1)
qed

text \<open>The device: an 8 by 16 font, 32 bits per pixel, lines long enough, all pixels addressable.\<close>

definition device_ok :: "nat \<Rightarrow> nat \<Rightarrow> nat \<Rightarrow> console \<Rightarrow> bool" where
  "device_ok H W S t \<longleftrightarrow> psf_width (psf_header t) = 8 \<and> psf_height (psf_header t) = 16 \<and>
     mode32 (vesa_info t) S \<and> 8 * W \<le> S \<and> px_valid (vesa_info t) (16 * H * S + 8 * W)"

definition color :: "console \<Rightarrow> u32" where
  "color t = term_color (terminal t)"

definition pix :: "console \<Rightarrow> nat \<Rightarrow> u32" where
  "pix t k = px (vesa_info t) (screen t) k"

lemma cell_valid:
  assumes "device_ok H W S t" and "r < H" "c < W" "j \<le> 16" "i \<le> 8"
  shows "px_valid (vesa_info t) (px_cell S r c j i)"
proof -
  have "(16 * r + j) * S \<le> 16 * H * S" using assms by (intro mult_le_mono1) simp
  moreover have "8 * c + i \<le> 8 * W" using assms by simp
  ultimately have "px_cell S r c j i \<le> 16 * H * S + 8 * W" unfolding px_cell_def by (rule add_mono)
  then show ?thesis using assms(1) px_valid_mono by (auto simp: device_ok_def)
qed

lemma same_device_ok: "same_device t t' \<Longrightarrow> device_ok H W S t' = device_ok H W S t"
  by (simp add: same_device_def device_ok_def)

section \<open>Drawing a glyph\<close>

lemma glyph_bit:
  "col < 8 \<Longrightarrow> (ucast (b :: u8) :: s32) AND push_bit (7 - col) 1 \<noteq> 0 \<longleftrightarrow> bit b (7 - col)"
  unfolding bit_iff_and_push_bit_not_eq_0 [symmetric] by (simp add: bit_ucast_iff less_imp_diff_less)

lemma fold_if_filter: "fold (\<lambda>x m. if P x then f x m else m) xs = fold f (filter P xs)"
  by (induction xs) (auto simp: fun_eq_iff)

definition glyph_pixels :: "nat \<Rightarrow> nat \<Rightarrow> nat \<Rightarrow> u8 list \<Rightarrow> nat list" where
  "glyph_pixels S r c g =
     concat (map (\<lambda>j. map (px_cell S r c j) (filter (\<lambda>i. bit (g ! j) (7 - i)) [0..<8])) [0..<16])"

lemma set_glyph_pixels:
  "k \<in> set (glyph_pixels S r c g) \<longleftrightarrow> (\<exists>j<16. \<exists>i<8. k = px_cell S r c j i \<and> bit (g ! j) (7 - i))"
  by (auto simp: glyph_pixels_def)

lemma render_glyph_fold:
  assumes "device_ok H W S t" and "r < H" "c < W"
  shows "screen (render_glyph g (of_nat c * 8) (of_nat r * 16) t) =
    fold (\<lambda>k. px_put (vesa_info t) k (color t)) (glyph_pixels S r c g) (screen t)"
proof -
  have row: "fold (\<lambda>col m. if (ucast (g ! j) :: s32) AND push_bit (7 - col) 1 \<noteq> 0
        then draw_pixel t (of_nat c * 8 + of_nat col) (of_nat r * 16 + of_nat j) m else m) [0..<8] m =
      fold (\<lambda>k. px_put (vesa_info t) k (color t))
        (map (px_cell S r c j) (filter (\<lambda>i. bit (g ! j) (7 - i)) [0..<8])) m" if j: "j < 16" for j m
  proof -
    have draw: "draw_pixel t (of_nat c * 8 + of_nat i) (of_nat r * 16 + of_nat j) =
        px_put (vesa_info t) (px_cell S r c j i) (color t)" if "i < 8" for i
    proof -
      have "px_valid (vesa_info t) ((16 * r + j) * S + (8 * c + i))"
        using cell_valid [OF assms, of j i] j that by (simp add: px_cell_def)
      from set_pixel_px(1) [OF _ this] assms(1)
      have "SET_PIXEL_COLOR (vesa_info t) (of_nat (8 * c + i)) (of_nat (16 * r + j)) (color t) =
          px_put (vesa_info t) ((16 * r + j) * S + (8 * c + i)) (color t)"
        by (simp only: device_ok_def)
      then show ?thesis by (simp add: draw_pixel_def color_def px_cell_def mult.commute)
    qed
    have "fold (\<lambda>col m. if (ucast (g ! j) :: s32) AND push_bit (7 - col) 1 \<noteq> 0
        then draw_pixel t (of_nat c * 8 + of_nat col) (of_nat r * 16 + of_nat j) m else m) [0..<8] m =
      fold (\<lambda>col m. if bit (g ! j) (7 - col)
        then px_put (vesa_info t) (px_cell S r c j col) (color t) m else m) [0..<8] m"
      by (rule fold_cong [OF refl refl], rule ext) (simp add: glyph_bit draw del: push_bit_of_1)
    then show ?thesis by (simp only: fold_if_filter fold_map comp_def)
  qed
  have "screen (render_glyph g (of_nat c * 8) (of_nat r * 16) t) =
      fold (\<lambda>j. fold (\<lambda>k. px_put (vesa_info t) k (color t))
        (map (px_cell S r c j) (filter (\<lambda>i. bit (g ! j) (7 - i)) [0..<8]))) [0..<16] (screen t)"
    unfolding render_glyph_def screen_update
    by (rule fold_cong [OF refl refl], rule ext) (simp add: row del: push_bit_of_1)
  then show ?thesis by (simp only: fold_concat_lists glyph_pixels_def)
qed

lemma pix_draw_char:
  assumes "device_ok H W S t" and "r < H" "c < W" and "px_valid (vesa_info t) k"
  shows "pix (draw_char ch (of_nat c) (of_nat r) t) k =
    (if \<exists>j<16. \<exists>i<8. k = px_cell S r c j i \<and> bit (glyphs t ! glyph_index ch ! j) (7 - i)
     then color t else pix t k)"
proof -
  let ?g = "glyphs t ! glyph_index ch"
  have "\<forall>k \<in> set (glyph_pixels S r c ?g). px_valid (vesa_info t) k"
    using cell_valid [OF assms(1-3)] by (auto simp: set_glyph_pixels)
  from pixels.cell_puts_const [OF this assms(4)]
  have "px (vesa_info t) (screen (render_glyph ?g (of_nat c * 8) (of_nat r * 16) t)) k =
      (if k \<in> set (glyph_pixels S r c ?g) then color t else px (vesa_info t) (screen t) k)"
    unfolding render_glyph_fold [OF assms(1-3)] .
  moreover have "vesa_info (draw_char ch (of_nat c) (of_nat r) t) = vesa_info t"
    using draw_char_rest(1) by (simp add: same_device_def)
  ultimately show ?thesis
    using assms(1) unfolding pix_def by (simp add: draw_char_def device_ok_def set_glyph_pixels)
qed

section \<open>Clearing\<close>

definition clear_pixels :: "nat \<Rightarrow> nat \<Rightarrow> nat \<Rightarrow> nat list" where
  "clear_pixels S r c = concat (map (\<lambda>j. map (px_cell S r c j) [0..<9]) [0..<17])"

lemma set_clear_pixels: "k \<in> set (clear_pixels S r c) \<longleftrightarrow> (\<exists>j<17. \<exists>i<9. k = px_cell S r c j i)"
proof -
  have "set (clear_pixels S r c) = (\<Union>j \<in> {..<17}. px_cell S r c j ` {..<9})"
    by (auto simp: clear_pixels_def atLeast0LessThan)
  then show ?thesis by auto
qed

lemma clear_glyph_fold:
  assumes "device_ok H W S t" and "r < H" "c < W"
  shows "screen (clear_glyph (of_nat c * 8) (of_nat r * 16) t) =
    fold (\<lambda>k. px_put (vesa_info t) k 0) (clear_pixels S r c) (screen t)"
proof -
  have clear: "CLEAR_PIXEL (vesa_info t) (of_nat c * 8 + of_nat i) (of_nat r * 16 + of_nat j) =
      px_put (vesa_info t) (px_cell S r c j i) 0" if "j < 17" "i < 9" for j i
  proof -
    have "px_valid (vesa_info t) ((16 * r + j) * S + (8 * c + i))"
      using cell_valid [OF assms, of j i] that by (simp add: px_cell_def)
    from set_pixel_px(2) [OF _ this] assms(1)
    have "CLEAR_PIXEL (vesa_info t) (of_nat (8 * c + i)) (of_nat (16 * r + j)) =
        px_put (vesa_info t) ((16 * r + j) * S + (8 * c + i)) 0"
      by (simp only: device_ok_def)
    then show ?thesis by (simp add: px_cell_def mult.commute)
  qed
  have "screen (clear_glyph (of_nat c * 8) (of_nat r * 16) t) =
      fold (\<lambda>j. fold (\<lambda>k. px_put (vesa_info t) k 0) (map (px_cell S r c j) [0..<9])) [0..<17] (screen t)"
    unfolding clear_glyph_def screen_update fold_map comp_def
    by (rule fold_cong [OF refl refl], rule ext, rule fold_cong [OF refl refl]) (simp add: clear)
  then show ?thesis by (simp only: fold_concat_lists clear_pixels_def)
qed

lemma pix_clear_glyph:
  assumes "device_ok H W S t" and "r < H" "c < W" and "px_valid (vesa_info t) k"
  shows "pix (clear_glyph (of_nat c * 8) (of_nat r * 16) t) k =
    (if \<exists>j<17. \<exists>i<9. k = px_cell S r c j i then 0 else pix t k)"
proof -
  have "\<forall>k \<in> set (clear_pixels S r c). px_valid (vesa_info t) k"
    using cell_valid [OF assms(1-3)] by (auto simp: set_clear_pixels)
  from pixels.cell_puts_const [OF this assms(4)]
  have "px (vesa_info t) (screen (clear_glyph (of_nat c * 8) (of_nat r * 16) t)) k =
      (if k \<in> set (clear_pixels S r c) then 0 else px (vesa_info t) (screen t) k)"
    unfolding clear_glyph_fold [OF assms(1-3)] .
  then show ?thesis unfolding pix_def by (simp add: set_clear_pixels clear_glyph_def)
qed

section \<open>The picture of the buffer\<close>

text \<open>Whether the cell shows the character of the row there, and whether it is blank.\<close>

definition cell_shows :: "nat \<Rightarrow> console \<Rightarrow> nat \<Rightarrow> nat \<Rightarrow> bool" where
  "cell_shows S t r c \<longleftrightarrow> (\<forall>j<16. \<forall>i<8. pix t (px_cell S r c j i) =
     (if c < length (row_text (rows t ! r)) \<and>
         bit (glyphs t ! glyph_index (row_text (rows t ! r) ! c) ! j) (7 - i)
      then color t else 0))"

definition cell_blank :: "nat \<Rightarrow> console \<Rightarrow> nat \<Rightarrow> nat \<Rightarrow> bool" where
  "cell_blank S t r c \<longleftrightarrow> (\<forall>j<16. \<forall>i<8. pix t (px_cell S r c j i) = 0)"

definition screen_ok :: "nat \<Rightarrow> nat \<Rightarrow> nat \<Rightarrow> console \<Rightarrow> bool" where
  "screen_ok H W S t \<longleftrightarrow> device_ok H W S t \<and> (\<forall>r<H. \<forall>c<W. cell_shows S t r c)"

lemma cell_shows_blank:
  "cell_shows S t r c \<Longrightarrow> length (row_text (rows t ! r)) \<le> c \<Longrightarrow> cell_blank S t r c"
  by (simp add: cell_shows_def cell_blank_def)

text \<open>Halfway through scrolling: the rows above \<open>y\<close> are done, the others may be damaged where
  they hold text.\<close>

definition scrolling :: "nat \<Rightarrow> nat \<Rightarrow> nat \<Rightarrow> nat \<Rightarrow> console \<Rightarrow> bool" where
  "scrolling H W S y t \<longleftrightarrow> device_ok H W S t \<and>
     (\<forall>r<y. \<forall>c<W. cell_shows S t r c) \<and>
     (\<forall>r<H. \<forall>c<W. y \<le> r \<and> length (row_text (rows t ! r)) \<le> c \<longrightarrow> cell_blank S t r c)"

lemma screen_ok_scrolling: "screen_ok H W S t \<Longrightarrow> scrolling H W S 0 t"
  by (auto simp: screen_ok_def scrolling_def intro: cell_shows_blank)

lemma scrolling_screen_ok: "scrolling H W S H t \<Longrightarrow> screen_ok H W S t"
  by (simp add: screen_ok_def scrolling_def)

lemma if_or: "(if A \<or> B then x else y) = (if A then x else if B then x else y)"
  by simp

text \<open>Clearing the glyphs of a text row.\<close>

lemma pix_cleared_prefix:
  assumes "device_ok H W S t" and "y < H" and "n \<le> W" and "px_valid (vesa_info t) k"
  shows "pix (fold (\<lambda>x. clear_glyph (of_nat x * 8) (of_nat y * 16)) [0..<n] t) k =
    (if \<exists>c<n. \<exists>j<17. \<exists>i<9. k = px_cell S y c j i then 0 else pix t k)"
  using assms(3)
proof (induction n)
  case 0
  then show ?case by simp
next
  case (Suc n)
  let ?t = "fold (\<lambda>x. clear_glyph (of_nat x * 8) (of_nat y * 16)) [0..<n] t"
  let ?P = "\<lambda>c. \<exists>j<17. \<exists>i<9. k = px_cell S y c j i"
  have dev: "same_device t ?t" by (rule clear_glyphs_rest(1))
  then have "vesa_info ?t = vesa_info t" by (simp add: same_device_def)
  then have step: "pix (clear_glyph (of_nat n * 8) (of_nat y * 16) ?t) k =
      (if ?P n then 0 else pix ?t k)"
    using assms Suc.prems dev by (intro pix_clear_glyph) (auto simp: same_device_ok)
  have prev: "pix ?t k = (if \<exists>c<n. ?P c then 0 else pix t k)" using Suc by simp
  have ex: "(\<exists>c<Suc n. ?P c) \<longleftrightarrow> ?P n \<or> (\<exists>c<n. ?P c)" by (rule Ex_less_Suc)
  have "fold (\<lambda>x. clear_glyph (of_nat x * 8) (of_nat y * 16)) [0..<Suc n] t =
      clear_glyph (of_nat n * 8) (of_nat y * 16) ?t"
    by simp
  then show ?case unfolding ex if_or using step prev by (simp only:)
qed

lemma pix_cleared:
  assumes "device_ok H W S t" and "y < H" and "unat (row_length (rows t ! y)) \<le> W"
    and "px_valid (vesa_info t) k"
  shows "pix (cleared y t) k =
    (if \<exists>c<unat (row_length (rows t ! y)). \<exists>j<17. \<exists>i<9. k = px_cell S y c j i then 0 else pix t k)"
proof -
  have "cleared y t = fold (\<lambda>x. clear_glyph (of_nat x * 8) (of_nat y * 16))
      [0..<unat (row_length (rows t ! y))] t"
    using assms(1) by (simp add: cleared_def device_ok_def)
  then show ?thesis using pix_cleared_prefix [OF assms] by simp
qed

text \<open>Drawing the characters of a text row.\<close>

lemma pix_draw_prefix:
  assumes "device_ok H W S t" and "y < H" and "n \<le> W" and "px_valid (vesa_info t) k"
  shows "pix (fold (\<lambda>i t. draw_char (characters (rows t ! y) ! i) (of_nat i) (of_nat y) t) [0..<n] t) k =
    (if \<exists>c<n. \<exists>j<16. \<exists>i<8. k = px_cell S y c j i \<and>
        bit (glyphs t ! glyph_index (characters (rows t ! y) ! c) ! j) (7 - i)
     then color t else pix t k)"
  using assms(3)
proof (induction n)
  case 0
  then show ?case by simp
next
  case (Suc n)
  let ?t = "fold (\<lambda>i t. draw_char (characters (rows t ! y) ! i) (of_nat i) (of_nat y) t) [0..<n] t"
  let ?P = "\<lambda>c. \<exists>j<16. \<exists>i<8. k = px_cell S y c j i \<and>
        bit (glyphs t ! glyph_index (characters (rows t ! y) ! c) ! j) (7 - i)"
  have dev: "same_device t ?t" by (rule fold_draw_rest(1))
  have rows: "rows ?t = rows t" by (rule fold_draw_rest(2))
  have dev': "vesa_info ?t = vesa_info t" "glyphs ?t = glyphs t" "color ?t = color t"
    using dev by (simp_all add: same_device_def color_def)
  have "pix (draw_char (characters (rows ?t ! y) ! n) (of_nat n) (of_nat y) ?t) k =
      (if \<exists>j<16. \<exists>i<8. k = px_cell S y n j i \<and>
          bit (glyphs ?t ! glyph_index (characters (rows ?t ! y) ! n) ! j) (7 - i)
       then color ?t else pix ?t k)"
    using assms Suc.prems dev dev' by (intro pix_draw_char) (auto simp: same_device_ok)
  then have step: "pix (draw_char (characters (rows ?t ! y) ! n) (of_nat n) (of_nat y) ?t) k =
      (if ?P n then color t else pix ?t k)"
    unfolding rows dev' .
  have prev: "pix ?t k = (if \<exists>c<n. ?P c then color t else pix t k)" using Suc by simp
  have ex: "(\<exists>c<Suc n. ?P c) \<longleftrightarrow> ?P n \<or> (\<exists>c<n. ?P c)" by (rule Ex_less_Suc)
  have "fold (\<lambda>i t. draw_char (characters (rows t ! y) ! i) (of_nat i) (of_nat y) t) [0..<Suc n] t =
      draw_char (characters (rows ?t ! y) ! n) (of_nat n) (of_nat y) ?t"
    by simp
  then show ?case unfolding ex if_or using step prev by (simp only:)
qed

lemma pix_draw_row:
  assumes "device_ok H W S t" and "y < H" and "row_ok W (rows t ! y)" and "W \<le> 128"
    and "px_valid (vesa_info t) k"
  shows "pix (draw_row y t) k =
    (if \<exists>c<length (row_text (rows t ! y)). \<exists>j<16. \<exists>i<8. k = px_cell S y c j i \<and>
        bit (glyphs t ! glyph_index (row_text (rows t ! y) ! c) ! j) (7 - i)
     then color t else pix t k)"
proof -
  have len: "length (row_text (rows t ! y)) = unat (row_length (rows t ! y))"
    using length_row_text [OF assms(3,4)] .
  have le: "unat (row_length (rows t ! y)) \<le> W" using assms(3) by (simp add: row_ok_def)
  have nth: "row_text (rows t ! y) ! c = characters (rows t ! y) ! c"
    if "c < unat (row_length (rows t ! y))" for c
    using that by (simp add: row_text_def)
  show ?thesis
    unfolding len draw_row_def pix_draw_prefix [OF assms(1,2) le assms(5)]
    by (simp add: nth cong: conj_cong)
qed

section \<open>Scrolling the picture\<close>

lemma scrolling_pixel:
  assumes "device_ok H W S t" and "r < H" "c < W" "j < 16" "i < 8"
  shows "px_valid (vesa_info t) (px_cell S r c j i)" "8 * c + i < S"
  using assms cell_valid [OF assms(1-3), of j i] by (auto simp: device_ok_def)

text \<open>What clearing a row's glyphs and drawing a row do to the pixels of a cell.\<close>

lemma pix_cleared_cell:
  assumes "device_ok H W S t" and "y < H" and "unat (row_length (rows t ! y)) \<le> W"
    and "q < H" "c < W" "j < 16" "i < 8"
  shows "q < y \<Longrightarrow> pix (cleared y t) (px_cell S q c j i) = pix t (px_cell S q c j i)"
    and "q = y \<Longrightarrow> c < unat (row_length (rows t ! y)) \<Longrightarrow> pix (cleared y t) (px_cell S q c j i) = 0"
    and "pix t (px_cell S q c j i) = 0 \<Longrightarrow> pix (cleared y t) (px_cell S q c j i) = 0"
proof -
  note here = scrolling_pixel [OF assms(1,4-7)]
  have wiped: "pix (cleared y t) (px_cell S q c j i) =
      (if \<exists>c'<unat (row_length (rows t ! y)). \<exists>j'<17. \<exists>i'<9. px_cell S q c j i = px_cell S y c' j' i'
       then 0 else pix t (px_cell S q c j i))"
    by (rule pix_cleared [OF assms(1-3) here(1)])
  show "pix t (px_cell S q c j i) = 0 \<Longrightarrow> pix (cleared y t) (px_cell S q c j i) = 0"
    unfolding wiped by simp
  show "pix (cleared y t) (px_cell S q c j i) = 0" if "q = y" "c < unat (row_length (rows t ! y))"
  proof -
    have "j < 17" "i < 9" using assms(6,7) by auto
    then show ?thesis using that wiped by auto
  qed
  assume "q < y"
  then have "px_cell S q c j i < 16 * y * S" using here(2) assms(6) by (intro px_cell_less)
  then have "px_cell S q c j i \<noteq> px_cell S y c' j' i'" for c' j' i'
    using px_cell_ge [of y y S c' j' i'] by auto
  then show "pix (cleared y t) (px_cell S q c j i) = pix t (px_cell S q c j i)" unfolding wiped by simp
qed

lemma pix_redrawn_cell:
  assumes "device_ok H W S t" and "y < H" and "row_ok W (rows t ! y)" and "W \<le> 128"
    and "q < H" "c < W" "j < 16" "i < 8"
  shows "pix (draw_row y t) (px_cell S q c j i) =
    (if q = y \<and> c < length (row_text (rows t ! y)) \<and>
        bit (glyphs t ! glyph_index (row_text (rows t ! y) ! c) ! j) (7 - i)
     then color t else pix t (px_cell S q c j i))"
proof -
  let ?r = "rows t ! y"
  note here = scrolling_pixel [OF assms(1)]
  have rlen: "length (row_text ?r) \<le> W"
    using length_row_text [OF assms(3,4)] assms(3) by (simp add: row_ok_def)
  have "px_cell S q c j i = px_cell S y c' j' i' \<longleftrightarrow> q = y \<and> c = c' \<and> j = j' \<and> i = i'"
    if "c' < length (row_text ?r)" "j' < 16" "i' < 8" for c' j' i'
    using px_cell_inj [of c i S c' i' j j' q y] here(2) [OF assms(5-8)]
      here(2) [OF assms(2), of c' j' i'] that rlen assms(5-8) by auto
  then have "(\<exists>c'<length (row_text ?r). \<exists>j'<16. \<exists>i'<8. px_cell S q c j i = px_cell S y c' j' i' \<and>
      bit (glyphs t ! glyph_index (row_text ?r ! c') ! j') (7 - i')) \<longleftrightarrow>
      q = y \<and> c < length (row_text ?r) \<and> bit (glyphs t ! glyph_index (row_text ?r ! c) ! j) (7 - i)"
    using assms(7,8) by auto
  then show ?thesis using pix_draw_row [OF assms(1-4) here(1) [OF assms(5-8)]] by simp
qed

lemma scroll_row_picture:
  assumes "scrolling H W S y t" and "y < H" and "H \<le> 95" and "W \<le> 128" and "length (rows t) = 96"
    and "row_ok W (rows t ! y)" and "row_ok W r"
  shows "scrolling H W S (Suc y) (draw_row y (set_row y r (cleared y t)))"
proof -
  let ?c = "cleared y t" and ?s = "set_row y r (cleared y t)"
  let ?d = "draw_row y ?s"
  have dev: "device_ok H W S t" using assms(1) by (simp add: scrolling_def)
  have same: "same_device t ?c" "same_device t ?s" "same_device t ?d"
    using cleared_rest(1) [of t y] set_row_rest(1) [of ?c y r] draw_row_rest(1) [of ?s y]
    by (blast intro: same_device_trans)+
  then have kept: "glyphs ?s = glyphs t" "color ?s = color t" "glyphs ?d = glyphs t" "color ?d = color t"
    by (simp_all add: same_device_def color_def)
  have rows: "rows ?s = (rows t)[y := r]" "rows ?d = (rows t)[y := r]"
    by (simp_all add: draw_row_rest cleared_rest)
  have at_y: "rows ?s ! y = r" using assms by (simp add: cleared_rest)
  have le: "unat (row_length (rows t ! y)) \<le> W" using assms(6) by (simp add: row_ok_def)
  have pix_s: "pix ?s k = pix ?c k" for k by (simp add: pix_def set_row_def)
  have dev': "device_ok H W S ?s" "device_ok H W S ?d" using dev same(2,3) by (simp_all add: same_device_ok)
  note cell = pix_redrawn_cell [OF dev'(1) assms(2) _ assms(4), unfolded at_y kept pix_s, OF assms(7)]
  note wiped = pix_cleared_cell [OF dev assms(2) le]
  have "cell_shows S ?d q c" if "q < y" "c < W" for q c
  proof -
    have "q < H" "q \<noteq> y" using that assms(2) by auto
    moreover have "cell_shows S t q c" using assms(1) that by (simp add: scrolling_def)
    ultimately show ?thesis using cell wiped(1) that by (simp add: cell_shows_def kept rows)
  qed
  moreover have "cell_shows S ?d y c" if "c < W" for c
  proof -
    have "pix ?c (px_cell S y c j i) = 0" if "j < 16" "i < 8" for j i
    proof (cases "c < unat (row_length (rows t ! y))")
      case False
      then have "length (row_text (rows t ! y)) \<le> c" using length_row_text [OF assms(6,4)] by simp
      then have "cell_blank S t y c" using assms(1,2) \<open>c < W\<close> by (simp add: scrolling_def)
      then show ?thesis using wiped(3) [OF assms(2) \<open>c < W\<close>] that by (simp add: cell_blank_def)
    qed (use wiped(2) assms(2) \<open>c < W\<close> that in simp)
    then show ?thesis using cell [OF assms(2) that] assms(2,3,5) by (simp add: cell_shows_def kept rows)
  qed
  moreover have "cell_blank S ?d q c"
    if "q < H" "c < W" "Suc y \<le> q" "length (row_text (rows ?d ! q)) \<le> c" for q c
  proof -
    have "cell_blank S t q c" using assms(1) that by (simp add: scrolling_def rows)
    then show ?thesis using cell wiped(3) that by (simp add: cell_blank_def)
  qed
  ultimately show ?thesis using dev'(2) by (auto simp: scrolling_def less_Suc_eq)
qed

lemma scroll_loop_picture:
  assumes "scrolling H W S y t" and "y + k \<le> H" and "H \<le> 95" and "W \<le> 128" and "length (rows t) = 96"
    and "\<forall>r \<in> set (rows t). row_ok W r" and "scroll_loop y k t = Inr t'"
  shows "scrolling H W S (y + k) t'"
  using assms
proof (induction k arbitrary: y t)
  case 0
  then show ?case by simp
next
  case (Suc k)
  then obtain r where r: "scroll_row y t = Inr (draw_row y (set_row y r (cleared y t)))" "row_ok W r"
    using scroll_row_ok [of t y W] by auto
  let ?t = "draw_row y (set_row y r (cleared y t))"
  have rw: "rows ?t = (rows t)[y := r]" by (simp add: draw_row_rest cleared_rest)
  have "\<forall>r \<in> set (rows ?t). row_ok W r"
    using Suc.prems(6) r(2) set_update_subset_insert [of "rows t" y r] unfolding rw by blast
  moreover have "scrolling H W S (Suc y) ?t"
    using Suc.prems r(2) by (intro scroll_row_picture) auto
  moreover have "scroll_loop (Suc y) k ?t = Inr t'" using Suc.prems(7) r(1) by simp
  ultimately show ?case using Suc.IH [of "Suc y" ?t] Suc.prems rw by simp
qed

lemma screen_ok_move_cursor [simp]: "screen_ok H W S (move_cursor x y t) = screen_ok H W S t"
  by (simp add: screen_ok_def device_ok_def cell_shows_def pix_def color_def move_cursor_def)

lemma screen_ok_interrupts [simp]: "screen_ok H W S (t\<lparr>interrupts := b\<rparr>) = screen_ok H W S t"
  by (simp add: screen_ok_def device_ok_def cell_shows_def pix_def color_def)

lemma next_row_picture:
  assumes "console_ok H W t" and "screen_ok H W S t" and "next_row t = Inr t'"
  shows "screen_ok H W S t'"
proof (cases "cursor_y (terminal t) + 1 = term_height (terminal t)")
  case True
  have ok: "H \<le> 95" "W \<le> 128" "length (rows t) = 96" "\<forall>r \<in> set (rows t). row_ok W r"
    "term_height (terminal t) = of_nat H"
    using assms(1) by (auto simp: console_ok_def)
  then have h: "unat (term_height (terminal t)) = H" by (simp add: unat_of_nat_u32)
  let ?t0 = "t\<lparr>interrupts := False\<rparr>"
  obtain t1 where t1: "scroll_loop 0 H ?t0 = Inr t1"
    "t' = move_cursor 0 (cursor_y (terminal t1)) (t1\<lparr>interrupts := True\<rparr>)"
    using assms(3) True h by (auto simp: next_row_def scroll_def elim!: seq_InrE)
  have "screen_ok H W S ?t0" using assms(2) by simp
  then have "scrolling H W S (0 + H) t1"
    using ok by (intro scroll_loop_picture [OF screen_ok_scrolling _ _ _ _ _ t1(1)]) auto
  then show ?thesis unfolding t1(2) by (simp add: scrolling_screen_ok)
next
  case False
  then show ?thesis using assms(2,3) by (auto simp: next_row_def Let_def)
qed

lemma row_text_store:
  assumes "row_ok W r" and "unat (row_length r) < W" and "W \<le> 128"
  shows "row_text (r\<lparr>characters := (characters r)[unat (row_length r) := c], row_length := row_length r + 1\<rparr>) =
    row_text r @ [c]"
proof -
  have "unat (row_length r + 1) = unat (row_length r) + 1"
    using assms by (simp add: unat_word_ariths)
  then show ?thesis using assms by (simp add: row_text_def row_ok_def take_Suc_conv_app_nth)
qed

lemma draw_store_picture:
  assumes "console_ok H W t" and "screen_ok H W S t" and "unat (cursor_x (terminal t)) < W"
    and "store_char ch (draw_char ch (cursor_x (terminal t)) (cursor_y (terminal t)) t) = Inr t'"
  shows "screen_ok H W S t'"
proof -
  let ?x = "unat (cursor_x (terminal t))" and ?y = "unat (cursor_y (terminal t))"
  let ?d = "draw_char ch (cursor_x (terminal t)) (cursor_y (terminal t)) t"
  let ?r = "rows t ! ?y"
  let ?r' = "?r\<lparr>characters := (characters ?r)[?x := ch], row_length := row_length ?r + 1\<rparr>"
  have ok: "W \<le> 128" "H \<le> 95" "length (rows t) = 96" "?y < H" "row_ok W ?r" "row_length ?r = cursor_x (terminal t)"
    using assms(1) by (auto simp: console_ok_def)
  have dev: "device_ok H W S t" using assms(2) by (simp add: screen_ok_def)
  have tx: "row_text ?r' = row_text ?r @ [ch]" and len: "length (row_text ?r) = ?x"
    using row_text_store [of W ?r ch] ok assms(3) length_row_text [of W ?r] by simp_all
  have t': "t' = move_cursor (cursor_x (terminal t) + 1) (cursor_y (terminal t)) (set_row ?y ?r' ?d)"
    using assms(4) by (auto simp: store_char_def Let_def split: if_splits)
  have same: "same_device t ?d" by simp
  have kept: "rows t' = (rows t)[?y := ?r']" "glyphs t' = glyphs t" "color t' = color t"
    "device_ok H W S t'" "pix t' k = pix ?d k" for k
    using same dev unfolding t'
    by (simp_all add: same_device_def color_def set_row_def pix_def device_ok_def move_cursor_def)
  note here = scrolling_pixel [OF dev]
  have drawn: "pix t' k = (if \<exists>j<16. \<exists>i<8. k = px_cell S ?y ?x j i \<and>
      bit (glyphs t ! glyph_index ch ! j) (7 - i) then color t else pix t k)"
    if "px_valid (vesa_info t) k" for k
    using pix_draw_char [OF dev ok(4) assms(3) that, of ch] by (simp add: kept)
  have "cell_shows S t' q c" if q: "q < H" "c < W" for q c
  proof -
    have old: "cell_shows S t q c" using assms(2) q by (simp add: screen_ok_def)
    have "pix t' (px_cell S q c j i) = (if c < length (row_text (rows t' ! q)) \<and>
          bit (glyphs t ! glyph_index (row_text (rows t' ! q) ! c) ! j) (7 - i) then color t else 0)"
      if ji: "j < 16" "i < 8" for j i
    proof -
      have inj: "px_cell S q c j i = px_cell S ?y ?x j' i' \<longleftrightarrow> q = ?y \<and> c = ?x \<and> j = j' \<and> i = i'"
        if "j' < 16" "i' < 8" for j' i'
        using px_cell_inj [of c i S ?x i' j j' q ?y] here(2) [OF q ji] here(2) [OF ok(4) assms(3) that]
          ji that by blast
      have "pix t' (px_cell S q c j i) =
          (if q = ?y \<and> c = ?x \<and> bit (glyphs t ! glyph_index ch ! j) (7 - i) then color t
           else pix t (px_cell S q c j i))"
      proof -
        have "(\<exists>j'<16. \<exists>i'<8. px_cell S q c j i = px_cell S ?y ?x j' i' \<and>
            bit (glyphs t ! glyph_index ch ! j') (7 - i')) \<longleftrightarrow>
            q = ?y \<and> c = ?x \<and> bit (glyphs t ! glyph_index ch ! j) (7 - i)"
          using inj ji by metis
        then show ?thesis using drawn [OF here(1) [OF q ji]] by simp
      qed
      moreover have "pix t (px_cell S q c j i) = (if c < length (row_text (rows t ! q)) \<and>
          bit (glyphs t ! glyph_index (row_text (rows t ! q) ! c) ! j) (7 - i) then color t else 0)"
        using old ji by (simp add: cell_shows_def)
      moreover have "rows t' ! q = (if q = ?y then ?r' else rows t ! q)"
        using ok q by (simp add: kept)
      ultimately show ?thesis using len by (auto simp: tx nth_append)
    qed
    then show ?thesis by (simp add: cell_shows_def kept)
  qed
  then show ?thesis by (simp add: screen_ok_def kept)
qed

lemma put_char_picture:
  assumes "shows_text H W hist t" and "screen_ok H W S t" and "printable c" and "put_char c t = Inr t'"
  shows "screen_ok H W S t'"
proof (cases "c = 0xA")
  case True
  then show ?thesis
    using assms next_row_picture by (auto simp: put_char_def shows_text_def)
next
  case False
  have ok: "console_ok H W t" using assms by (simp add: shows_text_def)
  then have W: "0 < W" "W \<le> 128" "term_width (terminal t) = of_nat W" by (auto simp: console_ok_def)
  obtain t1 where t1: "(if cursor_x (terminal t) = term_width (terminal t) then next_row t else Inr t) = Inr t1"
    "store_char c (draw_char c (cursor_x (terminal t1)) (cursor_y (terminal t1)) t1) = Inr t'"
    using assms(3,4) False by (auto simp: put_char_def print_char_printable elim!: seq_InrE split: if_splits)
  have "console_ok H W t1" "unat (cursor_x (terminal t1)) < W" using put_char_room [OF ok t1(1)] by blast+
  moreover have "screen_ok H W S t1"
    using t1(1) assms(2) next_row_picture [OF ok assms(2)] by (auto split: if_splits)
  ultimately have "console_ok H W t1 \<and> screen_ok H W S t1 \<and> unat (cursor_x (terminal t1)) < W" by blast
  then show ?thesis using draw_store_picture t1(2) by blast
qed

section \<open>Printing\<close>

text \<open>Printing keeps the screen the picture of the buffer.\<close>

definition picture_step :: "nat \<Rightarrow> nat \<Rightarrow> u8 list list \<Rightarrow> console \<Rightarrow> u8 list list \<Rightarrow> console \<Rightarrow> bool" where
  "picture_step H W hist t hist' t' \<longleftrightarrow> (\<forall>S. screen_ok H W S t \<longrightarrow> screen_ok H W S t')"

interpretation picture: print_relation picture_step
  by unfold_locales (auto simp: picture_step_def intro: put_char_picture)


lemma blank_screen_ok:
  assumes "shows_text H W [[]] t" and "device_ok H W S t" and "screen t = (\<lambda>_. 0)"
  shows "screen_ok H W S t"
proof -
  have zero: "pix t k = 0" for k
    using assms(3) by (simp add: pix_def px_def load32_def mem_eval)
  have d: "displayed t = [[]]" using assms(1) by (simp add: shows_text_def last_rows_def console_ok_def)
  have ok: "console_ok H W t" using assms(1) by (simp add: shows_text_def)
  have "length (displayed t) = unat (cursor_y (terminal t)) + 1"
    using ok by (auto simp: displayed_def console_ok_def)
  then have "unat (cursor_y (terminal t)) = 0" using d by simp
  moreover have "row_text (rows t ! 0) = []" using d calculation ok
    by (cases "rows t") (auto simp: displayed_def)
  ultimately have "row_text (rows t ! r) = []" if "r < H" for r
    using ok that by (cases "r = 0") (auto simp: console_ok_def)
  then show ?thesis using assms(2) zero by (simp add: screen_ok_def cell_shows_def)
qed


text \<open>Lemma clear_glyph_spills. Clearing the glyph of a text row wipes, besides the glyph, one line
  and one column of pixels around it, and on the last row a line below the screen; on the last
  column of a screen without padding the column is the first one of the next pixel lines.\<close>
theorem clear_glyph_spills:
  assumes "device_ok H W S t" and "r < H" "c < W" and "j \<le> 16" "i \<le> 8"
  shows "pix (clear_glyph (of_nat c * 8) (of_nat r * 16) t) (px_cell S r c j i) = 0 \<and>
    (r = H - 1 \<longrightarrow> 16 * H * S \<le> px_cell S r c 16 i) \<and>
    (S = 8 * W \<and> c = W - 1 \<longrightarrow> px_cell S r c j 8 = px_cell S r 0 (j + 1) 0)"
proof -
  have "px_valid (vesa_info t) (px_cell S r c j i)" by (rule cell_valid [OF assms])
  moreover have "\<exists>j'<17. \<exists>i'<9. px_cell S r c j i = px_cell S r c j' i'"
    using assms(4,5) by (intro exI [of _ j] conjI exI [of _ i]) simp_all
  moreover have "16 * H * S \<le> px_cell S r c 16 i" if "r = H - 1"
  proof -
    have "16 * r + 16 = 16 * H" using that assms(2) by simp
    then show ?thesis by (simp add: px_cell_def)
  qed
  moreover have "px_cell S r c j 8 = px_cell S r 0 (j + 1) 0" if "S = 8 * W" "c = W - 1"
  proof -
    have "8 * c + 8 = S" using that assms(3) by simp
    then show ?thesis by (simp add: px_cell_def algebra_simps)
  qed
  ultimately show ?thesis
    using pix_clear_glyph [OF assms(1-3)] by simp
qed

theorem clear_glyph_spills_witness:
  "\<exists>t. device_ok 48 128 1024 t \<and> pix (clear_glyph (of_nat 127 * 8) (of_nat 47 * 16) t) (px_cell 1024 47 127 16 8) = 0"
proof -
  let ?t = "blank_console\<lparr>psf_header := (psf_header blank_console)\<lparr>psf_height := 16, psf_width := 8\<rparr>\<rparr>"
  have d: "device_ok 48 128 1024 ?t"
    by (simp add: device_ok_def mode32_def px_valid_def sample_info_def blank_console_def)
  from clear_glyph_spills [OF d, of 47 127 16 8] d show ?thesis by auto
qed

end
