(* ===== verification/Boot.thy ===== *)
theory Boot
  imports Apic AcpiWalk Fat32 TerminalScreen
begin

text \<open>
  The boot sequence, \<open>kernel/start.c\<close>: the components are brought up one after the other on
  one machine. Memory is physical memory. The kernel's own pointers lie at the kernel base,
  where the tables of stage 2, and later those of \<open>init_paging\<close>, map physical memory from
  address zero on; \<open>kernel_view\<close> is memory as those pointers see it. Every other pointer the
  sequence uses is mapped to itself.
\<close>

section \<open>Memory at the kernel base\<close>

definition kernel_view :: "memory \<Rightarrow> memory" where
  "kernel_view m = (\<lambda>a. if KERNEL_BASE \<le> a then m (a - KERNEL_BASE) else m a)"

text \<open>Taking the writes at the kernel base back to physical memory.\<close>

definition kernel_write :: "memory \<Rightarrow> memory \<Rightarrow> memory" where
  "kernel_write m h =
     (\<lambda>p. if p < 0x80000000 then h (KERNEL_BASE + p) else if p < KERNEL_BASE then h p else m p)"

section \<open>State\<close>

text \<open>What the linker and the assembly code provide.\<close>

record boot_env =
  kernel_end :: u64
  vector_0_handler :: u64
  idt_address :: u64
  entry_A :: u64
  entry_B :: u64
  entry_C :: u64

text \<open>The stack of the linker script \<open>kernel/linker.ld\<close>: padding, alignment, 128 KiB.\<close>

definition stack_bottom :: "boot_env \<Rightarrow> u64" where
  "stack_bottom env = (kernel_end env + 0x10000 + 0x3FFF) AND NOT 0x3FFF"

definition stack_top :: "boot_env \<Rightarrow> u64" where
  "stack_top env = stack_bottom env + 0x20000"

record machine =
  m_vm :: vm
  m_irq :: irq
  m_info :: vbe_mode_info
  m_fat :: fat
  m_con :: console
  m_heap :: heap
  m_apic :: apic_t
  m_ports :: trace
  m_msrs :: "u32 \<Rightarrow> u64"

definition set_memory :: "memory \<Rightarrow> machine \<Rightarrow> machine" where
  "set_memory m k = k\<lparr>m_vm := (m_vm k)\<lparr>mem := m\<rparr>\<rparr>"

section \<open>The steps\<close>

text \<open>The first calls of \<open>start\<close>: physical memory, screen mode, interrupts.\<close>

definition start_basics :: "boot_env \<Rightarrow> u32 \<Rightarrow> u32 \<Rightarrow> machine \<Rightarrow> machine" where
  "start_basics env memorymaps vesa k =
     (let s = m_vm k;
          s = s\<lparr>phys := init_pmm (mem s) KERNEL_BASE (kernel_end env) memorymaps (phys s)\<rparr>
      in k\<lparr>m_vm := s, m_info := init_vesa (mem s) vesa,
           m_irq := setup_interrupts (vector_0_handler env) (idt_address env) (m_irq k)\<rparr>)"

text \<open>A frame for the font, the file system, the font file, the terminal.\<close>

definition load_font :: "device \<Rightarrow> machine \<Rightarrow> machine res option" where
  "load_font dev k =
     oseq (Some (pmm_allocate (phys (m_vm k)))) (\<lambda>(frame, p).
     let font = frame + KERNEL_BASE in
     oseq (init_fat (read_sector dev) (m_fat k) (m_ports k)) (\<lambda>(f, h).
     oseq (read_file (read_sector dev) f (bytes_of (chars ''FONT    PSF'')) font
             (kernel_view (mem (m_vm k))) h) (\<lambda>r.
     let (m, h) = (case r of Not_Found \<Rightarrow> (mem (m_vm k), h) | Loaded (m, h) \<Rightarrow> (kernel_write (mem (m_vm k)) m, h)) in
     oseq (Some (init_text_terminal (kernel_view m) font (m_info k) (m_con k))) (\<lambda>t.
       Some (Inr (k\<lparr>m_vm := (m_vm k)\<lparr>mem := m, phys := p\<rparr>, m_fat := f, m_ports := h, m_con := t\<rparr>))))))"

text \<open>Paging, the heap, two rectangles.\<close>

definition map_memory :: "boot_env \<Rightarrow> machine \<Rightarrow> machine res option" where
  "map_memory env k =
     oseq (Some (init_paging KERNEL_BASE (get_framebuffer (m_info k)) (m_vm k))) (\<lambda>s.
     let h = install_heap (kernel_end env) (kernel_view (mem s));
         m = kernel_write (mem s) (hmem h);
         m = draw_rectangle (m_info k) 150 100 100 100 m;
         m = draw_rectangle (m_info k) 300 400 50 100 m
     in Some (Inr (k\<lparr>m_vm := s\<lparr>mem := m\<rparr>, m_heap := h\<rparr>)))"

text \<open>What the table walk works on, and the machine with what it leaves.\<close>

definition acpi_of :: "machine \<Rightarrow> acpi_state" where
  "acpi_of k = \<lparr>ac_apic = m_apic k, ac_vm = m_vm k, ac_con = m_con k\<rparr>"

definition with_acpi :: "acpi_state \<Rightarrow> machine \<Rightarrow> machine" where
  "with_acpi s k = k\<lparr>m_apic := ac_apic s, m_vm := ac_vm s, m_con := ac_con s\<rparr>"

text \<open>\<open>None\<close> of the inner result: the processor has been halted for want of ACPI tables.\<close>

definition find_controllers :: "machine \<Rightarrow> machine option res option" where
  "find_controllers k =
     oseq (parse_acpi (acpi_of k)) (\<lambda>r.
     case r of Halted s \<Rightarrow> Some (Inr None)
     | Parsed s \<Rightarrow>
         oseq (say ''local apic: '' s) (\<lambda>s.
         oseq (say_hex (local_apic (get_apic s)) s) (\<lambda>s.
         oseq (say ''IO apic: '' s) (\<lambda>s.
         oseq (say_hex (io_apic (get_apic s)) s) (\<lambda>s. Some (Inr (Some (with_acpi s k))))))))"

text \<open>A report of the frame pool, which the sequence leaves out.\<close>

definition pmm_print_info :: "acpi_state \<Rightarrow> acpi_state res option" where
  "pmm_print_info s =
     oseq (say ''[PMM] region start: '' s) (\<lambda>s.
     oseq (say_hex (pool_base (pool (phys (ac_vm s)))) s) (\<lambda>s.
     oseq (say ''[PMM] region length: '' s) (\<lambda>s.
     oseq (say_hex (pool_length (pool (phys (ac_vm s)))) s) (\<lambda>s.
     oseq (say ''[PMM] region end: '' s) (\<lambda>s.
       say_hex (pool_base (pool (phys (ac_vm s))) + pool_length (pool (phys (ac_vm s)))) s)))))"

definition start_processes :: "boot_env \<Rightarrow> machine \<Rightarrow> machine res option" where
  "start_processes env k =
     oseq (map_option Inr (init_scheduler (entry_A env) (entry_B env) (entry_C env) (sch (m_irq k))
             ((m_heap k)\<lparr>hmem := kernel_view (mem (m_vm k))\<rparr>))) (\<lambda>(s, h).
     let k = set_memory (kernel_write (mem (m_vm k)) (hmem h)) (k\<lparr>m_irq := (m_irq k)\<lparr>sch := s\<rparr>, m_heap := h\<rparr>);
         a = \<lparr>ports = m_ports k, space = m_vm k, msrs = m_msrs k, outside = effects (m_irq k)\<rparr>
     in oseq (Some (init_apic (local_apic (m_apic k)) (io_apic (m_apic k)) a)) (\<lambda>a.
          Some (Inr (k\<lparr>m_ports := ports a, m_vm := space a, m_msrs := msrs a,
                       m_irq := (m_irq k)\<lparr>effects := outside a\<rparr>\<rparr>))))"

text \<open>
  The whole sequence, up to the endless loop in which the boot code waits for interrupts. The
  stack switch and the segment registers have no part in the state.
\<close>

definition start :: "device \<Rightarrow> boot_env \<Rightarrow> u32 \<Rightarrow> u32 \<Rightarrow> machine \<Rightarrow> machine option res option" where
  "start dev env memorymaps vesa k =
     oseq (load_font dev (start_basics env memorymaps vesa k)) (\<lambda>k.
     oseq (map_memory env k) (\<lambda>k.
     oseq (find_controllers k) (\<lambda>r.
     case r of None \<Rightarrow> Some (Inr None)
     | Some k \<Rightarrow> oseq (start_processes env k) (\<lambda>k. Some (Inr (Some k))))))"

section \<open>The view from the kernel base\<close>

lemma unat_kernel_base: "unat KERNEL_BASE = 0xFFFFFFFF80000000"
  by (simp add: KERNEL_BASE_def)

lemma kernel_address:
  assumes "unat p < 0x80000000"
  shows "unat (p + KERNEL_BASE) = unat p + 0xFFFFFFFF80000000" "KERNEL_BASE \<le> p + KERNEL_BASE"
proof -
  show u: "unat (p + KERNEL_BASE) = unat p + 0xFFFFFFFF80000000"
    using assms unat_add_no_wrap_word [of p KERNEL_BASE] by (simp add: unat_kernel_base)
  then show "KERNEL_BASE \<le> p + KERNEL_BASE" by (simp add: word_le_nat_alt unat_kernel_base)
qed

lemma kernel_view_high: "unat p < 0x80000000 \<Longrightarrow> kernel_view m (p + KERNEL_BASE) = m p"
  using kernel_address [of p] by (simp add: kernel_view_def)

lemma low_iff: "p < 0x80000000 \<longleftrightarrow> unat (p :: u64) < 0x80000000"
  and base_iff: "p < KERNEL_BASE \<longleftrightarrow> unat (p :: u64) < 0xFFFFFFFF80000000"
  by (simp_all add: word_less_nat_alt unat_kernel_base)

lemma kernel_write_apply:
  "kernel_write m h p =
     (if unat p < 0x80000000 then h (p + KERNEL_BASE)
      else if unat p < 0xFFFFFFFF80000000 then h p else m p)"
  unfolding kernel_write_def low_iff base_iff by (simp add: add.commute)

lemma kernel_view_mid: "unat p < 0xFFFFFFFF80000000 \<Longrightarrow> kernel_view m p = m p"
  unfolding kernel_view_def not_less [symmetric] base_iff by simp

lemma kernel_write_view: "kernel_write m (kernel_view m) = m"
  by (rule ext) (simp add: kernel_write_apply kernel_view_high kernel_view_mid)

lemma kernel_write_store:
  assumes "unat a + length bs \<le> 0x80000000"
  shows "kernel_write m (store_bytes (kernel_view m) (a + KERNEL_BASE) bs) = store_bytes m a bs"
proof
  fix p
  have low: "unat p < 0x80000000" if "in_range p a (length bs)"
  proof -
    have "unat ((p - a) + a) \<le> unat (p - a) + unat a" by (rule unat_add_le)
    then show ?thesis using that assms by (simp add: in_range_def)
  qed
  consider "unat p < 0x80000000" | "0x80000000 \<le> unat p" "unat p < 0xFFFFFFFF80000000"
    | "0xFFFFFFFF80000000 \<le> unat p"
    by linarith
  then show "kernel_write m (store_bytes (kernel_view m) (a + KERNEL_BASE) bs) p = store_bytes m a bs p"
  proof cases
    case 1
    then show ?thesis
      by (simp add: kernel_write_apply store_bytes_apply in_range_def kernel_view_high)
  next
    case 2
    have "\<not> in_range p (a + KERNEL_BASE) (length bs)"
    proof
      assume r: "in_range p (a + KERNEL_BASE) (length bs)"
      have la: "unat a < 0x80000000 \<or> length bs = 0" using assms by (cases "length bs") auto
      then have "unat (p - (a + KERNEL_BASE)) + unat (a + KERNEL_BASE) < 2 ^ 64"
        using r assms kernel_address(1) [of a] by (auto simp: in_range_def)
      then have "unat ((p - (a + KERNEL_BASE)) + (a + KERNEL_BASE)) =
          unat (p - (a + KERNEL_BASE)) + unat (a + KERNEL_BASE)"
        by (rule unat_add_no_wrap_word)
      then have "unat p = unat (p - (a + KERNEL_BASE)) + unat (a + KERNEL_BASE)" by simp
      then show False
        using 2 r la kernel_address(1) [of a] by (auto simp: in_range_def)
    qed
    then show ?thesis
      using 2 low by (auto simp: kernel_write_apply store_bytes_apply kernel_view_mid)
  next
    case 3
    then show ?thesis
      using low by (auto simp: kernel_write_apply store_bytes_apply)
  qed
qed

lemma load32_bytes:
  assumes "\<And>i. i < 4 \<Longrightarrow> m (p + of_nat i) = bs ! (k + i)"
  shows "load32 m p = le32 bs k"
proof -
  have "m p = bs ! k" "m (p + 1) = bs ! (k + 1)" "m (p + 2) = bs ! (k + 2)" "m (p + 3) = bs ! (k + 3)"
    using assms [of 0] assms [of 1] assms [of 2] assms [of 3] by simp_all
  then show ?thesis
    by (intro bit_word_eqI)
      (auto simp: load32_def mem_eval le32_def le16_def bit_simps add.assoc numeral_3_eq_3
        elim: allE dest: bit_imp_le_length)
qed

section \<open>The font\<close>

lemma store_bytes_nth:
  "k < length bs \<Longrightarrow> length bs < 2 ^ 64 \<Longrightarrow> store_bytes m a bs (a + of_nat k) = bs ! k"
  by (simp add: store_bytes_apply in_range_def unat_of_nat_u64)

lemma kernel_view_bytes:
  assumes "unat a + length bs \<le> 0x80000000" and "k < length bs"
  shows "kernel_view (store_bytes m a bs) (a + KERNEL_BASE + of_nat k) = bs ! k"
proof -
  have "unat (a + of_nat k) = unat a + k"
    using assms by (intro unat_add_no_wrap) simp
  then have "kernel_view (store_bytes m a bs) ((a + of_nat k) + KERNEL_BASE) = store_bytes m a bs (a + of_nat k)"
    using assms by (intro kernel_view_high) simp
  then show ?thesis using store_bytes_nth [of k bs m a] assms by (simp add: add_ac)
qed

lemma install_font_bytes:
  assumes "unat a + length bs \<le> 0x80000000" and "4128 \<le> length bs"
  shows "psf_height (psf_header (install_font (kernel_view (store_bytes m a bs)) (a + KERNEL_BASE) t)) = le32 bs 24"
    and "psf_width (psf_header (install_font (kernel_view (store_bytes m a bs)) (a + KERNEL_BASE) t)) = le32 bs 28"
    and "i < 256 \<Longrightarrow> j < 16 \<Longrightarrow>
      glyphs (install_font (kernel_view (store_bytes m a bs)) (a + KERNEL_BASE) t) ! i ! j = bs ! (32 + (i * 16 + j))"
proof -
  have word: "load32 (kernel_view (store_bytes m a bs)) (a + KERNEL_BASE + of_nat n) = le32 bs n"
    if "n + 4 \<le> length bs" for n
  proof (rule load32_bytes)
    fix i :: nat assume "i < 4"
    then show "kernel_view (store_bytes m a bs) (a + KERNEL_BASE + of_nat n + of_nat i) = bs ! (n + i)"
      using kernel_view_bytes [OF assms(1), of "n + i"] that by (simp add: add.assoc)
  qed
  show "psf_height (psf_header (install_font (kernel_view (store_bytes m a bs)) (a + KERNEL_BASE) t)) = le32 bs 24"
    and "psf_width (psf_header (install_font (kernel_view (store_bytes m a bs)) (a + KERNEL_BASE) t)) = le32 bs 28"
    using word [of 24] word [of 28] assms(2) by (simp_all add: install_font_def)
  assume ij: "i < 256" "j < 16"
  have eq: "a + KERNEL_BASE + 32 + of_nat (i * 16) + of_nat j = a + KERNEL_BASE + of_nat (32 + (i * 16 + j))"
    by (simp add: add.assoc)
  have "glyphs (install_font (kernel_view (store_bytes m a bs)) (a + KERNEL_BASE) t) ! i ! j =
      kernel_view (store_bytes m a bs) (a + KERNEL_BASE + 32 + of_nat (i * 16) + of_nat j)"
    using ij by (simp add: install_font_def del: upt_rec_numeral)
  also have "\<dots> = bs ! (32 + (i * 16 + j))"
    unfolding eq using ij assms(2) by (intro kernel_view_bytes [OF assms(1)]) simp
  finally show "glyphs (install_font (kernel_view (store_bytes m a bs)) (a + KERNEL_BASE) t) ! i ! j =
      bs ! (32 + (i * 16 + j))" .
qed

text \<open>The font file on a disk, as the volume mounted from it lists it, and the boot step that loads
  it.\<close>

definition font_file :: "device \<Rightarrow> (u32 \<Rightarrow> u8 list) \<Rightarrow> fat \<Rightarrow> trace \<Rightarrow> u8 list \<Rightarrow> bool" where
  "font_file dev disk f0 h0 data \<longleftrightarrow> ata_drive dev disk \<and>
     (\<exists>f h c cs. init_fat (read_sector dev) f0 h0 = Some (Inr (f, h)) \<and>
        find_cluster (take 5 (files f)) (bytes_of (chars ''FONT    PSF'')) 0 = c \<and> c \<noteq> 0 \<and>
        chain (decode_fat (fat_sector disk (bpb f))) c cs \<and>
        data = concat (map (cluster_sector disk (bpb f)) (c # cs)))"

lemma load_font_result:
  assumes "font_file dev disk (m_fat k) (m_ports k) data" and "4128 \<le> length data"
    and "le32 data 24 \<noteq> 0" and "le32 data 28 \<noteq> 0"
    and "bitmap (pool (phys (m_vm k))) = replicate 100 0" and "2 \<le> unat (pages (pool (phys (m_vm k))))"
    and "f0 = pool_base (pool (phys (m_vm k)))" and "unat f0 + length data \<le> 0x80000000"
  shows "\<exists>f h t. load_font dev k = Some (Inr (k\<lparr>m_vm := (m_vm k)\<lparr>mem := store_bytes (mem (m_vm k)) f0 data,
      phys := taken (phys (m_vm k)) 1\<rparr>, m_fat := f, m_ports := h, m_con := t\<rparr>)) \<and>
    init_text_terminal (kernel_view (store_bytes (mem (m_vm k)) f0 data)) (f0 + KERNEL_BASE) (m_info k) (m_con k) = Inr t"
proof -
  let ?p = "phys (m_vm k)" and ?m = "mem (m_vm k)"
  obtain f h c cs where on_disk: "ata_drive dev disk" "init_fat (read_sector dev) (m_fat k) (m_ports k) = Some (Inr (f, h))"
    "find_cluster (take 5 (files f)) (bytes_of (chars ''FONT    PSF'')) 0 = c" "c \<noteq> 0"
    "chain (decode_fat (fat_sector disk (bpb f))) c cs" "data = concat (map (cluster_sector disk (bpb f)) (c # cs))"
    using assms(1) unfolding font_file_def by blast
  have a0: "pmm_allocate ?p = Inr (f0, taken ?p 1)"
    using pmm_allocate_taken [of 0 ?p] assms(6,7) by (simp add: taken_0 [OF assms(5)] frame_addr_def)
  obtain h' where rf: "read_file (read_sector dev) f (bytes_of (chars ''FONT    PSF'')) (f0 + KERNEL_BASE)
      (kernel_view ?m) h = Some (Inr (Loaded (store_bytes (kernel_view ?m) (f0 + KERNEL_BASE) data, h')))"
    using sector_source.read_file_stores [OF ata_sector_source [OF on_disk(1)] on_disk(3-5)]
    unfolding on_disk(6) by blast
  note font = install_font_bytes [OF assms(8,2), where m = ?m and t = "m_con k"]
  obtain t where t: "init_text_terminal (kernel_view (store_bytes ?m f0 data)) (f0 + KERNEL_BASE) (m_info k) (m_con k) = Inr t"
    using font(1,2) assms(3,4) by (simp add: init_text_terminal_def Let_def)
  have "load_font dev k = Some (Inr (k\<lparr>m_vm := (m_vm k)\<lparr>mem := store_bytes ?m f0 data,
      phys := taken ?p 1\<rparr>, m_fat := f, m_ports := h', m_con := t\<rparr>))"
    using kernel_write_store [OF assms(8), of ?m] t
    by (simp add: load_font_def a0 on_disk(2) rf Let_def)
  with t show ?thesis by blast
qed

lemma init_text_terminal_device:
  "init_text_terminal m font info t0 = Inr t \<Longrightarrow>
     psf_header t = psf_header (install_font m font t0) \<and> glyphs t = glyphs (install_font m font t0) \<and>
     vesa_info t = info \<and> term_height (terminal t) = ucast (vbe_height info) div psf_height (psf_header t) \<and>
     term_width (terminal t) = ucast (vbe_width info) div psf_width (psf_header t)"
  by (auto simp: init_text_terminal_def get_vesainfo_def Let_def split: if_splits)

text \<open>C16 load_font_installs. On an ATA drive with a mounted volume that lists the font file, of at
  least 4128 bytes, and with a fresh frame pool, the boot step loads the whole cluster chain to
  the first frame of the pool and the glyph table then is the file's: 16 bytes a glyph behind
  the 32-byte header. A chain of nine or more sectors does not fit the frame: the step writes
  into the next one, which the pool hands out next.\<close>
theorem load_font_installs:
  assumes "font_file dev disk (m_fat k) (m_ports k) data" and "4128 \<le> length data"
    and "le32 data 24 \<noteq> 0" and "le32 data 28 \<noteq> 0"
    and "bitmap (pool (phys (m_vm k))) = replicate 100 0" and "2 \<le> unat (pages (pool (phys (m_vm k))))"
    and "f0 = pool_base (pool (phys (m_vm k)))" and "unat f0 + length data \<le> 0x80000000"
  shows "\<exists>k'. load_font dev k = Some (Inr k') \<and>
    mem (m_vm k') = store_bytes (mem (m_vm k)) f0 data \<and>
    psf_height (psf_header (m_con k')) = le32 data 24 \<and> psf_width (psf_header (m_con k')) = le32 data 28 \<and>
    (\<forall>i<256. \<forall>j<16. glyphs (m_con k') ! i ! j = data ! (32 + (i * 16 + j))) \<and>
    mem (m_vm k') (f0 + 0x1000) = data ! 4096 \<and>
    (\<exists>p. pmm_allocate (phys (m_vm k')) = Inr (f0 + 0x1000, p))"
proof -
  let ?p = "phys (m_vm k)" and ?m = "mem (m_vm k)"
  have a1: "\<exists>p. pmm_allocate (taken ?p 1) = Inr (f0 + 0x1000, p)"
    using pmm_allocate_taken [of 1 ?p] assms(6,7) by (simp add: frame_addr_def PAGESIZE_def)
  have byte: "store_bytes ?m f0 data (f0 + 0x1000) = data ! 4096"
    using store_bytes_nth [of 4096 data ?m f0] assms(2,8) by simp
  note font = install_font_bytes [OF assms(8,2), where m = ?m and t = "m_con k"]
  obtain f h t where r: "load_font dev k = Some (Inr (k\<lparr>m_vm := (m_vm k)\<lparr>mem := store_bytes ?m f0 data,
      phys := taken ?p 1\<rparr>, m_fat := f, m_ports := h, m_con := t\<rparr>))"
    "init_text_terminal (kernel_view (store_bytes ?m f0 data)) (f0 + KERNEL_BASE) (m_info k) (m_con k) = Inr t"
    using load_font_result [OF assms] by blast
  show ?thesis using r(1) a1 byte font init_text_terminal_device [OF r(2)] by simp
qed

text \<open>A volume with a font file of nine sectors in the clusters 3 to 11.\<close>

definition font_table :: "u8 list" where
  "font_table = replicate 12 0 @ concat (map (\<lambda>n. [n, 0, 0, 0]) [4, 5, 6, 7, 8, 9, 10, 11]) @
     [0xFF, 0xFF, 0xFF, 0x0F] @ replicate 464 0"

definition font_disk :: "u32 \<Rightarrow> u8 list" where
  "font_disk lba =
     (if lba = 0x800 then boot_sector else if lba = 0x820 then font_table
      else if lba = 0x822 then pair_bytes [(font_lfn, font_sfn)] @ replicate 448 0
      else (replicate 512 (ucast lba))[24 := 16, 25 := 0, 26 := 0, 27 := 0, 28 := 8, 29 := 0, 30 := 0, 31 := 0])"

lemma font_drive: "ata_drive (drive font_disk) font_disk"
  by (rule drive_ok) (simp add: font_disk_def sample_lengths pair_bytes_def font_table_def)

lemma font_next: "n \<in> {3, 4, 5, 6, 7, 8, 9, 10} \<Longrightarrow>
    read_nextcluster (decode_fat font_table) (of_nat n) = Inr (of_nat (Suc n))"
  "read_nextcluster (decode_fat font_table) 11 = Inr 0"
  by (auto simp: read_nextcluster_def decode_fat_nth font_table_def le32_def le16_def nth_append)

definition boot_machine :: machine where
  "boot_machine = \<lparr>m_vm = \<lparr>mem = (\<lambda>_. 0), phys = sample_pmm, pml = 0, cr3 = 0\<rparr>, m_irq = boot_irq,
     m_info = sample_info, m_fat = empty_fat, m_con = blank_console, m_heap = sample_heap,
     m_apic = \<lparr>local_apic = 0xFEE00000, io_apic = 0xFEC00000\<rparr>, m_ports = [], m_msrs = (\<lambda>_. 0)\<rparr>"

lemma boot_mount:
  "\<exists>f h. init_fat (read_sector (drive font_disk)) empty_fat [] = Some (Inr (f, h)) \<and>
    bpb f = decode_bpb boot_sector \<and>
    find_cluster (take 5 (files f)) (bytes_of (chars ''FONT    PSF'')) 0 = 3"
proof -
  have "font_disk ((0x800 + ucast (reserverd_sectors (decode_bpb (font_disk 0x800))) +
      sectors_per_fat (decode_bpb (font_disk 0x800)) *
      ucast (number_of_fats (decode_bpb (font_disk 0x800)))) AND 0xFFFFFFF) =
      pair_bytes [(font_lfn, font_sfn)] @ replicate 448 0"
    by (simp add: font_disk_def sample_bpb)
  from init_fat_pairs [OF font_drive _ refl this, of empty_fat "[]"] sample_entries
  obtain h where h: "init_fat (read_sector (drive font_disk)) empty_fat [] =
      Some (Inr (empty_fat\<lparr>bpb := decode_bpb (font_disk 0x800),
        files := enter_pairs (files empty_fat) 0 [(font_lfn, font_sfn)],
        buffer := pair_bytes [(font_lfn, font_sfn)] @ replicate 448 0\<rparr>, h))"
    by (auto simp: empty_fat_def)
  have "strcmp (bytes_of (replicate 11 0)) (bytes_of (chars ''FONT    PSF'')) 11 = 1"
    by (auto simp: strcmp_eq bytes_of_def chars_def intro!: exI [of _ 0])
  moreover have "strcmp r r 11 = 0" for r by (simp add: strcmp_eq)
  moreover have "slice 0 11 font_sfn = chars ''FONT    PSF''" "sfn_cluster (decode_sfn font_sfn) = 3"
    by (simp_all add: slice_def font_sfn_def chars_def sfn_cluster_def le16_def nth_append)
  ultimately have "find_cluster (take 5 (enter_pairs (files empty_fat) 0 [(font_lfn, font_sfn)]))
      (bytes_of (chars ''FONT    PSF'')) 0 = 3"
    by (simp add: empty_fat_def empty_file_def numeral_eq_Suc set_file_def read_filename_from_lfn_def)
  then show ?thesis using h by (simp add: font_disk_def)
qed

text \<open>Its file as the chain of \<open>font_disk\<close>.\<close>

definition font_data :: "u8 list" where
  "font_data = concat (map (cluster_sector font_disk (decode_bpb boot_sector)) [3, 4, 5, 6, 7, 8, 9, 10, 11])"

lemma font_data_facts: "length font_data = 4608" "le32 font_data 24 = 16" "le32 font_data 28 = 8"
  and font_data_file: "font_file (drive font_disk) font_disk empty_fat [] font_data"
proof -
  obtain f h where fh: "init_fat (read_sector (drive font_disk)) empty_fat [] = Some (Inr (f, h))"
    "bpb f = decode_bpb boot_sector"
    "find_cluster (take 5 (files f)) (bytes_of (chars ''FONT    PSF'')) 0 = 3"
    using boot_mount by blast
  have tab: "fat_sector font_disk (bpb f) = font_table"
    by (simp add: fat_sector_def fh(2) sample_bpb PARTITION_START_def font_disk_def)
  have chn: "chain (decode_fat (fat_sector font_disk (bpb f))) 3 [4, 5, 6, 7, 8, 9, 10, 11]"
    using font_next(1) [of 3] font_next(1) [of 4] font_next(1) [of 5] font_next(1) [of 6]
      font_next(1) [of 7] font_next(1) [of 8] font_next(1) [of 9] font_next(1) [of 10] font_next(2)
    by (simp add: tab)
  have len: "length (cluster_sector font_disk (decode_bpb boot_sector) c) = 512" for c
    using font_drive by (simp add: cluster_sector_def ata_drive_def)
  have first: "cluster_sector font_disk (decode_bpb boot_sector) 3 =
      (replicate 512 0x823)[24 := 16, 25 := 0, 26 := 0, 27 := 0, 28 := 8, 29 := 0, 30 := 0, 31 := 0]"
    by (simp add: cluster_sector_def cluster_lba_def sample_bpb PARTITION_START_def font_disk_def)
  have "font_data ! n = cluster_sector font_disk (decode_bpb boot_sector) 3 ! n" if "n < 512" for n
    using that len by (simp add: font_data_def nth_append)
  then show "le32 font_data 24 = 16" "le32 font_data 28 = 8"
    by (simp_all add: le32_def le16_def first)
  show "length font_data = 4608" by (simp add: len font_data_def)
  show "font_file (drive font_disk) font_disk empty_fat [] font_data"
    unfolding font_file_def
  proof (intro conjI exI)
    show "font_data = concat (map (cluster_sector font_disk (bpb f)) (3 # [4, 5, 6, 7, 8, 9, 10, 11]))"
      by (simp only: font_data_def fh(2))
  qed (use font_drive fh(1,3) chn in simp_all)
qed

theorem load_font_installs_witness:
  "\<exists>k'. load_font (drive font_disk) boot_machine = Some (Inr k') \<and>
     (\<exists>p. pmm_allocate (phys (m_vm k')) = Inr (0x201000, p))"
proof -
  have k: "m_fat boot_machine = empty_fat" "m_ports boot_machine = []" "phys (m_vm boot_machine) = sample_pmm"
    "bitmap (pool sample_pmm) = replicate 100 0" "pages (pool sample_pmm) = 256" "pool_base (pool sample_pmm) = 0x200000"
    by (simp_all add: boot_machine_def sample_pmm_def)
  have "font_file (drive font_disk) font_disk (m_fat boot_machine) (m_ports boot_machine) font_data"
    unfolding k by (rule font_data_file)
  from load_font_installs [OF this, of "0x200000"] show ?thesis
    by (auto simp: k font_data_facts)
qed

end
