(* ===== verification/BootMemory.thy ===== *)
theory BootMemory
  imports Boot
begin

text \<open>
  How the components share memory in the boot sequence of \<open>kernel/start.c\<close>: the heap behind
  the kernel image, the page tables in the frames of the pool and the pixels of the
  framebuffer do not disturb each other, so that what each component promises alone still
  holds after the others have run. The boot stack of the linker script is not spared.
\<close>

section \<open>The heap in physical memory\<close>

lemma install_heap_frame:
  "\<not> in_range x (heap_start (install_heap ke m)) 24 \<Longrightarrow> hmem (install_heap ke m) x = m x"
  by (simp add: install_heap_def Let_def hdr_set_outside)

text \<open>The heap's range of physical addresses, 1 MiB behind the kernel image.\<close>

definition heap_phys :: "u64 \<Rightarrow> nat" where
  "heap_phys ke = heap_base ke - 0xFFFFFFFF80000000"

definition heap_range :: "u64 \<Rightarrow> u64 \<Rightarrow> bool" where
  "heap_range ke x \<longleftrightarrow> heap_phys ke \<le> unat x \<and> unat x < heap_phys ke + 0x100000"

text \<open>The kernel image ends in the top 2 GiB, with room for the heap behind it.\<close>

definition heap_fits :: "u64 \<Rightarrow> bool" where
  "heap_fits ke \<longleftrightarrow> 0xFFFFFFFF80000000 \<le> unat ke \<and> unat ke + 0x101000 < 2 ^ 64"

lemma heap_phys_base:
  assumes "heap_fits ke"
  shows "heap_base ke = heap_phys ke + 0xFFFFFFFF80000000" and "heap_phys ke + 0x100000 < 0x80000000"
    and "heap_phys ke \<le> unat ke - 0xFFFFFFFF80000000 + 0x1000"
proof -
  have "unat ke + 0x1000 < 2 ^ 64" using assms by (simp add: heap_fits_def)
  note b = heap_base_less [OF this]
  show "heap_base ke = heap_phys ke + 0xFFFFFFFF80000000" and "heap_phys ke + 0x100000 < 0x80000000"
    and "heap_phys ke \<le> unat ke - 0xFFFFFFFF80000000 + 0x1000"
    using b assms by (auto simp: heap_phys_def heap_fits_def)
qed

lemma heap_start_install: "heap_start (install_heap ke m) = of_nat (heap_base ke)"
  by (simp add: install_heap_def Let_def heap_base_def)

lemma unat_heap_base: "heap_fits ke \<Longrightarrow> unat (of_nat (heap_base ke) :: u64) = heap_base ke"
  using heap_phys_base [of ke] by (intro unat_of_nat_u64) simp

lemma kernel_view_write: "KERNEL_BASE \<le> a \<Longrightarrow> kernel_view (kernel_write m h) a = h a"
proof -
  assume a: "KERNEL_BASE \<le> a"
  then have "unat (a - KERNEL_BASE) = unat a - 0xFFFFFFFF80000000"
    by (simp add: unat_sub unat_kernel_base)
  also have "\<dots> < 0x80000000" using unat_less_2p64 [of a] by simp
  finally have "kernel_write m h (a - KERNEL_BASE) = h a" by (simp add: kernel_write_apply)
  then show ?thesis using a by (simp add: kernel_view_def)
qed

lemma in_heap_bytes:
  assumes "heap_fits ke" and "n \<le> 0x100000"
  shows "in_range a (of_nat (heap_base ke)) n \<longleftrightarrow> heap_base ke \<le> unat a \<and> unat a < heap_base ke + n"
  using in_range_iff [of "of_nat (heap_base ke)" n a] unat_heap_base [OF assms(1)] heap_phys_base [OF assms(1)] assms(2)
  by simp

lemma kernel_write_outside:
  assumes "heap_fits ke" and "n \<le> 0x100000"
    and frame: "\<forall>x. \<not> in_range x (of_nat (heap_base ke)) n \<longrightarrow> h x = kernel_view m x"
    and out: "\<not> (heap_phys ke \<le> unat p \<and> unat p < heap_phys ke + n)"
  shows "kernel_write m h p = m p"
proof -
  note hp = heap_phys_base [OF assms(1)]
  consider "unat p < 0x80000000" | "0x80000000 \<le> unat p" "unat p < 0xFFFFFFFF80000000"
    | "0xFFFFFFFF80000000 \<le> unat p"
    by linarith
  then show ?thesis
  proof cases
    case 1
    then have "\<not> in_range (p + KERNEL_BASE) (of_nat (heap_base ke)) n"
      using out hp(1) kernel_address(1) [OF 1] unfolding in_heap_bytes [OF assms(1,2)] by auto
    then show ?thesis using 1 frame by (simp add: kernel_write_apply kernel_view_high)
  next
    case 2
    then have "\<not> in_range p (of_nat (heap_base ke)) n" using hp(1) unfolding in_heap_bytes [OF assms(1,2)] by auto
    then show ?thesis using 2 frame by (simp add: kernel_write_apply kernel_view_mid)
  next
    case 3
    then show ?thesis by (simp add: kernel_write_apply)
  qed
qed

lemma kernel_write_heap:
  assumes "heap_fits ke"
    and frame: "\<forall>x. \<not> in_range x (of_nat (heap_base ke)) 0x100000 \<longrightarrow> h x = kernel_view m x"
  shows "\<not> heap_range ke p \<Longrightarrow> kernel_write m h p = m p"
    and "in_range a (of_nat (heap_base ke)) 0x100000 \<Longrightarrow> kernel_view (kernel_write m h) a = h a"
proof -
  show "\<not> heap_range ke p \<Longrightarrow> kernel_write m h p = m p"
    using kernel_write_outside [OF assms(1) _ frame] by (simp add: heap_range_def)
  have "in_range a (of_nat (heap_base ke)) 0x100000 \<Longrightarrow> heap_base ke \<le> unat a"
    using in_heap_bytes [OF assms(1)] by simp
  then show "in_range a (of_nat (heap_base ke)) 0x100000 \<Longrightarrow> kernel_view (kernel_write m h) a = h a"
    using heap_phys_base(1) [OF assms(1)]
    by (intro kernel_view_write) (simp add: word_le_nat_alt unat_kernel_base)
qed

text \<open>A heap keeps its blocks when only memory outside it changes.\<close>

lemma heap_ok_memory:
  assumes "heap_ok h ws r" and "\<And>x. in_range x (heap_start h) (8 * (sum_list ws + r)) \<Longrightarrow> m x = hmem h x"
  shows "heap_ok (h\<lparr>hmem := m\<rparr>) ws r"
proof -
  have s: "of_nat (unat (heap_start h)) = heap_start h" by simp
  have "8 * sum_list ws + 24 \<le> 8 * (sum_list ws + r)" using assms(1) by (simp add: heap_ok_def)
  then have "\<And>x. in_range x (heap_start h) (8 * sum_list ws + 24) \<Longrightarrow> hmem h x = m x"
    using assms(2) in_range_mono by metis
  then have "blocks_at m (unat (heap_start h)) ws r"
    using assms(1) by (intro blocks_at_cong [of _ ws "hmem h" m]) (auto simp: heap_ok_def)
  then show ?thesis using assms(1) by (simp add: heap_ok_def free_addr_def)
qed

section \<open>The screen in physical memory\<close>

lemma px_put_below:
  assumes "px_valid info k" and "unat x < unat (vbe_framebuffer info)"
  shows "px_put info k c m x = m x"
proof -
  have "unat (px_addr info k) = unat (vbe_framebuffer info) + 4 * k"
    using assms(1) unfolding px_addr_def px_valid_def by (intro unat_of_nat_u64) simp
  then have "unat (x - px_addr info k) \<ge> 4"
    using assms unat_less_2p64 [of x] by (simp add: unat_sub_if' px_valid_def)
  then show ?thesis by (simp add: px_put_def acc32.st_outside in_range_def)
qed

lemma draw_rectangle_below:
  assumes "mode32 info stride" and "w < 2 ^ 31" and "h < 2 ^ 31"
    and "\<forall>k \<in> set (rectangle_pixels stride X Y w h). px_valid info k"
    and "unat x < unat (vbe_framebuffer info)"
  shows "draw_rectangle info (of_nat X) (of_nat Y) (of_nat w) (of_nat h) m x = m x"
proof -
  have "fold (\<lambda>k. px_put info k c) ks m x = m x" if "\<forall>k \<in> set ks. px_valid info k" for c ks
    using that
  proof (induction ks arbitrary: m)
    case (Cons k ks)
    then show ?case using px_put_below [OF _ assms(5)] by simp
  qed simp
  then show ?thesis using draw_rectangle_px [OF assms(1-4)] assms(4) by simp
qed

section \<open>Paging, heap and screen together\<close>

lemma in_heap_range:
  assumes "heap_fits ke" and "in_range a (of_nat (heap_base ke)) 0x100000"
  shows "KERNEL_BASE \<le> a" and "heap_range ke (a - KERNEL_BASE)"
proof -
  note hp = heap_phys_base [OF assms(1)]
  have a: "heap_base ke \<le> unat a" "unat a < heap_base ke + 0x100000"
    using assms(2) in_heap_bytes [OF assms(1), of "0x100000" a] by simp_all
  then show le: "KERNEL_BASE \<le> a" using hp by (simp add: word_le_nat_alt unat_kernel_base)
  then have "unat (a - KERNEL_BASE) = unat a - 0xFFFFFFFF80000000"
    by (simp add: unat_sub unat_kernel_base)
  then show "heap_range ke (a - KERNEL_BASE)" using a hp by (auto simp: heap_range_def)
qed

text \<open>The two rectangles of the boot sequence, in a framebuffer of 25 MiB.\<close>

definition boot_drawing :: "vbe_mode_info \<Rightarrow> memory \<Rightarrow> memory" where
  "boot_drawing info m = draw_rectangle info 300 400 50 100 (draw_rectangle info 150 100 100 100 m)"

lemma boot_drawing_pixels:
  assumes "mode32 info S" and "350 \<le> S" and "500 * S * 4 + 4 \<le> 0x1900000"
    and "unat (vbe_framebuffer info) + 0x1900000 \<le> 2 ^ 32"
  shows "unat x < unat (vbe_framebuffer info) \<Longrightarrow> boot_drawing info m x = m x"
    and "a < S \<Longrightarrow> b < 500 \<Longrightarrow>
      150 \<le> a \<and> a < 250 \<and> 100 \<le> b \<and> b < 200 \<or> 300 \<le> a \<and> a < 350 \<and> 400 \<le> b \<Longrightarrow>
      px info (boot_drawing info m) (b * S + a) = 0x00FF00"
proof -
  have S: "S < 2 ^ 31" using assms(3) by simp
  have end_ok: "px_valid info (500 * S)" using assms(3,4) by (simp add: px_valid_def)
  have valid: "px_valid info j" if j: "j \<in> set (rectangle_pixels S X Y w h)" "X + w \<le> S" "Y + h \<le> 500" for X Y w h j
  proof -
    obtain a b where ab: "j = (Y + a) * S + (X + b)" "a < h" "b < w"
      using j(1) unfolding set_rectangle_pixels by blast
    then have "j \<le> Suc (Y + a) * S" using j(2) by simp
    also have "\<dots> \<le> 500 * S" using ab(2) j(3) by (intro mult_le_mono1) simp
    finally show ?thesis by (rule px_valid_mono [OF end_ok])
  qed
  show "boot_drawing info m x = m x" if "unat x < unat (vbe_framebuffer info)"
    using draw_rectangle_below [OF assms(1), of 100 100 150 100 x m] valid [of _ 150 100 100 100]
      draw_rectangle_below [OF assms(1), of 50 100 300 400 x "draw_rectangle info 150 100 100 100 m"]
      valid [of _ 300 400 50 100] assms(2) that
    by (simp add: boot_drawing_def)
  assume ab: "a < S" "b < 500"
    "150 \<le> a \<and> a < 250 \<and> 100 \<le> b \<and> b < 200 \<or> 300 \<le> a \<and> a < 350 \<and> 400 \<le> b"
  have "px info (boot_drawing info m) (b * S + a) =
      (if 300 \<le> a \<and> a < 300 + 50 \<and> 400 \<le> b \<and> b < 400 + 100 then 0x00FF00
       else px info (draw_rectangle info 150 100 100 100 m) (b * S + a))"
    using draw_rectangle_cell [OF assms(1), of 300 50 400 100 500 a b "draw_rectangle info 150 100 100 100 m"]
      ab assms(2) end_ok S by (simp add: boot_drawing_def)
  moreover have "px info (draw_rectangle info 150 100 100 100 m) (b * S + a) =
      (if 150 \<le> a \<and> a < 150 + 100 \<and> 100 \<le> b \<and> b < 100 + 100 then 0x00FF00 else px info m (b * S + a))"
    using draw_rectangle_cell [OF assms(1), of 150 100 100 100 500 a b m] ab assms(2) end_ok S by simp
  ultimately show "px info (boot_drawing info m) (b * S + a) = 0x00FF00" using ab by auto
qed

text \<open>A fresh heap written to physical memory, and drawing done outside it.\<close>

lemma installed_heap_ok:
  assumes "heap_fits ke" and "h = install_heap ke (kernel_view m)"
    and "\<And>x. heap_range ke x \<Longrightarrow> m' x = kernel_write m (hmem h) x"
  shows "heap_ok (h\<lparr>hmem := kernel_view m'\<rparr>) [] 131072"
    and "\<not> heap_range ke x \<Longrightarrow> kernel_write m (hmem h) x = m x"
proof -
  have hs: "heap_start h = of_nat (heap_base ke)" unfolding assms(2) by (rule heap_start_install)
  have "\<forall>x. \<not> in_range x (of_nat (heap_base ke)) 0x100000 \<longrightarrow> hmem h x = kernel_view m x"
    using install_heap_frame [of _ ke "kernel_view m"] in_range_mono [of _ _ 24 "0x100000"]
    unfolding assms(2) heap_start_install by auto
  note kw = kernel_write_heap [OF assms(1) this]
  show "\<not> heap_range ke x \<Longrightarrow> kernel_write m (hmem h) x = m x" by (rule kw(1))
  show "heap_ok (h\<lparr>hmem := kernel_view m'\<rparr>) [] 131072"
  proof (rule heap_ok_memory)
    show "heap_ok h [] 131072"
      unfolding assms(2) using assms(1) by (intro install_heap_ok) (simp add: heap_fits_def)
    fix x assume "in_range x (heap_start h) (8 * (sum_list [] + 131072))"
    then have r: "in_range x (of_nat (heap_base ke)) 0x100000" by (simp add: hs)
    note hr = in_heap_range [OF assms(1) r]
    have "kernel_view m' x = kernel_view (kernel_write m (hmem h)) x"
      using hr assms(3) by (simp add: kernel_view_def)
    then show "kernel_view m' x = hmem h x" using kw(2) [OF r] by simp
  qed
qed

text \<open>C4 map_memory_coexists. When the frame pool lies behind the megabyte the heap takes behind
  the kernel image and below the framebuffer, the boot step that sets up paging, the heap and
  the first drawing succeeds, and all three hold together: the tables are well-formed and map
  the low 25 MiB, the kernel base and the framebuffer, the heap as the kernel sees it is one
  free block of 131072 words, and the two rectangles are on the screen.\<close>
theorem map_memory_coexists:
  assumes "pmm_inv (phys (m_vm k))" and "55 \<le> free_count (phys (m_vm k))" and "heap_fits (kernel_end env)"
    and "unat (kernel_end env) - 0xFFFFFFFF80000000 + 0x101000 \<le> unat (base_of (m_vm k))"
    and "unat (base_of (m_vm k)) + 409600 \<le> unat fb" and "fb = vbe_framebuffer (m_info k)"
    and "4096 dvd unat fb" and "unat fb + 0x1900000 \<le> 2 ^ 32"
    and "mode32 (m_info k) S" and "350 \<le> S" and "500 * S * 4 + 4 \<le> 0x1900000"
  shows "\<exists>k'. map_memory env k = Some (Inr k') \<and> vm_inv (m_vm k') \<and>
    base_of (m_vm k') = base_of (m_vm k) \<and>
    free_count (phys (m_vm k)) \<le> free_count (phys (m_vm k')) + 55 \<and>
    (\<forall>a. unat a < 0x1900000 \<longrightarrow>
       translate (m_vm k') a = Some a \<and> translate (m_vm k') (KERNEL_BASE + a) = Some a) \<and>
    (\<forall>a. unat fb \<le> unat a \<and> unat a < unat fb + 0x1900000 \<longrightarrow> translate (m_vm k') a = Some a) \<and>
    heap_ok ((m_heap k')\<lparr>hmem := kernel_view (mem (m_vm k'))\<rparr>) [] 131072 \<and>
    (\<forall>x<S. \<forall>y<500. 150 \<le> x \<and> x < 250 \<and> 100 \<le> y \<and> y < 200 \<or> 300 \<le> x \<and> x < 350 \<and> 400 \<le> y \<longrightarrow>
       px (m_info k) (mem (m_vm k')) (y * S + x) = 0x00FF00)"
proof -
  let ?ke = "kernel_end env" and ?i = "m_info k"
  have "unat KERNEL_BASE + 0x1900000 \<le> 2 ^ 64" by (simp add: unat_kernel_base)
  from init_paging_maps [OF assms(1,2) this assms(8)]
  obtain s where s: "init_paging KERNEL_BASE fb (m_vm k) = Inr s" "vm_inv s"
      "free_count (phys (m_vm k)) \<le> free_count (phys s) + 55"
    and map: "\<And>vb. mapping s vb = map_option (\<lambda>x. leaf_entry (snd x))
       (find (\<lambda>x. same_page (fst x) vb) (paging_list KERNEL_BASE fb 0))"
    by blast
  have base: "base_of s = base_of (m_vm k)" by (rule init_paging_base [OF s(1)])
  define h where "h = install_heap ?ke (kernel_view (mem s))"
  define m1 where "m1 = kernel_write (mem s) (hmem h)"
  define m3 where "m3 = boot_drawing ?i m1"
  let ?k = "k\<lparr>m_vm := s\<lparr>mem := m3\<rparr>, m_heap := h\<rparr>"
  have run: "map_memory env k = Some (Inr ?k)"
    using s(1) assms(6)
    by (simp add: map_memory_def get_framebuffer_def h_def m1_def m3_def boot_drawing_def Let_def)
  have pool: "heap_phys ?ke + 0x100000 \<le> unat (base_of (m_vm k))"
    using heap_phys_base(3) [OF assms(3)] assms(4) by simp
  have fb: "unat (vbe_framebuffer ?i) + 0x1900000 \<le> 2 ^ 32" using assms(6,8) by simp
  note draw = boot_drawing_pixels [OF assms(9-11) fb, where m = m1, folded m3_def assms(6)]
  have "m3 x = kernel_write (mem s) (hmem h) x" if "heap_range ?ke x" for x
    using that pool assms(5) by (intro draw(1) [unfolded m1_def]) (simp add: heap_range_def)
  note heap = installed_heap_ok [OF assms(3) h_def this]
  have tab: "m3 x = mem s x" if "pool_range (phys s) x" for x
  proof -
    have "unat x < unat fb" "\<not> heap_range ?ke x"
      using that base pool assms(5) by (auto simp: pool_range_def heap_range_def base_of_def)
    then show ?thesis using draw(1) heap(2) by (simp add: m1_def)
  qed
  show ?thesis
    using run vm_inv_memory [OF s(2) tab] base s(3) init_paging_translates [OF map assms(7,8)] heap(1) draw(2)
    by (intro exI [of _ ?k]) (simp add: base_of_def)
qed

definition sample_env :: boot_env where
  "sample_env = \<lparr>kernel_end = 0xFFFFFFFF80008000, vector_0_handler = 0xFFFFFFFF80001000,
     idt_address = 0xFFFFFFFF80009000, entry_A = 0xFFFFFFFF80002000, entry_B = 0xFFFFFFFF80003000,
     entry_C = 0xFFFFFFFF80004000\<rparr>"

lemma sample_env_fits: "heap_fits (kernel_end sample_env)"
  by (simp add: sample_env_def heap_fits_def)

lemma boot_machine_facts:
  "pmm_inv (phys (m_vm boot_machine))" "55 \<le> free_count (phys (m_vm boot_machine))"
  "unat (kernel_end sample_env) - 0xFFFFFFFF80000000 + 0x101000 \<le> unat (base_of (m_vm boot_machine))"
  "unat (base_of (m_vm boot_machine)) + 409600 \<le> unat (0xFD000000 :: u32)"
  "0xFD000000 = vbe_framebuffer (m_info boot_machine)" "mode32 (m_info boot_machine) 1024"
  "m_info boot_machine = sample_info"
proof -
  have "taken sample_pmm 0 = sample_pmm" by (rule taken_0) (simp add: sample_pmm_def)
  then have "free_count sample_pmm = 100"
    using free_count_taken [of 0 sample_pmm] by (simp add: sample_pmm_def)
  then show "55 \<le> free_count (phys (m_vm boot_machine))" by (simp add: boot_machine_def)
qed (simp_all add: boot_machine_def sample_env_def base_of_def sample_info_def mode32_def
    sample_pmm_def sample_pmm_facts(1) [unfolded sample_pmm_def])

theorem map_memory_coexists_witness:
  "\<exists>k'. map_memory sample_env boot_machine = Some (Inr k') \<and>
     translate (m_vm k') (KERNEL_BASE + 0x12345) = Some 0x12345 \<and>
     px sample_info (mem (m_vm k')) (450 * 1024 + 320) = 0x00FF00"
proof -
  have c: "4096 dvd unat (0xFD000000 :: u32)" "unat (0xFD000000 :: u32) + 0x1900000 \<le> 2 ^ 32"
    "350 \<le> (1024 :: nat)" "500 * 1024 * 4 + 4 \<le> (0x1900000 :: nat)" by simp_all
  obtain k' where k': "map_memory sample_env boot_machine = Some (Inr k')"
    "\<forall>a. unat a < 0x1900000 \<longrightarrow>
       translate (m_vm k') a = Some a \<and> translate (m_vm k') (KERNEL_BASE + a) = Some a"
    "\<forall>x<1024. \<forall>y<500. 150 \<le> x \<and> x < 250 \<and> 100 \<le> y \<and> y < 200 \<or> 300 \<le> x \<and> x < 350 \<and> 400 \<le> y \<longrightarrow>
       px (m_info boot_machine) (mem (m_vm k')) (y * 1024 + x) = 0x00FF00"
    using map_memory_coexists [OF boot_machine_facts(1,2) sample_env_fits boot_machine_facts(3-5) c(1,2)
        boot_machine_facts(6) c(3,4)]
    by blast
  have "translate (m_vm k') (KERNEL_BASE + 0x12345) = Some 0x12345" using k'(2) by simp
  moreover have "px sample_info (mem (m_vm k')) (450 * 1024 + 320) = 0x00FF00"
    using k'(3) [rule_format, of 320 450] by (simp add: boot_machine_facts(7))
  ultimately show ?thesis using k'(1) by blast
qed

section \<open>The process stacks\<close>

lemma heap_start_bytes:
  assumes "k + n \<le> N" and "unat s + N < 2 ^ 64" and "in_range x (of_nat (unat s + k)) n"
  shows "in_range x s N"
proof -
  have "(of_nat (unat s + k) :: u64) = s + of_nat k" by simp
  moreover have "unat (of_nat k :: u64) = k" using assms by (intro unat_of_nat_u64) simp
  ultimately show ?thesis using in_range_sub [of x s "of_nat k" n N] assms by simp
qed

lemma kalloc_stack:
  assumes "heap_ok h ws r" and "0x4000 + 3 \<le> r"
  obtains h' where "kalloc 0x4000 h = Some (of_nat (free_addr h ws + 24), h')"
    and "heap_ok h' (ws @ [0x4000]) (r - 0x4000)" and "heap_start h' = heap_start h"
    and "\<And>x. \<not> in_range x (of_nat (free_addr h ws)) 24 \<Longrightarrow>
             \<not> in_range x (of_nat (free_addr h ws + 8 * 0x4000)) 24 \<Longrightarrow> hmem h' x = hmem h x"
proof -
  have n: "3 \<le> (0x4000 :: nat)" "(0x4000 :: nat) + 3 \<le> r" "(0x4000 :: nat) < 2 ^ 31"
    using assms(2) by simp_all
  show thesis
    by (rule kalloc_step [OF assms(1) n], rule that) (simp only: of_nat_numeral, assumption+)
qed

lemma init_scheduler_heap:
  assumes "heap_ok h [] r" and "3 * 0x4000 + 3 \<le> r"
    and "S = unat (heap_start h)" and "c = of_nat (S + 24)" and "a = of_nat (S + 8 * 0x4000 + 24)"
    and "b = of_nat (S + 8 * 0x8000 + 24)"
  shows "\<exists>h'. init_scheduler pA pB pC s h =
      Some (set_process 2 (init_process pB (b + 0x4000))
             (set_process 1 (init_process pA (a + 0x4000))
               (set_process 3 (init_process pC (c + 0x4000)) s)), h') \<and>
    heap_ok h' [0x4000, 0x4000, 0x4000] (r - 3 * 0x4000) \<and> heap_start h' = heap_start h \<and>
    (\<forall>x. \<not> in_range x (heap_start h) (8 * r) \<longrightarrow> hmem h' x = hmem h x)"
proof -
  have room: "S + 8 * r < 2 ^ 64" using assms(1) by (simp add: heap_ok_def assms(3))
  obtain h1 where 1: "kalloc 0x4000 h = Some (of_nat (free_addr h [] + 24), h1)"
    "heap_ok h1 ([] @ [0x4000]) (r - 0x4000)" "heap_start h1 = heap_start h"
    "\<And>x. \<not> in_range x (of_nat (free_addr h [])) 24 \<Longrightarrow>
       \<not> in_range x (of_nat (free_addr h [] + 8 * 0x4000)) 24 \<Longrightarrow> hmem h1 x = hmem h x"
    by (rule kalloc_stack [OF assms(1)]) (use assms(2) in simp, blast)
  let ?w1 = "[] @ [0x4000]"
  obtain h2 where 2: "kalloc 0x4000 h1 = Some (of_nat (free_addr h1 ?w1 + 24), h2)"
    "heap_ok h2 (?w1 @ [0x4000]) (r - 0x4000 - 0x4000)" "heap_start h2 = heap_start h1"
    "\<And>x. \<not> in_range x (of_nat (free_addr h1 ?w1)) 24 \<Longrightarrow>
       \<not> in_range x (of_nat (free_addr h1 ?w1 + 8 * 0x4000)) 24 \<Longrightarrow> hmem h2 x = hmem h1 x"
    by (rule kalloc_stack [OF 1(2)]) (use assms(2) in simp, blast)
  let ?w2 = "?w1 @ [0x4000]"
  obtain h3 where 3: "kalloc 0x4000 h2 = Some (of_nat (free_addr h2 ?w2 + 24), h3)"
    "heap_ok h3 (?w2 @ [0x4000]) (r - 0x4000 - 0x4000 - 0x4000)" "heap_start h3 = heap_start h2"
    "\<And>x. \<not> in_range x (of_nat (free_addr h2 ?w2)) 24 \<Longrightarrow>
       \<not> in_range x (of_nat (free_addr h2 ?w2 + 8 * 0x4000)) 24 \<Longrightarrow> hmem h3 x = hmem h2 x"
    by (rule kalloc_stack [OF 2(2)]) (use assms(2) in simp, blast)
  have f: "free_addr h [] = S + 0" "free_addr h1 ?w1 = S + 8 * 0x4000" "free_addr h2 ?w2 = S + 8 * 0x8000"
    using 1(3) 2(3) by (simp_all add: free_addr_def assms(3))
  have frame: "hmem h3 x = hmem h x" if out: "\<not> in_range x (heap_start h) (8 * r)" for x
  proof -
    have n: "\<not> in_range x (of_nat (S + k)) 24" if "k + 24 \<le> 8 * r" for k
      using heap_start_bytes [OF that room [unfolded assms(3)]] out unfolding assms(3) by blast
    have "\<not> in_range x (of_nat (S + 0)) 24" "\<not> in_range x (of_nat (S + 8 * 0x4000)) 24"
      "\<not> in_range x (of_nat (S + 8 * 0x8000)) 24" "\<not> in_range x (of_nat (S + 8 * 0xC000)) 24"
      by (rule n, use assms(2) in simp)+
    moreover have "S + 8 * 0x4000 + 8 * 0x4000 = S + 8 * 0x8000" "S + 8 * 0x8000 + 8 * 0x4000 = S + 8 * 0xC000"
      "S + 0 + 8 * 0x4000 = S + 8 * 0x4000" by simp_all
    ultimately show ?thesis
      using 1(4) [of x, unfolded f] 2(4) [of x, unfolded f] 3(4) [of x, unfolded f] by presburger
  qed
  have k: "kalloc 0x4000 h = Some (c, h1)" "kalloc 0x4000 h1 = Some (a, h2)" "kalloc 0x4000 h2 = Some (b, h3)"
    using 1(1) 2(1) 3(1) unfolding f assms(4-6) by (simp_all only: add_0_right)
  have "heap_ok h3 [0x4000, 0x4000, 0x4000] (r - 3 * 0x4000)" using 3(2) by simp
  then show ?thesis
    using frame 1(3) 2(3) 3(3)
    by (intro exI [of _ h3]) (simp add: init_scheduler_def alloc_stack_def k)
qed

text \<open>Process A, in slot 1, and its stack.\<close>

lemma init_scheduler_slots:
  assumes "heap_ok h [] r" and "3 * 0x4000 + 3 \<le> r" and "S = unat (heap_start h)" and "sched_ok s"
  obtains s' h' top where "init_scheduler pA pB pC s h = Some (s', h')" and "sched_ok s'"
    and "counter s' = counter s" and "map (\<lambda>i. iret_rip (saved s' i)) [1, 2, 3] = [pA, pB, pC]"
    and "map (\<lambda>i. iret_flags (saved s' i)) [1, 2, 3] = [0x202, 0x202, 0x202]"
    and "iret_rsp (saved s' 1) = top" and "unat top = S + 8 * 0x4000 + 24 + 0x4000"
    and "\<forall>x. \<not> in_range x (heap_start h) (8 * r) \<longrightarrow> hmem h' x = hmem h x"
proof -
  define t where "t = S + 8 * 0x4000 + 24"
  have at: "(of_nat t :: u64) = of_nat (S + 8 * 0x4000 + 24)" unfolding t_def ..
  have "S + 8 * r < 2 ^ 64" using assms(1) by (simp add: heap_ok_def assms(3))
  then have room: "t + 0x4000 < 2 ^ 64" using assms(2) by (simp add: t_def)
  then have "unat (of_nat t :: u64) = t" by (intro unat_of_nat_u64) simp
  then have top: "unat (of_nat t + 0x4000 :: u64) = t + 0x4000"
    using room unat_add_no_wrap_word [of "of_nat t" "0x4000"] by simp
  obtain b c h' where h': "init_scheduler pA pB pC s h =
      Some (set_process 2 (init_process pB (b + 0x4000)) (set_process 1 (init_process pA (of_nat t + 0x4000))
              (set_process 3 (init_process pC (c + 0x4000)) s)), h')"
    "\<forall>x. \<not> in_range x (heap_start h) (8 * r) \<longrightarrow> hmem h' x = hmem h x"
    using init_scheduler_heap [OF assms(1-3) refl at refl] by blast
  define s' where "s' = set_process 2 (init_process pB (b + 0x4000))
      (set_process 1 (init_process pA (of_nat t + 0x4000)) (set_process 3 (init_process pC (c + 0x4000)) s))"
  have slots: "sched_ok s'" "counter s' = counter s" "map (\<lambda>i. iret_rip (saved s' i)) [1, 2, 3] = [pA, pB, pC]"
    "map (\<lambda>i. iret_flags (saved s' i)) [1, 2, 3] = [0x202, 0x202, 0x202]"
    "iret_rsp (saved s' 1) = of_nat t + 0x4000"
    using assms(4) by (simp_all add: s'_def sched_simps init_process_def)
  have "unat (of_nat t + 0x4000 :: u64) = S + 8 * 0x4000 + 24 + 0x4000"
    unfolding top by (simp add: t_def)
  then show thesis by (rule that [OF h'(1) [folded s'_def] slots _ h'(2)])
qed

text \<open>The registers each of a series of interrupts returns with.\<close>

primrec resumed :: "irq \<Rightarrow> cpu_status list \<Rightarrow> cpu_status list" where
  "resumed q [] = []"
| "resumed q (c # cs) = (let (d, q) = interrupt_stub c q in d # resumed q cs)"

declare resumed.simps(2) [simp del]

lemma resumed_timer:
  assumes "timer_vector (vector_number c)" and "sched_ok (sch q)" and "counter (sch q) = n" and "m = (n + 1) mod 4"
  obtains q' where "sched_ok (sch q')" and "counter (sch q') = m"
    and "\<forall>i<4. saved (sch q') i = (if i = n then save_registers c (saved (sch q) i) else saved (sch q) i)"
    and "\<forall>cs. resumed q (c # cs) = saved (sch q') m # resumed q' cs"
proof -
  obtain d q' where s: "interrupt_stub c q = (d, q')" by (cases "interrupt_stub c q") auto
  note t = stub_timer [OF assms(1,2) s, unfolded assms(3), folded assms(4)]
  have "resumed q (c # cs) = saved (sch q') m # resumed q' cs" for cs
    using t by (simp add: resumed.simps(2) s)
  then show thesis
    using that [of q'] counter_save [OF assms(2), of c] sched_ok_save [OF assms(2), of c]
      saved_save [OF assms(2), where c = c] assms(3,4) by (simp add: t(1))
qed

lemma four_ticks:
  assumes "sched_ok (sch q)" and "counter (sch q) = 0" and "\<forall>c\<in>{c0, c1, c2, c3}. timer_vector (vector_number c)"
  shows "resumed q [c0, c1, c2, c3] =
    [saved (sch q) 1, saved (sch q) 2, saved (sch q) 3, save_registers c0 (saved (sch q) 0)]"
proof -
  have v: "timer_vector (vector_number c0)" "timer_vector (vector_number c1)"
    "timer_vector (vector_number c2)" "timer_vector (vector_number c3)" using assms(3) by simp_all
  have m: "1 = (0 + 1) mod (4 :: nat)" "2 = (1 + 1) mod (4 :: nat)" "3 = (2 + 1) mod (4 :: nat)"
    "0 = (3 + 1) mod (4 :: nat)" by simp_all
  obtain q1 where q1: "sched_ok (sch q1)" "counter (sch q1) = 1"
    "\<forall>i<4. saved (sch q1) i = (if i = 0 then save_registers c0 (saved (sch q) i) else saved (sch q) i)"
    "\<forall>cs. resumed q (c0 # cs) = saved (sch q1) 1 # resumed q1 cs"
    by (rule resumed_timer [OF v(1) assms(1,2) m(1)])
  obtain q2 where q2: "sched_ok (sch q2)" "counter (sch q2) = 2"
    "\<forall>i<4. saved (sch q2) i = (if i = 1 then save_registers c1 (saved (sch q1) i) else saved (sch q1) i)"
    "\<forall>cs. resumed q1 (c1 # cs) = saved (sch q2) 2 # resumed q2 cs"
    by (rule resumed_timer [OF v(2) q1(1,2) m(2)])
  obtain q3 where q3: "sched_ok (sch q3)" "counter (sch q3) = 3"
    "\<forall>i<4. saved (sch q3) i = (if i = 2 then save_registers c2 (saved (sch q2) i) else saved (sch q2) i)"
    "\<forall>cs. resumed q2 (c2 # cs) = saved (sch q3) 3 # resumed q3 cs"
    by (rule resumed_timer [OF v(3) q2(1,2) m(3)])
  obtain q4 where "counter (sch q4) = 0"
    and q4: "\<forall>i<4. saved (sch q4) i = (if i = 3 then save_registers c3 (saved (sch q3) i) else saved (sch q3) i)"
    "\<forall>cs. resumed q3 (c3 # cs) = saved (sch q4) 0 # resumed q4 cs"
    by (rule resumed_timer [OF v(4) q3(1,2) m(4)])
  show ?thesis by (simp add: q1(3,4) q2(3,4) q3(3,4) q4)
qed

lemma unat_and_not_mask: "unat (x AND NOT (mask n) :: u64) = unat x - unat x mod 2 ^ n"
proof -
  have d: "(x AND NOT (mask n)) AND take_bit n x = 0"
    by (rule bit_word_eqI) (auto simp: bit_and_iff bit_not_iff bit_mask_iff bit_take_bit_iff)
  then have "(x AND NOT (mask n)) + take_bit n x = (x AND NOT (mask n)) OR take_bit n x"
    by (rule disjunctive_add_eq_or)
  also have "\<dots> = x"
    by (rule bit_word_eqI) (auto simp: bit_and_iff bit_or_iff bit_not_iff bit_mask_iff bit_take_bit_iff)
  finally have e: "x AND NOT (mask n) = x - take_bit n x" by (metis add_diff_cancel_right')
  have "take_bit n x \<le> x" by (simp add: word_le_nat_alt unat_take_bit_u64)
  then show ?thesis unfolding e by (simp add: unat_sub unat_take_bit_u64)
qed

lemma stack_bounds:
  assumes "unat (kernel_end env) + 0x101000 < 2 ^ 64"
  shows "unat (kernel_end env) + 0x10000 \<le> unat (stack_bottom env)"
    and "unat (stack_bottom env) \<le> unat (kernel_end env) + 0x13FFF"
    and "unat (stack_top env) = unat (stack_bottom env) + 0x20000"
proof -
  have "unat (kernel_end env + 0x10000) = unat (kernel_end env) + 0x10000"
    using assms unat_add_no_wrap_word [of "kernel_end env" "0x10000"] by simp
  then have s: "unat (kernel_end env + 0x10000 + 0x3FFF) = unat (kernel_end env) + 0x13FFF"
    using assms unat_add_no_wrap_word [of "kernel_end env + 0x10000" "0x3FFF"] by simp
  have "(0x3FFF :: u64) = mask 14" by (simp add: mask_eq_exp_minus_1)
  then have b: "unat (stack_bottom env) = unat (kernel_end env) + 0x13FFF - (unat (kernel_end env) + 0x13FFF) mod 0x4000"
    using unat_and_not_mask [of "kernel_end env + 0x10000 + 0x3FFF" 14] s by (simp add: stack_bottom_def)
  moreover have "(unat (kernel_end env) + 0x13FFF) mod 0x4000 \<le> 0x3FFF"
    using mod_less_divisor [of "0x4000" "unat (kernel_end env) + 0x13FFF"] by simp
  ultimately show "unat (kernel_end env) + 0x10000 \<le> unat (stack_bottom env)"
    and le: "unat (stack_bottom env) \<le> unat (kernel_end env) + 0x13FFF"
    by linarith+
  then show "unat (stack_top env) = unat (stack_bottom env) + 0x20000"
    using assms unat_add_no_wrap_word [of "stack_bottom env" "0x20000"] by (simp add: stack_top_def)
qed

text \<open>C39 heap_covers_boot_stack. The megabyte of the heap covers the whole 128 KiB stack the linker
  script places 64 KiB behind the kernel image, and the stack \<open>init_scheduler\<close> gives process A
  lies inside the boot stack, on which the boot code goes on running. With an image that ends
  below 0x9F000 the heap also covers the video memory and the BIOS area up to 1 MiB.\<close>
theorem heap_covers_boot_stack:
  assumes "heap_fits (kernel_end env)"
  shows "unat (heap_start (install_heap (kernel_end env) m)) < unat (stack_bottom env) \<and>
    unat (stack_top env) < unat (heap_start (install_heap (kernel_end env) m)) +
      8 * unat (heap_size (install_heap (kernel_end env) m)) \<and>
    (\<exists>s' h'. init_scheduler (entry_A env) (entry_B env) (entry_C env) boot_sched
        (install_heap (kernel_end env) m) = Some (s', h') \<and>
      iret_rip (saved s' 1) = entry_A env \<and>
      unat (stack_bottom env) \<le> unat (iret_rsp (saved s' 1)) - 0x4000 \<and>
      unat (iret_rsp (saved s' 1)) \<le> unat (stack_top env)) \<and>
    (unat (kernel_end env) \<le> 0xFFFFFFFF8009F000 \<longrightarrow>
      (\<forall>a. 0xA0000 \<le> unat a \<and> unat a < 0x100000 \<longrightarrow>
        in_range (a + KERNEL_BASE) (heap_start (install_heap (kernel_end env) m)) 0x100000))"
proof -
  let ?ke = "kernel_end env" and ?h = "install_heap (kernel_end env) m"
  have ke: "unat ?ke + 0x101000 < 2 ^ 64" using assms by (simp add: heap_fits_def)
  note sb = stack_bounds [OF ke]
  have s: "unat (heap_start ?h) = heap_base ?ke"
    unfolding heap_start_install by (rule unat_heap_base [OF assms])
  have hb: "unat ?ke < heap_base ?ke" "heap_base ?ke \<le> unat ?ke + 0x1000"
    using heap_base_less [of ?ke] ke by simp_all
  have ok: "heap_ok ?h [] 131072" using ke by (intro install_heap_ok) simp
  have room: "3 * 0x4000 + 3 \<le> (131072 :: nat)" by simp
  obtain s' h' top where h': "init_scheduler (entry_A env) (entry_B env) (entry_C env) boot_sched ?h = Some (s', h')"
    "map (\<lambda>i. iret_rip (saved s' i)) [1, 2, 3] = [entry_A env, entry_B env, entry_C env]"
    "iret_rsp (saved s' 1) = top" and top: "unat top = heap_base ?ke + 8 * 0x4000 + 24 + 0x4000"
    using init_scheduler_slots [OF ok room s [symmetric] boot_sched_ok] by metis
  have sz: "unat (heap_size ?h) = 131072" by (simp add: install_heap_def Let_def)
  have "unat (stack_bottom env) \<le> unat top - 0x4000 \<and> unat top \<le> unat (stack_top env)"
    "unat (heap_start ?h) < unat (stack_bottom env)"
    "unat (stack_top env) < unat (heap_start ?h) + 8 * unat (heap_size ?h)"
    using hb sb unfolding s sz top by simp_all
  moreover have "in_range (a + KERNEL_BASE) (heap_start ?h) 0x100000"
    if "unat ?ke \<le> 0xFFFFFFFF8009F000" "0xA0000 \<le> unat a" "unat a < 0x100000" for a
  proof -
    have "unat (a + KERNEL_BASE) = unat a + 0xFFFFFFFF80000000" using that by (intro kernel_address) simp
    moreover have "unat (heap_start ?h) + 0x100000 \<le> 2 ^ 64" using hb ke unfolding s by simp
    ultimately show ?thesis
      using that hb assms by (simp add: in_range_iff s heap_fits_def)
  qed
  ultimately show ?thesis using h' by auto
qed

theorem heap_covers_boot_stack_witness:
  "unat (stack_top sample_env) < unat (heap_start (install_heap (kernel_end sample_env) (\<lambda>_. 0))) +
      8 * unat (heap_size (install_heap (kernel_end sample_env) (\<lambda>_. 0)))"
  using heap_covers_boot_stack [OF sample_env_fits] by blast

text \<open>
  On the machine the earlier boot steps leave, the last step succeeds: the tables stay
  well-formed and every page but the controller's keeps its mapping, the local controller's timer
  runs with interrupts enabled, and the first four timer interrupts enter the three processes and
  come back to the boot code.
\<close>

lemma start_processes_ready:
  assumes "vm_inv (m_vm k)" and "3 \<le> free_count (phys (m_vm k))" and "heap_fits (kernel_end env)"
    and "unat (kernel_end env) - 0xFFFFFFFF80000000 + 0x101000 \<le> unat (base_of (m_vm k))"
    and "heap_ok ((m_heap k)\<lparr>hmem := kernel_view (mem (m_vm k))\<rparr>) [] 131072"
    and "heap_start (m_heap k) = of_nat (heap_base (kernel_end env))"
    and "sched_ok (sch (m_irq k))" and "counter (sch (m_irq k)) = 0"
  shows "\<exists>k' top. start_processes env k = Some (Inr k') \<and> vm_inv (m_vm k') \<and> m_apic k' = m_apic k \<and>
    idt (m_irq k') = idt (m_irq k) \<and>
    (\<forall>va. \<not> same_page (local_apic (m_apic k)) va \<longrightarrow> mapping (m_vm k') va = mapping (m_vm k) va) \<and>
    effects (m_irq k') = [Sti, Mmio 0xFEE00380 10000, Mmio 0xFEE00320 0x20020, Mmio 0xFEE003E0 3,
                  Mmio 0xFEE000F0 0x1FF] @ effects (m_irq k) \<and>
    unat top = heap_base (kernel_end env) + 8 * 0x4000 + 24 + 0x4000 \<and>
    (\<forall>c0 c1 c2 c3. (\<forall>c\<in>{c0, c1, c2, c3}. vector_number c = 32) \<longrightarrow>
      map iret_rip (resumed (m_irq k') [c0, c1, c2, c3]) = [entry_A env, entry_B env, entry_C env, iret_rip c0] \<and>
      map iret_flags (resumed (m_irq k') [c0, c1, c2, c3]) = [0x202, 0x202, 0x202, iret_flags c0] \<and>
      iret_rsp (resumed (m_irq k') [c0, c1, c2, c3] ! 0) = top)"
proof -
  let ?ke = "kernel_end env" and ?m = "mem (m_vm k)"
  let ?h = "(m_heap k)\<lparr>hmem := kernel_view ?m\<rparr>"
  have s: "heap_base ?ke = unat (heap_start ?h)" by (simp add: assms(6) unat_heap_base [OF assms(3)])
  have room: "3 * 0x4000 + 3 \<le> (131072 :: nat)" by simp
  obtain s' h' top where h': "init_scheduler (entry_A env) (entry_B env) (entry_C env) (sch (m_irq k)) ?h = Some (s', h')"
    and s': "sched_ok s'" "counter s' = 0" "map (\<lambda>i. iret_rip (saved s' i)) [1, 2, 3] = [entry_A env, entry_B env, entry_C env]"
      "map (\<lambda>i. iret_flags (saved s' i)) [1, 2, 3] = [0x202, 0x202, 0x202]" "iret_rsp (saved s' 1) = top"
    and top: "unat top = heap_base ?ke + 8 * 0x4000 + 24 + 0x4000"
    and frame: "\<forall>x. \<not> in_range x (heap_start ?h) (8 * 131072) \<longrightarrow> hmem h' x = hmem ?h x"
    using init_scheduler_slots [OF assms(5) room s assms(7)] assms(8) by metis
  define m where "m = kernel_write ?m (hmem h')"
  have "\<forall>x. \<not> in_range x (of_nat (heap_base ?ke)) 0x100000 \<longrightarrow> hmem h' x = kernel_view ?m x"
    using frame assms(6) by simp
  note kw = kernel_write_heap(1) [OF assms(3) this, folded m_def]
  have "m x = ?m x" if "pool_range (phys (m_vm k)) x" for x
    using that heap_phys_base(3) [OF assms(3)] assms(4)
    by (intro kw) (auto simp: pool_range_def heap_range_def base_of_def)
  note inv = vm_inv_memory [OF assms(1) this]
  define a where "a = \<lparr>ports = m_ports k, space = (m_vm k)\<lparr>mem := m\<rparr>, msrs = m_msrs k, outside = effects (m_irq k)\<rparr>"
  have a: "vm_inv (space a)" "3 \<le> free_count (phys (space a))" "outside a = effects (m_irq k)"
    "\<And>va. mapping (space a) va = mapping (m_vm k) va"
    using inv assms(2) by (simp_all add: a_def)
  obtain a' where a': "init_apic (local_apic (m_apic k)) (io_apic (m_apic k)) a = Inr a'" "vm_inv (space a')"
    "\<forall>vb. \<not> same_page (local_apic (m_apic k)) vb \<longrightarrow> mapping (space a') vb = mapping (space a) vb"
    "outside a' = [Sti, Mmio 0xFEE00380 10000, Mmio 0xFEE00320 0x20020, Mmio 0xFEE003E0 3,
                  Mmio 0xFEE000F0 0x1FF] @ outside a"
    using init_apic_space [OF a(1,2)] by blast
  let ?k' = "k\<lparr>m_vm := space a', m_irq := (m_irq k)\<lparr>sch := s', effects := outside a'\<rparr>, m_heap := h',
      m_ports := ports a', m_msrs := msrs a'\<rparr>"
  have "start_processes env k = Some (Inr ?k')"
    using a'(1) unfolding start_processes_def h' a_def m_def by (simp add: set_memory_def Let_def)
  moreover have "map iret_rip (resumed (m_irq ?k') [c0, c1, c2, c3]) = [entry_A env, entry_B env, entry_C env, iret_rip c0] \<and>
      map iret_flags (resumed (m_irq ?k') [c0, c1, c2, c3]) = [0x202, 0x202, 0x202, iret_flags c0] \<and>
      iret_rsp (resumed (m_irq ?k') [c0, c1, c2, c3] ! 0) = top"
    if "\<forall>c\<in>{c0, c1, c2, c3}. vector_number c = 32" for c0 c1 c2 c3
    using four_ticks [of "m_irq ?k'" c0 c1 c2 c3] s' that by (simp add: timer_vector_def save_registers_eq)
  ultimately show ?thesis
    using a'(2-4) a(3,4) top
    by (intro exI [of _ ?k'] exI [of _ top]) simp
qed

end
