(* ===== verification/BootWhole.thy ===== *)
theory BootWhole
  imports BootMemory
begin

text \<open>
  The whole of \<open>start\<close> in \<open>kernel/start.c\<close>, from the memory the boot loader leaves to the first
  timer interrupt: each step finds what the steps before it have promised, since all they write
  to is the frame pool, the framebuffer and the header of the heap.
\<close>

section \<open>Where the steps write\<close>

definition boot_writes :: "u64 \<Rightarrow> vbe_mode_info \<Rightarrow> pmm \<Rightarrow> nat \<Rightarrow> nat \<Rightarrow> u64 \<Rightarrow> bool" where
  "boot_writes ke info p H W x \<longleftrightarrow> pool_range p x \<or> in_frame info (8 * W) (16 * H) x \<or>
     heap_phys ke \<le> unat x \<and> unat x < heap_phys ke + 24"

text \<open>
  Kernel image, heap and frame pool one behind the other in the 2 MiB that stage 2 maps, then the
  framebuffer, page aligned and within the 25 MiB \<open>init_paging\<close> maps, on a screen of \<open>H\<close> rows and
  \<open>W\<close> columns that holds the rectangles of the boot sequence.
\<close>

definition boot_layout :: "u64 \<Rightarrow> vbe_mode_info \<Rightarrow> pmm \<Rightarrow> nat \<Rightarrow> nat \<Rightarrow> bool" where
  "boot_layout ke info p H W \<longleftrightarrow> heap_fits ke \<and>
     unat ke - 0xFFFFFFFF80000000 + 0x101000 \<le> unat (pool_base (pool p)) \<and>
     4096 dvd unat (pool_base (pool p)) \<and> unat (pool_base (pool p)) + 409600 \<le> 0x200000 \<and>
     0x200000 \<le> unat (vbe_framebuffer info) \<and>
     4096 dvd unat (vbe_framebuffer info) \<and> unat (vbe_framebuffer info) + 0x1900000 \<le> 2 ^ 32 \<and>
     extent info (8 * W) (16 * H) \<le> 0x1900000 \<and> 44 \<le> W \<and> W \<le> 128 \<and> 32 \<le> H \<and> H \<le> 95"

lemma boot_layout_pool:
  "pool_base (pool p') = pool_base (pool p) \<Longrightarrow> boot_layout ke info p' H W = boot_layout ke info p H W"
  "pool_base (pool p') = pool_base (pool p) \<Longrightarrow> boot_writes ke info p' H W = boot_writes ke info p H W"
  by (simp_all add: boot_layout_def boot_writes_def pool_range_def fun_eq_iff)

text \<open>Neither the pool nor the framebuffer meets the heap, nor each other.\<close>

lemma boot_layout_apart:
  assumes "boot_layout ke info p H W"
  shows "pool_range p x \<Longrightarrow> \<not> in_frame info X Y x" and "heap_range ke x \<Longrightarrow> \<not> in_frame info X Y x"
    and "heap_range ke x \<Longrightarrow> \<not> pool_range p x" and "frame_fits info (8 * W) (16 * H)"
    and "heap_phys ke \<le> unat x \<and> unat x < heap_phys ke + 24 \<Longrightarrow> heap_range ke x"
  using assms heap_phys_base(3) [of ke]
  by (auto simp: boot_layout_def pool_range_def in_frame_def heap_range_def frame_fits_def)

section \<open>The steps\<close>

lemma boot_drawing_frame:
  assumes "frame_fits info 350 500" and "\<not> in_frame info 350 500 x"
  shows "boot_drawing info m x = m x"
  using draw_rectangle_frame [OF assms, of 100 150 100 100 m]
    draw_rectangle_frame [OF assms, of 50 300 100 400 "draw_rectangle info 150 100 100 100 m"]
  by (simp add: boot_drawing_def)

lemma map_memory_step:
  assumes "pmm_inv (phys (m_vm k))" and "55 \<le> free_count (phys (m_vm k))"
    and layout: "boot_layout (kernel_end env) (m_info k) (phys (m_vm k)) H W"
  shows "\<exists>s h. map_memory env k = Some (Inr (k\<lparr>m_vm := s, m_heap := h\<rparr>)) \<and> vm_inv s \<and>
    base_of s = base_of (m_vm k) \<and> free_count (phys (m_vm k)) \<le> free_count (phys s) + 55 \<and>
    (\<forall>a. unat a < 0x1900000 \<longrightarrow> translate s (KERNEL_BASE + a) = Some a) \<and>
    heap_ok (h\<lparr>hmem := kernel_view (mem s)\<rparr>) [] 131072 \<and> heap_start h = of_nat (heap_base (kernel_end env)) \<and>
    same_outside (boot_writes (kernel_end env) (m_info k) (phys (m_vm k)) H W) (mem (m_vm k)) (mem s)"
proof -
  let ?ke = "kernel_end env" and ?i = "m_info k" and ?fb = "vbe_framebuffer (m_info k)"
  note apart = boot_layout_apart [OF layout]
  have fits: "heap_fits ?ke" and fb: "4096 dvd unat ?fb" "unat ?fb + 0x1900000 \<le> 2 ^ 32"
    using layout by (simp_all add: boot_layout_def)
  have screen: "350 \<le> 8 * W" "500 \<le> 16 * H" using layout by (simp_all add: boot_layout_def)
  have kb: "unat KERNEL_BASE + 0x1900000 \<le> 2 ^ 64" by (simp add: unat_kernel_base)
  obtain s where s: "init_paging KERNEL_BASE ?fb (m_vm k) = Inr s" "vm_inv s"
      "free_count (phys (m_vm k)) \<le> free_count (phys s) + 55"
    and map: "\<And>vb. mapping s vb = map_option (\<lambda>x. leaf_entry (snd x))
       (find (\<lambda>x. same_page (fst x) vb) (paging_list KERNEL_BASE ?fb 0))"
    using init_paging_maps [OF assms(1,2) kb fb(2)] by blast
  have sf: "base_of s = base_of (m_vm k)" "\<And>x. \<not> pool_range (phys (m_vm k)) x \<Longrightarrow> mem s x = mem (m_vm k) x"
    using init_paging_frame [OF assms(1,2) kb fb(2) s(1)] by (auto simp: pool_frame_def)
  define h where "h = install_heap ?ke (kernel_view (mem s))"
  define m1 where "m1 = kernel_write (mem s) (hmem h)"
  define m where "m = boot_drawing ?i m1"
  have draw: "m x = m1 x" if "\<not> in_frame ?i (8 * W) (16 * H) x" for x
    unfolding m_def using that frame_fits_mono [OF apart(4) screen] in_frame_mono [OF _ screen]
    by (intro boot_drawing_frame) auto
  have hs: "heap_start h = of_nat (heap_base ?ke)" unfolding h_def by (rule heap_start_install)
  have "\<forall>x. \<not> in_range x (of_nat (heap_base ?ke)) 24 \<longrightarrow> hmem h x = kernel_view (mem s) x"
    using install_heap_frame [of _ ?ke "kernel_view (mem s)"] unfolding h_def heap_start_install by blast
  note head = kernel_write_outside [OF fits _ this, folded m1_def]
  have "m x = kernel_write (mem s) (hmem h) x" if "heap_range ?ke x" for x
    using draw apart(2) that by (simp add: m1_def)
  note heap = installed_heap_ok(1) [OF fits h_def this]
  have tab: "m x = mem s x" if "pool_range (phys s) x" for x
  proof -
    have p: "pool_range (phys (m_vm k)) x" using that sf(1) by (simp add: pool_range_def base_of_def)
    then have "\<not> (heap_phys ?ke \<le> unat x \<and> unat x < heap_phys ?ke + 24)" using apart(3,5) by blast
    then show ?thesis using draw [OF apart(1) [OF p]] head by simp
  qed
  have "same_outside (boot_writes ?ke ?i (phys (m_vm k)) H W) (mem (m_vm k)) m"
    using draw head sf(2) by (simp add: same_outside_def boot_writes_def)
  moreover have "map_memory env k = Some (Inr (k\<lparr>m_vm := s\<lparr>mem := m\<rparr>, m_heap := h\<rparr>))"
    using s(1) by (simp add: map_memory_def get_framebuffer_def h_def m1_def m_def boot_drawing_def Let_def)
  ultimately show ?thesis
    using vm_inv_memory [OF s(2) tab] sf(1) s(3) init_paging_translates(2) [OF map fb] heap hs
    by (intro exI [of _ "s\<lparr>mem := m\<rparr>"] exI [of _ h]) (simp add: base_of_def)
qed

lemma acpi_of_simps [simp]:
  "ac_apic (acpi_of k) = m_apic k" "ac_vm (acpi_of k) = m_vm k" "ac_con (acpi_of k) = m_con k"
  by (simp_all add: acpi_of_def)

lemma find_controllers_step:
  assumes "acpi_inv H W (acpi_of k)" and "acpi_tables (mem (m_vm k)) (scratch H W (acpi_of k)) ts madt rs"
    and "3 * (length ts + 2) \<le> free_count (phys (m_vm k))"
  shows "\<exists>s. find_controllers k = Some (Inr (Some (with_acpi s k))) \<and>
    acpi_step H W (3 * (length ts + 2)) (acpi_of k) s \<and> ac_apic s = controllers (mem (m_vm k)) madt rs (m_apic k)"
proof -
  obtain s0 where s0: "parse_acpi (acpi_of k) = Some (Inr (Parsed s0))"
    "acpi_step H W (3 * (length ts + 2)) (acpi_of k) s0" "ac_apic s0 = controllers (mem (m_vm k)) madt rs (m_apic k)"
    using parse_acpi_walk [OF assms(1), of ts madt rs] assms(2,3) by auto
  obtain s1 where s1: "say ''local apic: '' s0 = Some (Inr s1)" "acpi_step H W 0 s0 s1" "ac_apic s1 = ac_apic s0"
    using say_step [OF acpi_step_inv [OF s0(2)] acpi_texts(13)] by auto
  obtain s2 where s2: "say_hex (local_apic (get_apic s1)) s1 = Some (Inr s2)" "acpi_step H W 0 s1 s2" "ac_apic s2 = ac_apic s1"
    using say_hex_step [OF acpi_step_inv [OF s1(2)]] by blast
  obtain s3 where s3: "say ''IO apic: '' s2 = Some (Inr s3)" "acpi_step H W 0 s2 s3" "ac_apic s3 = ac_apic s2"
    using say_step [OF acpi_step_inv [OF s2(2)] acpi_texts(14)] by auto
  obtain s4 where s4: "say_hex (io_apic (get_apic s3)) s3 = Some (Inr s4)" "acpi_step H W 0 s3 s4" "ac_apic s4 = ac_apic s3"
    using say_hex_step [OF acpi_step_inv [OF s3(2)]] by blast
  have "acpi_step H W (3 * (length ts + 2)) (acpi_of k) s4"
    using acpi_step_trans [OF acpi_step_trans [OF acpi_step_trans [OF acpi_step_trans [OF s0(2) s1(2)] s2(2)] s3(2)] s4(2)]
    by simp
  then show ?thesis
    using s0(1,3) s1(1,3) s2(1,3) s3(1,3) s4(1,3) by (intro exI [of _ s4]) (simp add: find_controllers_def)
qed

text \<open>The font step, with the terminal in order behind it.\<close>

lemma unat_ucast_u16: "unat (ucast (w :: u16) :: u32) = unat w"
proof -
  have "unat w < 2 ^ 16" using unsigned_less [of w] by simp
  then show ?thesis using unat_of_nat_u32 [of "unat w"] by simp
qed

lemma load_font_step:
  assumes "font_file dev disk (m_fat k) (m_ports k) data" and "4128 \<le> length data" and "length data \<le> 0x64000"
    and "le32 data 24 = 16" and "le32 data 28 = 8"
    and "bitmap (pool (phys (m_vm k))) = replicate 100 0" and "100 \<le> unat (pages (pool (phys (m_vm k))))"
    and layout: "boot_layout ke (m_info k) (phys (m_vm k)) H W"
    and "unat (vbe_width (m_info k)) div 8 = W" and "unat (vbe_height (m_info k)) div 16 = H"
  shows "\<exists>m f h t. load_font dev k = Some (Inr (k\<lparr>m_vm := (m_vm k)\<lparr>mem := m, phys := taken (phys (m_vm k)) 1\<rparr>,
      m_fat := f, m_ports := h, m_con := t\<rparr>)) \<and>
    same_outside (boot_writes ke (m_info k) (phys (m_vm k)) H W) (mem (m_vm k)) m \<and>
    shows_text H W [[]] t \<and> device_fits H W t \<and> vesa_info t = m_info k"
proof -
  let ?p = "phys (m_vm k)" and ?f0 = "pool_base (pool (phys (m_vm k)))"
  let ?m = "store_bytes (mem (m_vm k)) ?f0 data"
  have len: "unat ?f0 + length data \<le> 0x80000000"
    using layout assms(3) by (simp add: boot_layout_def)
  have heights: "32 \<le> H" "H \<le> 95" "44 \<le> W" "W \<le> 128" using layout by (simp_all add: boot_layout_def)
  obtain f h t where r: "load_font dev k = Some (Inr (k\<lparr>m_vm := (m_vm k)\<lparr>mem := ?m, phys := taken ?p 1\<rparr>,
      m_fat := f, m_ports := h, m_con := t\<rparr>))"
    "init_text_terminal (kernel_view ?m) (?f0 + KERNEL_BASE) (m_info k) (m_con k) = Inr t"
    using load_font_result [OF assms(1,2) _ _ assms(6) _ refl len] assms(4,5,7) by auto
  note dev = init_text_terminal_device [OF r(2)]
    install_font_bytes(1,2) [OF len assms(2), where m = "mem (m_vm k)" and t = "m_con k", unfolded assms(4,5)]
  have size: "unat (term_height (terminal t)) = H" "unat (term_width (terminal t)) = W"
    using dev assms(9,10) by (simp_all add: unat_div unat_ucast_u16)
  have "shows_text H W [[]] t"
    using heights by (intro init_shows [OF r(2) size]) simp_all
  moreover have "device_fits H W t"
    using dev boot_layout_apart(4) [OF layout] by (simp add: device_fits_def)
  moreover have "?m x = mem (m_vm k) x" if "\<not> pool_range ?p x" for x
    using that len assms(3) in_range_iff [of ?f0 "length data" x] by (auto simp: store_bytes_apply pool_range_def)
  then have "same_outside (boot_writes ke (m_info k) ?p H W) (mem (m_vm k)) ?m"
    by (simp add: same_outside_def boot_writes_def)
  ultimately show ?thesis using r(1) dev by blast
qed

section \<open>From the boot loader to the first process\<close>

lemma setup_interrupts_sch: "sch (setup_interrupts v i k) = sch k"
proof -
  have "sch (setup_loop v n k) = sch k" for n
  proof (induction v n k rule: setup_loop.induct)
    case (1 v n k)
    then show ?case by (subst setup_loop.simps) (simp add: set_idt_entry_def)
  qed
  then show ?thesis by (simp add: setup_interrupts_def load_idt_def emit_def)
qed

lemma boot_pool_ready:
  assumes "boot_layout ke info p H W" and "bitmap (pool p) = replicate 100 0" and "100 \<le> unat (pages (pool p))"
  shows "pmm_inv (taken p 1)" and "free_count (taken p 1) = 99"
proof -
  show "pmm_inv (taken p 1)" using assms(1) by (simp add: pmm_inv_def boot_layout_def)
  show "free_count (taken p 1) = 99" using free_count_taken [of 1 p] assms(3) by simp
qed

text \<open>What the last step needs is there when the tables have been walked.\<close>

lemma find_controllers_keeps:
  assumes "acpi_step H W n (acpi_of k) s" and "boot_layout ke (vesa_info (m_con k)) (phys (m_vm k)) H W"
    and "heap_ok ((m_heap k)\<lparr>hmem := kernel_view (mem (m_vm k))\<rparr>) [] 131072"
    and "heap_start (m_heap k) = of_nat (heap_base ke)"
  shows "heap_ok ((m_heap k)\<lparr>hmem := kernel_view (mem (ac_vm s))\<rparr>) [] 131072"
    and "base_of (ac_vm s) = base_of (m_vm k)" and "vm_inv (ac_vm s)"
    and "translate (m_vm k) a = Some b \<Longrightarrow> translate (ac_vm s) a = Some b"
proof -
  have fits: "heap_fits ke" using assms(2) by (simp add: boot_layout_def)
  have same: "same_outside (scratch H W (acpi_of k)) (mem (m_vm k)) (mem (ac_vm s))"
    using acpi_step_same [OF assms(1)] by simp
  show "heap_ok ((m_heap k)\<lparr>hmem := kernel_view (mem (ac_vm s))\<rparr>) [] 131072"
  proof -
    have "kernel_view (mem (ac_vm s)) x = kernel_view (mem (m_vm k)) x"
      if "in_range x (of_nat (heap_base ke)) 0x100000" for x
      using in_heap_range [OF fits that] boot_layout_apart(2,3) [OF assms(2)] same
      by (simp add: kernel_view_def same_outside_def scratch_def)
    from heap_ok_memory [OF assms(3), of "kernel_view (mem (ac_vm s))"] this assms(4) show ?thesis by simp
  qed
  show "base_of (ac_vm s) = base_of (m_vm k)" "vm_inv (ac_vm s)"
    using assms(1) by (simp_all add: acpi_step_def acpi_inv_def)
  show "translate (ac_vm s) a = Some b" if "translate (m_vm k) a = Some b"
    using assms(1) that by (cases "mapping (m_vm k) a") (auto simp: acpi_step_def translate_def)
qed

text \<open>A page of the kernel is not that of a controller, whose address has 32 bits.\<close>

lemma kernel_page_apart:
  assumes "unat a < 0x1900000"
  shows "\<not> same_page (ucast (c :: u32)) (KERNEL_BASE + a)"
proof -
  have "page_no (ucast c) < 2 ^ 20"
    using page_no_low [of "ucast c"] unsigned_less [of c, where 'a = nat] by (simp add: unat_ucast_u32)
  then show ?thesis using page_no_kernel(2) [OF assms] by (simp add: same_page_no)
qed

text \<open>
  The machine the boot loader hands over: the memory map gives a pool of at least 100 frames and,
  with the screen mode, a layout as above; the disk has the font; the tables of the firmware lie
  where no step writes, and their MADT is among the first twelve; no process is there yet.
\<close>

definition handed_over ::
    "device \<Rightarrow> (u32 \<Rightarrow> u8 list) \<Rightarrow> u8 list \<Rightarrow> boot_env \<Rightarrow> machine \<Rightarrow> pmm \<Rightarrow> vbe_mode_info \<Rightarrow>
     u64 list \<Rightarrow> u64 \<Rightarrow> u64 list \<Rightarrow> bool" where
  "handed_over dev disk font env k p info ts madt rs \<longleftrightarrow>
     (let H = unat (vbe_height info) div 16; W = unat (vbe_width info) div 8; ke = kernel_end env in
      font_file dev disk (m_fat k) (m_ports k) font \<and> 4128 \<le> length font \<and> length font \<le> 0x64000 \<and>
      le32 font 24 = 16 \<and> le32 font 28 = 8 \<and>
      100 \<le> unat (pages (pool p)) \<and> boot_layout ke info p H W \<and>
      acpi_tables (mem (m_vm k)) (boot_writes ke info p H W) ts madt rs \<and> length ts < 12 \<and>
      sched_ok (sch (m_irq k)) \<and> counter (sch (m_irq k)) = 0)"

lemma boot_to_mapped:
  assumes "p = init_pmm (mem (m_vm k)) KERNEL_BASE (kernel_end env) memorymaps (phys (m_vm k))"
    and "info = init_vesa (mem (m_vm k)) vesa" and "handed_over dev disk font env k p info ts madt rs"
    and "H = unat (vbe_height info) div 16" and "W = unat (vbe_width info) div 8"
  shows "\<exists>k1 k2. load_font dev (start_basics env memorymaps vesa k) = Some (Inr k1) \<and>
    map_memory env k1 = Some (Inr k2) \<and> acpi_inv H W (acpi_of k2) \<and> vesa_info (m_con k2) = info \<and>
    base_of (m_vm k2) = pool_base (pool p) \<and> 44 \<le> free_count (phys (m_vm k2)) \<and>
    (\<forall>a. unat a < 0x1900000 \<longrightarrow> translate (m_vm k2) (KERNEL_BASE + a) = Some a) \<and>
    heap_ok ((m_heap k2)\<lparr>hmem := kernel_view (mem (m_vm k2))\<rparr>) [] 131072 \<and>
    heap_start (m_heap k2) = of_nat (heap_base (kernel_end env)) \<and>
    m_irq k2 = setup_interrupts (vector_0_handler env) (idt_address env) (m_irq k) \<and> m_apic k2 = m_apic k \<and>
    same_outside (boot_writes (kernel_end env) info p H W) (mem (m_vm k)) (mem (m_vm k2))"
proof -
  let ?ke = "kernel_end env" and ?C = "boot_writes (kernel_end env) info p H W"
  have hand: "font_file dev disk (m_fat k) (m_ports k) font" "4128 \<le> length font" "length font \<le> 0x64000"
    "le32 font 24 = 16" "le32 font 28 = 8" "100 \<le> unat (pages (pool p))" "boot_layout ?ke info p H W"
    using assms(3) by (simp_all add: handed_over_def Let_def assms(4,5))
  let ?k0 = "start_basics env memorymaps vesa k"
  have k0: "m_fat ?k0 = m_fat k" "m_ports ?k0 = m_ports k" "phys (m_vm ?k0) = p" "mem (m_vm ?k0) = mem (m_vm k)"
    "m_info ?k0 = info" "m_irq ?k0 = setup_interrupts (vector_0_handler env) (idt_address env) (m_irq k)"
    "m_apic ?k0 = m_apic k" "bitmap (pool p) = replicate 100 0"
    by (simp_all add: start_basics_def Let_def assms(1,2) init_pmm_eq)
  obtain m f h t where font: "load_font dev ?k0 = Some (Inr (?k0\<lparr>m_vm := (m_vm ?k0)\<lparr>mem := m, phys := taken p 1\<rparr>,
      m_fat := f, m_ports := h, m_con := t\<rparr>))" "same_outside ?C (mem (m_vm k)) m"
    "shows_text H W [[]] t" "device_fits H W t" "vesa_info t = info"
    using load_font_step [of dev disk ?k0 font ?ke H W, unfolded k0] hand k0(8) assms(4,5) by blast
  define k1 where "k1 = ?k0\<lparr>m_vm := (m_vm ?k0)\<lparr>mem := m, phys := taken p 1\<rparr>, m_fat := f, m_ports := h, m_con := t\<rparr>"
  have k1: "phys (m_vm k1) = taken p 1" "m_info k1 = info" "mem (m_vm k1) = m" "m_con k1 = t" "m_irq k1 = m_irq ?k0"
    "m_apic k1 = m_apic k" by (simp_all add: k1_def k0)
  note ready = boot_pool_ready [OF hand(7) k0(8) hand(6)]
  have lay: "boot_layout ?ke info (taken p 1) H W" "boot_writes ?ke info (taken p 1) H W = ?C"
    using hand(7) boot_layout_pool [of "taken p 1" p] by simp_all
  obtain s hp where s: "map_memory env k1 = Some (Inr (k1\<lparr>m_vm := s, m_heap := hp\<rparr>))" "vm_inv s"
    "base_of s = pool_base (pool p)" "44 \<le> free_count (phys s)"
    "\<forall>a. unat a < 0x1900000 \<longrightarrow> translate s (KERNEL_BASE + a) = Some a"
    "heap_ok (hp\<lparr>hmem := kernel_view (mem s)\<rparr>) [] 131072" "heap_start hp = of_nat (heap_base ?ke)"
    "same_outside ?C m (mem s)"
    using map_memory_step [of k1 env H W, unfolded k1] ready lay by (auto simp: base_of_def k1)
  have "boot_layout ?ke info (phys s) H W"
    using hand(7) boot_layout_pool [of "phys s" p] s(3) by (simp add: base_of_def)
  then have "acpi_inv H W (acpi_of (k1\<lparr>m_vm := s, m_heap := hp\<rparr>))"
    using s(2) font(3-5) boot_layout_apart(1) by (auto simp: acpi_inv_def k1)
  then show ?thesis
    using font(1) [folded k1_def] s(1,3-7) same_outside_trans [OF font(2) s(8)] k1(4-6) font(5) k0(6)
    by - (rule exI [of _ k1], rule exI [of _ "k1\<lparr>m_vm := s, m_heap := hp\<rparr>"], simp)
qed

lemma boot_to_processes:
  assumes "p = init_pmm (mem (m_vm k)) KERNEL_BASE (kernel_end env) memorymaps (phys (m_vm k))"
    and "info = init_vesa (mem (m_vm k)) vesa" and hand: "handed_over dev disk font env k p info ts madt rs"
    and "H = unat (vbe_height info) div 16" and "W = unat (vbe_width info) div 8"
  shows "\<exists>k3. start dev env memorymaps vesa k = oseq (start_processes env k3) (\<lambda>k. Some (Inr (Some k))) \<and>
    acpi_inv H W (acpi_of k3) \<and> vesa_info (m_con k3) = info \<and>
    vm_inv (m_vm k3) \<and> 3 \<le> free_count (phys (m_vm k3)) \<and> base_of (m_vm k3) = pool_base (pool p) \<and>
    heap_ok ((m_heap k3)\<lparr>hmem := kernel_view (mem (m_vm k3))\<rparr>) [] 131072 \<and>
    heap_start (m_heap k3) = of_nat (heap_base (kernel_end env)) \<and>
    m_irq k3 = setup_interrupts (vector_0_handler env) (idt_address env) (m_irq k) \<and>
    m_apic k3 = controllers (mem (m_vm k)) madt rs (m_apic k) \<and>
    (\<forall>a. unat a < 0x1900000 \<longrightarrow> translate (m_vm k3) (KERNEL_BASE + a) = Some a)"
proof -
  let ?ke = "kernel_end env" and ?m0 = "mem (m_vm k)" and ?C = "boot_writes (kernel_end env) info p H W"
  have lay: "boot_layout ?ke info p H W" and tab: "acpi_tables ?m0 ?C ts madt rs" and few: "length ts < 12"
    using hand by (simp_all add: handed_over_def Let_def assms(4,5))
  obtain k1 k2 where k2: "load_font dev (start_basics env memorymaps vesa k) = Some (Inr k1)"
    "map_memory env k1 = Some (Inr k2)" "acpi_inv H W (acpi_of k2)" "vesa_info (m_con k2) = info"
    "base_of (m_vm k2) = pool_base (pool p)" "44 \<le> free_count (phys (m_vm k2))"
    "\<forall>a. unat a < 0x1900000 \<longrightarrow> translate (m_vm k2) (KERNEL_BASE + a) = Some a"
    "heap_ok ((m_heap k2)\<lparr>hmem := kernel_view (mem (m_vm k2))\<rparr>) [] 131072"
    "heap_start (m_heap k2) = of_nat (heap_base ?ke)"
    "m_irq k2 = setup_interrupts (vector_0_handler env) (idt_address env) (m_irq k)" "m_apic k2 = m_apic k"
    "same_outside ?C ?m0 (mem (m_vm k2))"
    using boot_to_mapped [OF assms] by blast
  have lay2: "boot_layout ?ke (vesa_info (m_con k2)) (phys (m_vm k2)) H W"
    "boot_writes ?ke info (phys (m_vm k2)) H W = ?C"
    using lay boot_layout_pool [of "phys (m_vm k2)" p] k2(4,5) by (simp_all add: base_of_def)
  note tables = acpi_tables_same [OF k2(12) tab]
  have "scratch H W (acpi_of k2) x \<Longrightarrow> ?C x" for x
    using k2(4) by (auto simp: scratch_def boot_writes_def lay2(2) [symmetric])
  then have tab2: "acpi_tables (mem (m_vm k2)) (scratch H W (acpi_of k2)) ts madt rs"
    using acpi_tables_mono [OF tables(1)] by blast
  have "3 * (length ts + 2) \<le> free_count (phys (m_vm k2))" using few k2(6) by simp
  then obtain s where s: "find_controllers k2 = Some (Inr (Some (with_acpi s k2)))"
    "acpi_step H W (3 * (length ts + 2)) (acpi_of k2) s" "ac_apic s = controllers ?m0 madt rs (m_apic k)"
    using find_controllers_step [OF k2(3) tab2] tables(2) k2(11) by auto
  have "3 \<le> free_count (phys (ac_vm s))"
    using acpi_step_frames [OF s(2)] k2(6) few by simp
  moreover have "acpi_of (with_acpi s k2) = s" by (simp add: acpi_of_def with_acpi_def)
  then have "acpi_inv H W (acpi_of (with_acpi s k2))" "vesa_info (ac_con s) = info"
    using s(2) k2(4) by (simp_all add: acpi_step_def acpi_of_def)
  ultimately show ?thesis
    using k2(1,2,5,7,9,10) s(1,3) find_controllers_keeps [OF s(2) lay2(1) k2(8,9)]
    by (intro exI [of _ "with_acpi s k2"]) (simp add: with_acpi_def start_def)
qed

section \<open>Properties\<close>

lemma start_result:
  assumes "p = init_pmm (mem (m_vm k)) KERNEL_BASE (kernel_end env) memorymaps (phys (m_vm k))"
    and "info = init_vesa (mem (m_vm k)) vesa" and "handed_over dev disk font env k p info ts madt rs"
    and "H = unat (vbe_height info) div 16" and "W = unat (vbe_width info) div 8"
  shows "\<exists>k3 k'. start dev env memorymaps vesa k = Some (Inr (Some k')) \<and> start_processes env k3 = Some (Inr k') \<and>
    acpi_inv H W (acpi_of k3) \<and> vesa_info (m_con k3) = info \<and> 3 \<le> free_count (phys (m_vm k3)) \<and> heap_fits (kernel_end env) \<and>
    unat (kernel_end env) - 0xFFFFFFFF80000000 + 0x101000 \<le> unat (base_of (m_vm k3)) \<and>
    heap_ok ((m_heap k3)\<lparr>hmem := kernel_view (mem (m_vm k3))\<rparr>) [] 131072 \<and>
    heap_start (m_heap k3) = of_nat (heap_base (kernel_end env)) \<and>
    sched_ok (sch (m_irq k3)) \<and> counter (sch (m_irq k3)) = 0 \<and>
    m_irq k3 = setup_interrupts (vector_0_handler env) (idt_address env) (m_irq k) \<and>
    m_apic k3 = controllers (mem (m_vm k)) madt rs (m_apic k) \<and> vm_inv (m_vm k') \<and>
    (\<forall>a. unat a < 0x1900000 \<longrightarrow> translate (m_vm k') (KERNEL_BASE + a) = Some a)"
proof -
  let ?ke = "kernel_end env"
  obtain k3 where k3: "start dev env memorymaps vesa k = oseq (start_processes env k3) (\<lambda>k. Some (Inr (Some k)))"
    "vm_inv (m_vm k3)" "3 \<le> free_count (phys (m_vm k3))" "base_of (m_vm k3) = pool_base (pool p)"
    "heap_ok ((m_heap k3)\<lparr>hmem := kernel_view (mem (m_vm k3))\<rparr>) [] 131072"
    "heap_start (m_heap k3) = of_nat (heap_base ?ke)"
    "m_irq k3 = setup_interrupts (vector_0_handler env) (idt_address env) (m_irq k)"
    "m_apic k3 = controllers (mem (m_vm k)) madt rs (m_apic k)"
    "\<forall>a. unat a < 0x1900000 \<longrightarrow> translate (m_vm k3) (KERNEL_BASE + a) = Some a"
    "acpi_inv H W (acpi_of k3)" "vesa_info (m_con k3) = info"
    using boot_to_processes [OF assms] by blast
  have lay: "heap_fits ?ke" "unat ?ke - 0xFFFFFFFF80000000 + 0x101000 \<le> unat (base_of (m_vm k3))"
    "sched_ok (sch (m_irq k3))" "counter (sch (m_irq k3)) = 0"
    using assms(3) k3(4) by (simp_all add: handed_over_def Let_def boot_layout_def k3(7) setup_interrupts_sch)
  obtain k' where k': "start_processes env k3 = Some (Inr k')" "vm_inv (m_vm k')"
    "\<forall>va. \<not> same_page (local_apic (m_apic k3)) va \<longrightarrow> mapping (m_vm k') va = mapping (m_vm k3) va"
    using start_processes_ready [OF k3(2,3) lay(1,2) k3(5,6) lay(3,4)] by blast
  have "translate (m_vm k') (KERNEL_BASE + a) = Some a" if "unat a < 0x1900000" for a
    using k'(3) k3(8,9) that kernel_page_apart [OF that] by (simp add: translate_def controllers_def)
  then show ?thesis
    using k3(1,3,5-8,10,11) k'(1,2) lay by (intro exI [of _ k3] exI [of _ k']) simp
qed


text \<open>
  A machine with 64 MiB behind the first megabyte, a memory map at 0x5000 that says so, a 32-bit
  mode of 1024 by 768 pixels described at 0x6000, the tables of \<open>sample_tables\<close>, and the drive
  \<open>font_disk\<close>.
\<close>

definition boot_memory :: memory where
  "boot_memory a = (if a = 0x5002 then 0x10 else if a = 0x500B then 4 else if a = 0x5010 then 1
     else if a = 0x6011 then 0x10 else if a = 0x6013 then 4 else if a = 0x6015 then 3
     else if a = 0x6019 then 32 else if a = 0x602B then 0xFD else sample_tables a)"

definition first_machine :: machine where
  "first_machine = boot_machine\<lparr>m_vm := (m_vm boot_machine)\<lparr>mem := boot_memory\<rparr>\<rparr>"

definition first_pool :: pmm where
  "first_pool = init_pmm boot_memory KERNEL_BASE (kernel_end sample_env) 0x5000 sample_pmm"

lemma boot_memory_tables: "\<not> (0x5000 \<le> unat a \<and> unat a < 0x7000) \<Longrightarrow> boot_memory a = sample_tables a"
  by (auto simp: boot_memory_def)

lemma boot_memory_entries:
  "e820_entries boot_memory 0x5000 = [\<lparr>base = 0x100000, region_length = 0x4000000, region_type = 1, acpi = 0\<rparr>]"
proof -
  have e0: "read_e820 boot_memory 0x5000 = \<lparr>base = 0x100000, region_length = 0x4000000, region_type = 1, acpi = 0\<rparr>"
    by (simp add: read_e820_def load64_def load32_def boot_memory_def sample_tables_def sample_madt_def mem_eval)
  have e1: "read_e820 boot_memory 0x5018 = \<lparr>base = 0, region_length = 0, region_type = 0, acpi = 0\<rparr>"
    by (simp add: read_e820_def load64_def load32_def boot_memory_def sample_tables_def sample_madt_def mem_eval)
  have "[0..<50] = 0 # 1 # [2..<50]" by (simp add: upt_conv_Cons)
  then show ?thesis
    by (simp only: e820_entries_def list.map takeWhile.simps) (simp add: e0 e1 e820_end_def)
qed

lemma first_pool_facts:
  "pool_base (pool first_pool) = 0x109000" "pages (pool first_pool) = 0x3FF8"
  by (simp_all add: first_pool_def init_pmm_eq boot_memory_entries pool_candidate_def pool_of_entry_def
      sample_env_def KERNEL_BASE_def Let_def)

lemma init_vesa_fields:
  "vbe_pitch (init_vesa m a) = load16 m (ucast a + 16)" "vbe_width (init_vesa m a) = load16 m (ucast a + 18)"
  "vbe_height (init_vesa m a) = load16 m (ucast a + 20)" "vbe_bpp (init_vesa m a) = m (ucast a + 25)"
  "vbe_framebuffer (init_vesa m a) = load32 m (ucast a + 40)"
  by (simp_all add: init_vesa_def Let_def del: upt_rec_numeral)

lemma first_mode:
  "vbe_pitch (init_vesa boot_memory 0x6000) = 4096" "vbe_width (init_vesa boot_memory 0x6000) = 1024"
  "vbe_height (init_vesa boot_memory 0x6000) = 768" "vbe_bpp (init_vesa boot_memory 0x6000) = 32"
  "vbe_framebuffer (init_vesa boot_memory 0x6000) = 0xFD000000"
  by (simp_all add: init_vesa_fields load16_def load32_def boot_memory_def sample_tables_def
      sample_madt_def mem_eval)

lemma sample_heap_phys: "0x8000 < heap_phys (kernel_end sample_env)" "heap_phys (kernel_end sample_env) \<le> 0x9000"
proof -
  have ke: "unat (kernel_end sample_env) = 0xFFFFFFFF80008000" by (simp add: sample_env_def)
  then have "unat (kernel_end sample_env) + 0x1000 < 2 ^ 64" by simp
  from heap_base_less [OF this] show "0x8000 < heap_phys (kernel_end sample_env)"
    "heap_phys (kernel_end sample_env) \<le> 0x9000"
    unfolding ke heap_phys_def by arith+
qed

lemma first_tables:
  "acpi_tables boot_memory (boot_writes (kernel_end sample_env) (init_vesa boot_memory 0x6000) first_pool 48 128)
     [] 0x1000 [0x102C, 0x1034]" (is "acpi_tables _ ?C _ _ _")
proof -
  let ?D = "\<lambda>x. ?C x \<or> 0x5000 \<le> unat x \<and> unat x < 0x7000"
  have "0x4000 \<le> unat x \<and> \<not> (0xE0000 \<le> unat x \<and> unat x < 0x100000)" if "?D x" for x
    using that sample_heap_phys
    by (auto simp: boot_writes_def pool_range_def in_frame_def first_pool_facts first_mode)
  then have "acpi_tables sample_tables ?D [] 0x1000 [0x102C, 0x1034]" by (rule sample_acpi_tables)
  moreover have "same_outside ?D sample_tables boot_memory"
    using boot_memory_tables by (simp add: same_outside_def)
  ultimately have "acpi_tables boot_memory ?D [] 0x1000 [0x102C, 0x1034]" using acpi_tables_same(1) by blast
  then show ?thesis by (rule acpi_tables_mono) simp
qed

lemma first_handed_over:
  "handed_over (drive font_disk) font_disk font_data sample_env first_machine first_pool
     (init_vesa boot_memory 0x6000) [] 0x1000 [0x102C, 0x1034]"
proof -
  have "boot_layout (kernel_end sample_env) (init_vesa boot_memory 0x6000) first_pool 48 128"
    using sample_env_fits
    by (simp add: boot_layout_def first_pool_facts first_mode extent_def pixel_bytes_def sample_env_def)
  then show ?thesis
    using first_tables font_data_file font_data_facts
    by (simp add: handed_over_def first_mode first_pool_facts first_machine_def boot_machine_def boot_irq_def
        boot_sched_ok sched_ok_def boot_sched_def)
qed

lemma first_machine_pool:
  "first_pool = init_pmm (mem (m_vm first_machine)) KERNEL_BASE (kernel_end sample_env) 0x5000 (phys (m_vm first_machine))"
  "init_vesa boot_memory 0x6000 = init_vesa (mem (m_vm first_machine)) 0x6000"
  by (simp_all add: first_pool_def first_machine_def boot_machine_def)


end
