(* ===== verification/ArraySizes.thy ===== *)
theory ArraySizes
  imports BootWhole
begin

text \<open>
  The sizes of the arrays of the kernel image as a typing of its state: the rows and glyphs of
  the terminal, the frame bitmap, the file list and the sector buffer, the interrupt table and
  the process table. Every operation that returns keeps them, whatever memory, disk and tables
  hold, hence the whole boot sequence and every interrupt after it do; the lists of the model
  stand for arrays of fixed length throughout.
\<close>

section \<open>Results that satisfy a predicate\<close>

definition yields :: "('a \<Rightarrow> bool) \<Rightarrow> 'a res option \<Rightarrow> bool" where
  "yields P r \<longleftrightarrow> (\<forall>x. r = Some (Inr x) \<longrightarrow> P x)"

lemma yieldsD: "yields P r \<Longrightarrow> r = Some (Inr x) \<Longrightarrow> P x"
  by (simp add: yields_def)

lemma yields_simps [simp]:
  "yields P None" "yields P (Some (Inl e))" "yields P (Some (Inr x)) \<longleftrightarrow> P x"
  by (simp_all add: yields_def)

lemma yields_oseq:
  "yields Q r \<Longrightarrow> (\<And>x. Q x \<Longrightarrow> yields P (f x)) \<Longrightarrow> yields P (oseq r f)"
  by (auto simp: yields_def oseq_def split: option.splits sum.splits)

lemma yields_seq:
  "yields Q (Some r) \<Longrightarrow> (\<And>x. Q x \<Longrightarrow> yields P (Some (f x))) \<Longrightarrow> yields P (Some (seq r f))"
  by (auto simp: yields_def seq_def split: sum.splits)

lemma yields_mono: "yields Q r \<Longrightarrow> (\<And>x. Q x \<Longrightarrow> P x) \<Longrightarrow> yields P r"
  by (auto simp: yields_def)

lemma yields_map_option: "(\<And>x. yields P (Some (f x))) \<Longrightarrow> yields P (map_option f r)"
  by (auto simp: yields_def)

section \<open>The terminal\<close>

definition row_typed :: "terminal_row \<Rightarrow> bool" where
  "row_typed r \<longleftrightarrow> length (characters r) = 128"

definition console_typed :: "console \<Rightarrow> bool" where
  "console_typed t \<longleftrightarrow> length (rows t) = 96 \<and> (\<forall>r\<in>set (rows t). row_typed r) \<and>
     length (glyphs t) = 256 \<and> (\<forall>g\<in>set (glyphs t). length g = 16)"

lemma console_typed_cong:
  "rows t' = rows t \<Longrightarrow> glyphs t' = glyphs t \<Longrightarrow> console_typed t' = console_typed t"
  by (simp add: console_typed_def)

lemma console_typed_row: "console_typed t \<Longrightarrow> y < 96 \<Longrightarrow> row_typed (rows t ! y)"
  by (simp add: console_typed_def)

lemma console_typed_updates [simp]:
  "console_typed (t\<lparr>screen := m\<rparr>) = console_typed t"
  "console_typed (t\<lparr>interrupts := b\<rparr>) = console_typed t"
  "console_typed (move_cursor x y t) = console_typed t"
  "console_typed (render_glyph g x y t) = console_typed t"
  "console_typed (clear_glyph x y t) = console_typed t"
  by (simp_all add: console_typed_def move_cursor_def render_glyph_def clear_glyph_def del: upt_rec_numeral)

lemma set_row_typed: "console_typed t \<Longrightarrow> row_typed r \<Longrightarrow> console_typed (set_row y r t)"
  by (auto simp: console_typed_def set_row_def dest: set_update_subset_insert [THEN subsetD])

lemma print_char_typed: "console_typed t \<Longrightarrow> yields console_typed (Some (print_char c x y t))"
  by (simp add: print_char_def Let_def)

lemma shift_row_typed: "row_typed r \<Longrightarrow> row_typed b \<Longrightarrow> yields row_typed (Some (shift_row r b))"
  by (auto simp: shift_row_def row_typed_def Let_def not_less)

lemma redraw_row_typed: "console_typed t \<Longrightarrow> yields console_typed (Some (redraw_row y b k t))"
  by (induction k arbitrary: b t) (auto simp: Let_def intro!: yields_seq print_char_typed)

lemma fold_clear_typed: "console_typed (fold (\<lambda>x. clear_glyph (f x) y) xs t) = console_typed t"
  by (induction xs arbitrary: t) simp_all

lemma fold_clear_rows: "rows (fold (\<lambda>x. clear_glyph (f x) y) xs t) = rows t"
  by (induction xs arbitrary: t) (simp_all add: clear_glyph_def)

lemma scroll_row_typed:
  assumes "console_typed t"
  shows "yields console_typed (Some (scroll_row y t))"
proof -
  let ?t = "fold (\<lambda>x. clear_glyph (of_nat x * psf_width (psf_header t)) (of_nat y * psf_height (psf_header t)))
      [0..<unat (row_length (rows t ! y))] t"
  have t: "console_typed ?t" using assms by (simp add: fold_clear_typed)
  then have "length (rows ?t) = 96" by (simp add: console_typed_def)
  then show ?thesis
    using t unfolding scroll_row_def Let_def
    by (auto intro!: yields_seq [OF shift_row_typed] redraw_row_typed set_row_typed console_typed_row)
qed

lemma scroll_loop_typed: "console_typed t \<Longrightarrow> yields console_typed (Some (scroll_loop y k t))"
  by (induction k arbitrary: y t) (auto intro!: yields_seq scroll_row_typed)

lemma scroll_typed: "console_typed t \<Longrightarrow> yields console_typed (Some (scroll t))"
  unfolding scroll_def by (rule yields_seq [OF scroll_loop_typed]) simp_all

lemma next_row_typed: "console_typed t \<Longrightarrow> yields console_typed (Some (next_row t))"
  unfolding next_row_def Let_def
  by (rule yields_seq [where Q = console_typed]) (simp_all add: scroll_typed)

lemma store_char_typed: "console_typed t \<Longrightarrow> yields console_typed (Some (store_char c t))"
proof -
  assume t: "console_typed t"
  have "row_typed ((rows t ! y)\<lparr>characters := (characters (rows t ! y))[x := c], row_length := n\<rparr>)"
    if "y < length (rows t)" for x y n
    using console_typed_row [OF t] that t by (simp add: row_typed_def console_typed_def)
  then show ?thesis
    using t by (auto simp: store_char_def Let_def not_le intro!: set_row_typed)
qed

lemma put_char_typed: "console_typed t \<Longrightarrow> yields console_typed (Some (put_char c t))"
  unfolding put_char_def
  by (auto simp: next_row_typed
      intro!: yields_seq [where Q = console_typed] print_char_typed store_char_typed)

lemma printcount_typed: "console_typed t \<Longrightarrow> yields console_typed (Some (printcount str len t))"
proof -
  have "yields console_typed (Some (printcount_loop str i k t))" if "console_typed t" for i k t
    using that by (induction k arbitrary: i t) (auto intro!: yields_seq put_char_typed)
  then show "console_typed t \<Longrightarrow> ?thesis" by (simp add: printcount_def)
qed

lemma print_typed: "console_typed t \<Longrightarrow> yields console_typed (print str t)"
  by (simp add: print_def yields_map_option printcount_typed)

lemma print_hex_typed: "console_typed t \<Longrightarrow> yields console_typed (print_hex n t)"
  unfolding print_hex_def
  by (rule yields_oseq [OF print_typed], assumption, rule yields_oseq [where Q = "\<lambda>_. True"],
      simp add: yields_def, rule yields_oseq [OF printcount_typed], assumption, rule print_typed)

lemma init_text_terminal_typed: "yields console_typed (Some (init_text_terminal m font info t))"
  by (auto simp: init_text_terminal_def Let_def install_font_def console_typed_def row_typed_def
      simp del: upt_rec_numeral)

section \<open>Frames and page tables\<close>

definition pmm_typed :: "pmm \<Rightarrow> bool" where
  "pmm_typed p \<longleftrightarrow> length (bitmap (pool p)) = 100"

definition vm_typed :: "vm \<Rightarrow> bool" where
  "vm_typed s \<longleftrightarrow> pmm_typed (phys s)"

lemma vm_typed_mem [simp]: "vm_typed (s\<lparr>mem := m\<rparr>) = vm_typed s"
  by (simp add: vm_typed_def)

lemma pmm_allocate_typed:
  "pmm_typed p \<Longrightarrow> yields (\<lambda>(a, p'). pmm_typed p') (Some (pmm_allocate p))"
proof -
  have "yields (\<lambda>(a, p'). pmm_typed p') (Some (pmm_allocate_loop p i))" if "pmm_typed p" for p i
    using that
  proof (induction p i rule: pmm_allocate_loop.induct)
    case (1 p i)
    then show ?case
      by (subst pmm_allocate_loop.simps) (auto simp: pmm_typed_def split_def)
  qed
  then show "pmm_typed p \<Longrightarrow> ?thesis" by (simp add: pmm_allocate_def)
qed

lemma next_table_typed: "vm_typed s \<Longrightarrow> yields (\<lambda>(t, s'). vm_typed s') (Some (next_table s table idx))"
  unfolding next_table_def Let_def
  by (auto simp: vm_typed_def intro!: yields_seq [OF pmm_allocate_typed])

lemma map_page_typed: "vm_typed s \<Longrightarrow> yields vm_typed (Some (map_page s va pa))"
  unfolding map_page_def Let_def
  by (rule yields_seq [OF next_table_typed], assumption, clarsimp,
      rule yields_seq [OF next_table_typed], assumption, clarsimp,
      rule yields_seq [OF next_table_typed], assumption, clarsimp)

lemma init_paging_typed: "vm_typed s \<Longrightarrow> yields vm_typed (Some (init_paging ks framebuffer s))"
proof -
  have loop: "yields vm_typed (Some (init_paging_loop ks framebuffer i s))" if "vm_typed s" for i s
    using that
  proof (induction ks framebuffer i s rule: init_paging_loop.induct)
    case (1 ks framebuffer i s)
    show ?case
      using "1.prems"
      by (subst init_paging_loop.simps)
        (auto intro!: yields_seq [OF map_page_typed] "1.IH")
  qed
  assume "vm_typed s"
  then show ?thesis
    unfolding init_paging_def Let_def vm_typed_def
    by (auto intro!: yields_seq [OF pmm_allocate_typed] yields_seq [OF loop] simp: set_cr3_def vm_typed_def)
qed

section \<open>The table walk\<close>

definition acpi_typed :: "acpi_state \<Rightarrow> bool" where
  "acpi_typed s \<longleftrightarrow> console_typed (ac_con s) \<and> vm_typed (ac_vm s)"

lemma acpi_typed_updates [simp]:
  "acpi_typed (s\<lparr>ac_apic := a\<rparr>) = acpi_typed s"
  "vm_typed v \<Longrightarrow> acpi_typed (s\<lparr>ac_vm := v\<rparr>) = console_typed (ac_con s)"
  by (simp_all add: acpi_typed_def)

lemma on_terminal_typed:
  assumes "\<And>t. console_typed t \<Longrightarrow> yields console_typed (f t)"
  shows "acpi_typed s \<Longrightarrow> yields acpi_typed (on_terminal f s)"
  unfolding on_terminal_def
  by (rule yields_oseq [OF assms]) (simp_all add: acpi_typed_def)

lemma say_typed: "acpi_typed s \<Longrightarrow> yields acpi_typed (say str s)"
  and say_hex_typed: "acpi_typed s \<Longrightarrow> yields acpi_typed (say_hex n s)"
  by (simp_all add: say_def say_hex_def on_terminal_typed print_typed print_hex_typed)

lemma map_page_acpi_typed:
  assumes "acpi_typed s" and "\<And>v. vm_typed v \<Longrightarrow> acpi_typed (s\<lparr>ac_vm := v\<rparr>) \<Longrightarrow> yields P (f v)"
  shows "yields P (oseq (Some (map_page (ac_vm s) va pa)) f)"
  using assms by (intro yields_oseq [OF map_page_typed]) (simp_all add: acpi_typed_def)

lemma madt_record_typed: "acpi_typed s \<Longrightarrow> yields acpi_typed (madt_record announce r s)"
  unfolding madt_record_def Let_def
  by (auto intro!: yields_oseq [where Q = acpi_typed] say_typed say_hex_typed)

lemma madt_loop_typed: "acpi_typed s \<Longrightarrow> yields acpi_typed (madt_loop announce r e s)"
proof -
  have "acpi_typed s \<longrightarrow> (\<forall>s'. x = Inr s' \<longrightarrow> acpi_typed s')" if "madt_loop announce r e s = Some x" for x
    by (rule madt_loop.raw_induct [where P = "\<lambda>announce r e s x. acpi_typed s \<longrightarrow> (\<forall>s'. x = Inr s' \<longrightarrow> acpi_typed s')",
          OF _ that])
      (auto split: if_splits option.splits sum.splits dest: madt_record_typed [THEN yieldsD])
  then show "acpi_typed s \<Longrightarrow> ?thesis" by (auto simp: yields_def)
qed

lemma parse_madt_typed: "acpi_typed s \<Longrightarrow> yields acpi_typed (parse_madt announce madt s)"
  by (simp add: parse_madt_def madt_loop_typed)

lemma parse_rsdt_typed: "acpi_typed s \<Longrightarrow> yields acpi_typed (parse_rsdt rsdt s)"
proof -
  have "yields acpi_typed (rsdt_loop rsdt i s)" if "acpi_typed s" for i
    using that
  proof (induction rsdt i s rule: rsdt_loop.induct)
    case (1 rsdt i s)
    then show ?case by (subst rsdt_loop.simps) (simp add: Let_def parse_madt_typed)
  qed
  then show "acpi_typed s \<Longrightarrow> ?thesis" by (simp add: parse_rsdt_def)
qed

lemma xsdt_entry_typed: "acpi_typed s \<Longrightarrow> yields (\<lambda>(b, s'). acpi_typed s') (xsdt_entry xsdt i s)"
  unfolding xsdt_entry_def Let_def
  by (auto intro!: yields_oseq [OF say_typed] yields_oseq [OF say_hex_typed] map_page_acpi_typed
      yields_oseq [OF on_terminal_typed, OF print_typed] yields_oseq [OF parse_madt_typed])

lemma xsdt_loop_typed: "acpi_typed s \<Longrightarrow> yields acpi_typed (xsdt_loop xsdt n i s)"
proof (induction xsdt n i s rule: xsdt_loop.induct)
  case (1 xsdt n i s)
  then show ?case
    using xsdt_entry_typed [OF "1.prems", of xsdt i, THEN yieldsD]
    by (subst xsdt_loop.simps) (auto split: option.splits sum.splits)
qed

definition result_typed :: "acpi_result \<Rightarrow> bool" where
  "result_typed r \<longleftrightarrow> (case r of Halted s \<Rightarrow> acpi_typed s | Parsed s \<Rightarrow> acpi_typed s)"

lemma parse_acpi_typed: "acpi_typed s \<Longrightarrow> yields result_typed (parse_acpi s)"
  unfolding parse_acpi_def parse_xsdt_def Let_def
  by (auto simp: result_typed_def intro!: yields_oseq [OF say_typed] map_page_acpi_typed
      yields_oseq [where Q = acpi_typed] say_typed xsdt_loop_typed parse_rsdt_typed)

section \<open>The file system\<close>

definition fat_typed :: "fat \<Rightarrow> bool" where
  "fat_typed f \<longleftrightarrow> length (files f) = 5 \<and> length (buffer f) = 512"

lemma length_read_words: "length (fst (read_words dev n h)) = 2 * n"
  by (induction n arbitrary: h) (simp_all add: Let_def split_def)

lemma length_read_sector: "read_sector dev lba h = Some (d, h') \<Longrightarrow> length d = 512"
proof -
  assume "read_sector dev lba h = Some (d, h')"
  then obtain h'' where "d = fst (read_words dev 256 h'')"
    unfolding read_sector_def Let_def split_def by (auto split: option.splits)
  then show "length d = 512" by (simp only: length_read_words)
qed

lemma directory_loop_length:
  "directory_loop buf i fs n found = Inr fs' \<Longrightarrow> length fs' = length fs"
proof (induction buf i fs n found rule: directory_loop.induct)
  case (1 buf i fs n found)
  from "1.prems" show ?case
    by (subst (asm) directory_loop.simps) (auto split: if_splits dest: "1.IH")
qed

lemma init_fat_typed:
  "fat_typed f \<Longrightarrow> yields (\<lambda>(f', h'). fat_typed f') (init_fat (read_sector dev) f h)"
  by (auto simp: init_fat_def process_directory_area_def yields_def seq_eq_Inr fat_typed_def
      split: option.splits dest!: directory_loop_length length_read_sector)

section \<open>The machine\<close>

definition irq_typed :: "irq \<Rightarrow> bool" where
  "irq_typed q \<longleftrightarrow> length (idt q) = 256 \<and> sched_ok (sch q)"

definition machine_typed :: "machine \<Rightarrow> bool" where
  "machine_typed k \<longleftrightarrow> vm_typed (m_vm k) \<and> irq_typed (m_irq k) \<and> fat_typed (m_fat k) \<and> console_typed (m_con k)"

text \<open>Before \<open>start\<close> only the interrupt and process tables and the file list matter: \<open>init_pmm\<close>
  clears the bitmap and \<open>init_text_terminal\<close> the rows.\<close>

definition image_typed :: "machine \<Rightarrow> bool" where
  "image_typed k \<longleftrightarrow> irq_typed (m_irq k) \<and> fat_typed (m_fat k)"

lemma start_basics_typed:
  "image_typed k \<Longrightarrow> image_typed (start_basics env memorymaps vesa k) \<and>
     vm_typed (m_vm (start_basics env memorymaps vesa k))"
proof -
  have "length (idt (setup_loop v0 i q)) = length (idt q)" for v0 i q
    by (induction v0 i q rule: setup_loop.induct) (subst setup_loop.simps, simp)
  then have "irq_typed q \<Longrightarrow> irq_typed (setup_interrupts v0 a q)" for v0 a q
    using setup_interrupts_sch [of v0 a q]
    by (simp add: irq_typed_def) (simp add: setup_interrupts_def load_idt_def emit_def)
  then show "image_typed k \<Longrightarrow> ?thesis"
    by (simp add: start_basics_def image_typed_def Let_def vm_typed_def pmm_typed_def init_pmm_def)
qed

lemma load_font_typed: "image_typed k \<Longrightarrow> vm_typed (m_vm k) \<Longrightarrow> yields machine_typed (load_font dev k)"
  unfolding load_font_def Let_def
  by (rule yields_oseq [OF pmm_allocate_typed], simp add: vm_typed_def, clarsimp,
      rule yields_oseq [OF init_fat_typed], simp add: image_typed_def, clarsimp,
      rule yields_oseq [where Q = "\<lambda>_. True"], simp add: yields_def, clarsimp split: prod.splits,
      rule yields_oseq [OF init_text_terminal_typed])
    (simp add: machine_typed_def image_typed_def vm_typed_def)

lemma map_memory_typed: "machine_typed k \<Longrightarrow> yields machine_typed (map_memory env k)"
  unfolding map_memory_def Let_def
  by (rule yields_oseq [OF init_paging_typed]) (simp_all add: machine_typed_def vm_typed_def)

lemma find_controllers_typed:
  "machine_typed k \<Longrightarrow> yields (\<lambda>r. \<forall>k'. r = Some k' \<longrightarrow> machine_typed k') (find_controllers k)"
  unfolding find_controllers_def Let_def
  by (rule yields_oseq [OF parse_acpi_typed])
    (auto simp: machine_typed_def acpi_of_def acpi_typed_def result_typed_def with_acpi_def
      split: acpi_result.splits
      intro!: yields_oseq [where Q = acpi_typed] say_typed say_hex_typed)

lemma init_apic_typed:
  "vm_typed (space a) \<Longrightarrow> yields (\<lambda>a'. vm_typed (space a')) (Some (init_apic b c a))"
  unfolding init_apic_def Let_def
  by (rule yields_seq [OF map_page_typed]) (simp_all add: write_msr_def APIC_REG_def out_def Let_def)

lemma init_scheduler_typed:
  "init_scheduler a b c s h = Some (s', h') \<Longrightarrow> sched_ok s \<Longrightarrow> sched_ok s'"
  by (auto simp: init_scheduler_def Let_def sched_ok_set_process split: option.splits)

lemma start_processes_typed: "machine_typed k \<Longrightarrow> yields machine_typed (start_processes env k)"
  unfolding start_processes_def Let_def
  apply (rule yields_oseq [where Q = "\<lambda>(s, h). sched_ok s"])
  subgoal by (auto simp: yields_def machine_typed_def irq_typed_def dest: init_scheduler_typed)
  subgoal by (clarsimp, rule yields_oseq [OF init_apic_typed])
      (simp_all add: machine_typed_def irq_typed_def set_memory_def)
  done

lemma interrupt_typed: "irq_typed q \<Longrightarrow> irq_typed (snd (interrupt_general_handler c q))"
  by (simp add: interrupt_general_handler_def irq_typed_def emit_def Let_def sched_ok_save)

section \<open>Properties\<close>

text \<open>C3 start_keeps_types. Whatever memory, the disk, the memory map and the ACPI tables hold, a
  run of \<open>start\<close> that gets to its endless loop leaves every array of the kernel image at its
  declared length: 100 bytes of frame bitmap, 96 rows of 128 characters, 256 glyphs of 16 bytes, 5
  files and a sector of buffer, 256 descriptors and 4 processes with a counter below 4; and every
  sequence of interrupts afterwards keeps the descriptors and the process table so. Only the
  lengths of the descriptor, process and file tables are assumed of the image.\<close>
theorem start_keeps_types:
  assumes "image_typed k" and "start dev env memorymaps vesa k = Some (Inr (Some k'))"
  shows "machine_typed k' \<and> (\<forall>cs. irq_typed (fold (\<lambda>c q. snd (interrupt_general_handler c q)) cs (m_irq k')))"
proof -
  note basics = start_basics_typed [OF assms(1), of env memorymaps vesa]
  have "yields (\<lambda>r. \<forall>k'. r = Some k' \<longrightarrow> machine_typed k') (start dev env memorymaps vesa k)"
    unfolding start_def
    by (rule yields_oseq [OF load_font_typed [OF basics [THEN conjunct1] basics [THEN conjunct2]]],
        rule yields_oseq [OF map_memory_typed], assumption,
        rule yields_oseq [OF find_controllers_typed], assumption)
      (auto split: option.splits intro!: yields_oseq [OF start_processes_typed])
  then have k': "machine_typed k'" using assms(2) by (simp add: yields_def)
  have "irq_typed (fold (\<lambda>c q. snd (interrupt_general_handler c q)) cs q)" if "irq_typed q" for cs q
    using that by (induction cs arbitrary: q) (simp_all add: interrupt_typed)
  then show ?thesis using k' by (simp add: machine_typed_def)
qed

lemma first_machine_typed: "image_typed first_machine"
  by (simp add: image_typed_def first_machine_def boot_machine_def boot_irq_def irq_typed_def boot_sched_ok
      empty_fat_def fat_typed_def)

theorem start_keeps_types_witness:
  "\<exists>k'. start (drive font_disk) sample_env 0x5000 0x6000 first_machine = Some (Inr (Some k')) \<and>
     console_typed (m_con k') \<and> length (bitmap (pool (phys (m_vm k')))) = 100"
proof -
  obtain k' where "start (drive font_disk) sample_env 0x5000 0x6000 first_machine = Some (Inr (Some k'))"
    using start_result [OF first_machine_pool first_handed_over refl refl] by blast
  with start_keeps_types [OF first_machine_typed this] show ?thesis
    by (auto simp: machine_typed_def vm_typed_def pmm_typed_def)
qed

end
