(* ===== verification/Processes.thy ===== *)
theory Processes
  imports PrintStep Interrupts
begin

text \<open>
  The three process bodies of \<open>kernel/scheduler.c\<close>: two print a counter for ever, the third
  plays a tune. The printing ones enclose each round in \<open>cli\<close> and \<open>sti\<close>, so that rounds of the
  two can be taken as turns; that scrolling sets the interrupt flag in the middle of a round is
  shown separately.
\<close>

section \<open>The printing processes\<close>

text \<open>What stands between \<open>cli\<close> and \<open>sti\<close>.\<close>

definition print_counter :: "string \<Rightarrow> u64 \<Rightarrow> console \<Rightarrow> console res option" where
  "print_counter name x t =
     oseq (print (bytes_of (chars name)) (t\<lparr>interrupts := False\<rparr>)) (print_hex x)"

definition processA_round :: "u64 \<Rightarrow> console \<Rightarrow> (u64 \<times> console) res option" where
  "processA_round xA t =
     oseq (print_counter ''EKA '' xA t) (\<lambda>t. Some (Inr (xA + 1, t\<lparr>interrupts := True\<rparr>)))"

definition processB_round :: "u64 \<Rightarrow> console \<Rightarrow> (u64 \<times> console) res option" where
  "processB_round xB t =
     oseq (print_counter ''TOINEN '' xB t) (\<lambda>t. Some (Inr (xB + 1, t\<lparr>interrupts := True\<rparr>)))"

text \<open>The endless loops; a result can only be a fault.\<close>

partial_function (option) processA_loop :: "u64 \<Rightarrow> console \<Rightarrow> fault option" where
  "processA_loop xA t =
     (case processA_round xA t of None \<Rightarrow> None | Some (Inl e) \<Rightarrow> Some e
      | Some (Inr (xA, t)) \<Rightarrow> processA_loop xA t)"

partial_function (option) processB_loop :: "u64 \<Rightarrow> console \<Rightarrow> fault option" where
  "processB_loop xB t =
     (case processB_round xB t of None \<Rightarrow> None | Some (Inl e) \<Rightarrow> Some e
      | Some (Inr (xB, t)) \<Rightarrow> processB_loop xB t)"

definition processA :: "console \<Rightarrow> fault option" where
  "processA = processA_loop 0"

definition processB :: "console \<Rightarrow> fault option" where
  "processB = processB_loop 0xFFFFFF"

section \<open>The playing process\<close>

text \<open>
  \<open>clock n\<close> is what the \<open>n\<close>th call of \<open>get_val\<close> returns, the timer's ticks then. The wait
  compares the difference of two \<open>int\<close>s.
\<close>

partial_function (option) wait_ticks :: "(nat \<Rightarrow> s32) \<Rightarrow> s32 \<Rightarrow> nat \<Rightarrow> nat res option" where
  "wait_ticks clock val n =
     (let d = sint (clock n) - sint val in
      if d < - (2 ^ 31) \<or> 2 ^ 31 \<le> d then Some (Inl Signed_Overflow)
      else if d < 100 then wait_ticks clock val (Suc n) else Some (Inr (Suc n)))"

definition play_note :: "device \<Rightarrow> (nat \<Rightarrow> s32) \<Rightarrow> nat \<Rightarrow> nat \<times> trace \<Rightarrow> (nat \<times> trace) res option" where
  "play_note dev clock y = (\<lambda>(n, h).
     let val = clock n; n = Suc n in
     oseq (Some (play_sound dev (ucast (sounds ! y)) h)) (\<lambda>h.
     oseq (wait_ticks clock val n) (\<lambda>n. Some (Inr (n, h)))))"

text \<open>The inner loop from note \<open>y\<close> on, of which \<open>k\<close> are left.\<close>

primrec processC_pass :: "device \<Rightarrow> (nat \<Rightarrow> s32) \<Rightarrow> nat \<Rightarrow> nat \<Rightarrow> nat \<times> trace \<Rightarrow> (nat \<times> trace) res option" where
  "processC_pass dev clock y 0 st = Some (Inr st)"
| "processC_pass dev clock y (Suc k) st =
     oseq (play_note dev clock y st) (processC_pass dev clock (Suc y) k)"

partial_function (option) processC_loop :: "device \<Rightarrow> (nat \<Rightarrow> s32) \<Rightarrow> nat \<times> trace \<Rightarrow> fault option" where
  "processC_loop dev clock st =
     (case processC_pass dev clock 0 5 st of None \<Rightarrow> None | Some (Inl e) \<Rightarrow> Some e
      | Some (Inr st) \<Rightarrow> processC_loop dev clock st)"

section \<open>The interrupt flag while printing\<close>

text \<open>Whether printing from one history of rows to a longer one scrolls a screen of \<open>H\<close> rows.\<close>

definition scrolls :: "nat \<Rightarrow> 'a list \<Rightarrow> 'a list \<Rightarrow> bool" where
  "scrolls H a b \<longleftrightarrow> length a < length b \<and> H < length b"

lemma scrolls_refl [simp]: "\<not> scrolls H a a"
  by (simp add: scrolls_def)

lemma scrolls_trans:
  "length a \<le> length b \<Longrightarrow> length b \<le> length c \<Longrightarrow> scrolls H a b \<or> scrolls H b c \<longleftrightarrow> scrolls H a c"
  by (auto simp: scrolls_def)

lemma length_add_char: "hist \<noteq> [] \<Longrightarrow> length hist \<le> length (add_char W hist c)"
  by (simp add: add_char_def)

lemma length_add_chars: "hist \<noteq> [] \<Longrightarrow> length hist \<le> length (foldl (add_char W) hist s)"
proof (induction s arbitrary: hist)
  case (Cons c s)
  have "length hist \<le> length (add_char W hist c)" using Cons.prems by (rule length_add_char)
  also have "\<dots> \<le> length (foldl (add_char W) (add_char W hist c) s)" by (rule Cons.IH) simp
  finally show ?case by simp
qed simp

lemma next_row_flag:
  assumes "shows_text H W hist t" and "next_row t = Inr t'"
  shows "interrupts t' \<longleftrightarrow> interrupts t \<or> H \<le> length hist"
proof -
  have ok: "0 < H" "H \<le> 95" "term_height (terminal t) = of_nat H" "unat (cursor_y (terminal t)) < H"
    "length (rows t) = 96" "displayed t = last_rows H hist"
    using assms(1) by (auto simp: shows_text_def console_ok_def)
  have "length (displayed t) = unat (cursor_y (terminal t)) + 1"
    using ok by (subst displayed_nth) auto
  then have "unat (cursor_y (terminal t)) + 1 = H \<longleftrightarrow> H \<le> length hist" using ok by auto
  then have "cursor_y (terminal t) + 1 = term_height (terminal t) \<longleftrightarrow> H \<le> length hist"
    using next_row_last(1) [of H W t] assms(1) by (simp add: shows_text_def)
  then show ?thesis
    using assms(2) by (auto simp: next_row_def scroll_def move_cursor_def Let_def elim!: seq_InrE split: if_splits)
qed

lemma store_char_flag: "store_char c t = Inr t' \<Longrightarrow> interrupts t' = interrupts t"
  by (auto simp: store_char_def set_row_def move_cursor_def Let_def split: if_splits)

lemma put_char_flag:
  assumes "shows_text H W hist t" and "printable c" and "put_char c t = Inr t'"
  shows "interrupts t' \<longleftrightarrow> interrupts t \<or> scrolls H hist (add_char W hist c)"
proof -
  have ok: "console_ok H W t" and h: "hist \<noteq> []" using assms(1) by (simp_all add: shows_text_def)
  then have W: "0 < W" "W \<le> 128" "term_width (terminal t) = of_nat W" by (auto simp: console_ok_def)
  have lx: "length (last hist) = unat (cursor_x (terminal t))"
    using displayed_last(3) [OF ok] shows_text_last(1) [OF assms(1)] by simp
  have "unat (of_nat W :: u32) = W" using W by (simp add: unat_of_nat_u32)
  then have full: "cursor_x (terminal t) = term_width (terminal t) \<longleftrightarrow> length (last hist) = W"
    unfolding lx W(3) by (auto simp: word_unat_eq_iff)
  have draw: "interrupts (draw_char c x y s) = interrupts s" for x y s
    using draw_char_rest(1) [where t = s] by (simp add: same_device_def)
  show ?thesis
  proof (cases "c = 0xA \<or> length (last hist) = W")
    case True
    then obtain t1 where "next_row t = Inr t1" "interrupts t' = interrupts t1"
      using assms(2,3) full
      by (auto simp: put_char_def print_char_printable draw elim!: seq_InrE dest!: store_char_flag split: if_splits)
    then show ?thesis
      using next_row_flag [OF assms(1)] True by (auto simp: scrolls_def add_char_def)
  next
    case False
    then have "interrupts t' = interrupts t"
      using assms(2,3) full
      by (auto simp: put_char_def print_char_printable draw elim!: seq_InrE dest!: store_char_flag split: if_splits)
    then show ?thesis using False h by (auto simp: scrolls_def add_char_def)
  qed
qed

text \<open>What printing does to the flag, from one history to a longer one.\<close>

definition flag_step :: "nat \<Rightarrow> nat \<Rightarrow> u8 list list \<Rightarrow> console \<Rightarrow> u8 list list \<Rightarrow> console \<Rightarrow> bool" where
  "flag_step H W hist t hist' t' \<longleftrightarrow> length hist \<le> length hist' \<and>
     (interrupts t' \<longleftrightarrow> interrupts t \<or> scrolls H hist hist')"

interpretation flag: print_relation flag_step
proof unfold_locales
  fix H W hist t hist' t' hist'' t''
  assume "flag_step H W hist t hist' t'" "flag_step H W hist' t' hist'' t''"
  then show "flag_step H W hist t hist'' t''"
    using scrolls_trans [of hist hist' hist'' H] by (auto simp: flag_step_def)
next
  fix H W hist t c t'
  assume "shows_text H W hist t" "printable c" "put_char c t = Inr t'"
  then show "flag_step H W hist t (add_char W hist c) t'"
    using put_char_flag length_add_char by (auto simp: flag_step_def shows_text_def)
qed (simp add: flag_step_def)

section \<open>Rounds\<close>

definition counter_line :: "string \<Rightarrow> u64 \<Rightarrow> u8 list" where
  "counter_line name x = chars name @ chars ''0x'' @ rev (low_digits 16 (unat x)) @ [0xA]"

lemma shows_text_interrupts [simp]: "shows_text H W hist (t\<lparr>interrupts := b\<rparr>) = shows_text H W hist t"
  by (simp add: shows_text_def console_ok_def displayed_def)

lemma length_counter_line:
  "hist \<noteq> [] \<Longrightarrow> length hist < length (foldl (add_char W) hist (counter_line name x))"
proof -
  assume h: "hist \<noteq> []"
  let ?s = "chars name @ chars ''0x'' @ rev (low_digits 16 (unat x))"
  have "length hist \<le> length (foldl (add_char W) hist ?s)" using h by (rule length_add_chars)
  moreover have "foldl (add_char W) hist (counter_line name x) = foldl (add_char W) hist ?s @ [[]]"
    by (simp add: counter_line_def add_char_def)
  ultimately show ?thesis by simp
qed

lemma print_counter_shows:
  assumes "shows_text H W hist t" and "text_ok (chars name)" and "length name < 256"
    and "hist' = foldl (add_char W) hist (counter_line name x)"
  shows "\<exists>t'. print_counter name x t = Some (Inr t') \<and> shows_text H W hist' t' \<and>
    (interrupts t' \<longleftrightarrow> H < length hist')"
proof -
  let ?h1 = "foldl (add_char W) hist (chars name)"
  have sh: "shows_text H W hist (t\<lparr>interrupts := False\<rparr>)" and h: "hist \<noteq> []"
    using assms(1) by (simp_all add: shows_text_def console_ok_def displayed_def)
  have l: "length (chars name) < 256" using assms(3) by (simp add: chars_def)
  obtain t1 where t1: "print (bytes_of (chars name)) (t\<lparr>interrupts := False\<rparr>) = Some (Inr t1)"
    "shows_text H W ?h1 t1" "flag_step H W hist (t\<lparr>interrupts := False\<rparr>) ?h1 t1"
    using flag.rel_print [OF sh assms(2) l] by blast
  have e: "hist' = foldl (add_char W) ?h1 (chars ''0x'' @ rev (low_digits 16 (unat x)) @ [0xA])"
    unfolding assms(4) counter_line_def foldl_append ..
  from flag.rel_print_hex [OF t1(2) e] obtain t2 where t2: "print_hex x t1 = Some (Inr t2)"
    "shows_text H W hist' t2" "flag_step H W ?h1 t1 hist' t2" by blast
  have "interrupts t2 \<longleftrightarrow> scrolls H hist hist'"
    using flag.rel_trans [OF t1(3) t2(3)] by (simp add: flag_step_def)
  also have "\<dots> \<longleftrightarrow> H < length hist'"
    using length_counter_line [OF h, of W name x] by (simp add: scrolls_def assms(4))
  finally show ?thesis using t1(1) t2(1,2) by (simp add: print_counter_def)
qed

lemma names_ok: "text_ok (chars ''EKA '')" "length ''EKA '' < 256" "text_ok (chars ''TOINEN '')" "length ''TOINEN '' < 256"
  using text_ok_chars by simp_all

lemma round_shows:
  assumes "shows_text H W hist t"
  shows "\<exists>t'. processA_round x t = Some (Inr (x + 1, t')) \<and>
      shows_text H W (foldl (add_char W) hist (counter_line ''EKA '' x)) t'"
    and "\<exists>t'. processB_round x t = Some (Inr (x + 1, t')) \<and>
      shows_text H W (foldl (add_char W) hist (counter_line ''TOINEN '' x)) t'"
  using print_counter_shows [OF assms names_ok(1,2) refl, of x] print_counter_shows [OF assms names_ok(3,4) refl, of x]
  by (auto simp: processA_round_def processB_round_def)

text \<open>C27 print_enables_interrupts. Between its \<open>cli\<close> and \<open>sti\<close> each round of a printing process has
  interrupts disabled to the end exactly as long as the screen has not been filled: from then on
  the round scrolls, and the \<open>sti\<close> at the end of \<open>scroll\<close> leaves interrupts enabled inside the
  section the process means to protect.\<close>
theorem print_enables_interrupts:
  assumes "shows_text H W hist t" and "name \<in> {''EKA '', ''TOINEN ''}"
    and "hist' = foldl (add_char W) hist (counter_line name x)"
  shows "\<exists>t'. print_counter name x t = Some (Inr t') \<and> displayed t' = last_rows H hist' \<and>
    (interrupts t' \<longleftrightarrow> H < length hist')"
proof -
  have "text_ok (chars name)" "length name < 256" using assms(2) names_ok by auto
  from print_counter_shows [OF assms(1) this assms(3)] show ?thesis
    by (auto simp: shows_text_def)
qed

theorem print_enables_interrupts_witness:
  "\<exists>t t'. init_text_terminal font_memory 0x5000 sample_info blank_console = Inr t \<and>
     print_counter ''EKA '' 7 t = Some (Inr t') \<and> \<not> interrupts t'"
proof -
  obtain t where t: "init_text_terminal font_memory 0x5000 sample_info blank_console = Inr t"
    "unat (term_height (terminal t)) = 48" "unat (term_width (terminal t)) = 128"
    using sample_init by blast
  from init_shows [OF t] have sh: "shows_text 48 128 [[]] t" by simp
  have "foldl (add_char 128) [[]] (counter_line ''EKA '' 7) = [chars ''EKA 0x7'', []]"
    by (simp add: counter_line_def low_digits.simps chars_def add_char_def digit_char_def)
  then show ?thesis
    using print_enables_interrupts [OF sh _ refl, of "''EKA ''" 7] t(1) by auto
qed

section \<open>Turns of the printing processes\<close>

datatype printer = Proc_A | Proc_B

fun run_turns :: "printer list \<Rightarrow> u64 \<times> u64 \<times> console \<Rightarrow> (u64 \<times> u64 \<times> console) res option" where
  "run_turns [] st = Some (Inr st)"
| "run_turns (Proc_A # ps) (xA, xB, t) =
     oseq (processA_round xA t) (\<lambda>(xA, t). run_turns ps (xA, xB, t))"
| "run_turns (Proc_B # ps) (xA, xB, t) =
     oseq (processB_round xB t) (\<lambda>(xB, t). run_turns ps (xA, xB, t))"

fun turn_text :: "printer list \<Rightarrow> u64 \<Rightarrow> u64 \<Rightarrow> u8 list" where
  "turn_text [] xA xB = []"
| "turn_text (Proc_A # ps) xA xB = counter_line ''EKA '' xA @ turn_text ps (xA + 1) xB"
| "turn_text (Proc_B # ps) xA xB = counter_line ''TOINEN '' xB @ turn_text ps xA (xB + 1)"

lemma run_turns_shows:
  "shows_text H W hist t \<Longrightarrow>
     \<exists>t'. run_turns ps (xA, xB, t) =
       Some (Inr (xA + of_nat (length (filter ((=) Proc_A) ps)), xB + of_nat (length (filter ((=) Proc_B) ps)), t')) \<and>
     shows_text H W (foldl (add_char W) hist (turn_text ps xA xB)) t'"
proof (induction ps arbitrary: hist t xA xB)
  case Nil
  then show ?case by simp
next
  case (Cons p ps)
  show ?case
  proof (cases p)
    case Proc_A
    obtain t1 where t1: "processA_round xA t = Some (Inr (xA + 1, t1))"
      "shows_text H W (foldl (add_char W) hist (counter_line ''EKA '' xA)) t1"
      using round_shows(1) [OF Cons.prems] by blast
    show ?thesis using Cons.IH [OF t1(2), of "xA + 1" xB] t1(1) Proc_A by (auto simp: add.assoc)
  next
    case Proc_B
    obtain t1 where t1: "processB_round xB t = Some (Inr (xB + 1, t1))"
      "shows_text H W (foldl (add_char W) hist (counter_line ''TOINEN '' xB)) t1"
      using round_shows(2) [OF Cons.prems] by blast
    show ?thesis using Cons.IH [OF t1(2), of xA "xB + 1"] t1(1) Proc_B by (auto simp: add.assoc)
  qed
qed

lemma processA_loop_never: "shows_text H W hist t \<Longrightarrow> processA_loop x t = None"
proof -
  have "\<forall>hist. \<not> shows_text H W hist t" if "processA_loop x t = Some e" for x t e
  proof (rule processA_loop.raw_induct [where P = "\<lambda>x t e. \<forall>hist. \<not> shows_text H W hist t", OF _ that])
    fix f and x :: u64 and t :: console and e :: fault
    assume IH: "\<And>x t e. f x t = Some e \<Longrightarrow> \<forall>hist. \<not> shows_text H W hist t"
      and eq: "(case processA_round x t of None \<Rightarrow> None | Some (Inl e) \<Rightarrow> Some e
        | Some (Inr (xA, t)) \<Rightarrow> f xA t) = Some e"
    show "\<forall>hist. \<not> shows_text H W hist t"
    proof (intro allI notI)
      fix hist assume "shows_text H W hist t"
      from round_shows(1) [OF this, of x] show False using IH eq by fastforce
    qed
  qed
  then show "shows_text H W hist t \<Longrightarrow> processA_loop x t = None" by (cases "processA_loop x t") auto
qed

lemma processB_loop_never: "shows_text H W hist t \<Longrightarrow> processB_loop x t = None"
proof -
  have "\<forall>hist. \<not> shows_text H W hist t" if "processB_loop x t = Some e" for x t e
  proof (rule processB_loop.raw_induct [where P = "\<lambda>x t e. \<forall>hist. \<not> shows_text H W hist t", OF _ that])
    fix f and x :: u64 and t :: console and e :: fault
    assume IH: "\<And>x t e. f x t = Some e \<Longrightarrow> \<forall>hist. \<not> shows_text H W hist t"
      and eq: "(case processB_round x t of None \<Rightarrow> None | Some (Inl e) \<Rightarrow> Some e
        | Some (Inr (xB, t)) \<Rightarrow> f xB t) = Some e"
    show "\<forall>hist. \<not> shows_text H W hist t"
    proof (intro allI notI)
      fix hist assume "shows_text H W hist t"
      from round_shows(2) [OF this, of x] show False using IH eq by fastforce
    qed
  qed
  then show "shows_text H W hist t \<Longrightarrow> processB_loop x t = None" by (cases "processB_loop x t") auto
qed



section \<open>The tune\<close>

text \<open>The bytes sent to the speaker's timer, in order.\<close>

fun timer_byte :: "port_event \<Rightarrow> u8 list" where
  "timer_byte (Out port v) = (if port = 0x42 then [v] else [])"
| "timer_byte _ = []"

definition timer_bytes :: "trace \<Rightarrow> u8 list" where
  "timer_bytes h = concat (map timer_byte (rev h))"

definition divisor_bytes :: "u16 \<Rightarrow> u8 list" where
  "divisor_bytes f = (let d = 1193180 div (ucast f :: u32) in [ucast d, ucast (drop_bit 8 d)])"

lemma play_sound_bytes:
  assumes "f \<noteq> 0"
  shows "\<exists>h'. play_sound dev (ucast f) h = Inr h' \<and> timer_bytes h' = timer_bytes h @ divisor_bytes f"
proof -
  have "unat f < 2 ^ LENGTH(16)" by (rule unsigned_less)
  then have "unat (ucast f :: u32) = unat f"
    by (simp add: unsigned_ucast_eq take_bit_nat_eq_self)
  then have "(ucast f :: u32) \<noteq> 0" using assms by (metis unat_eq_zero)
  then show ?thesis
    by (auto simp: play_sound_def timer_bytes_def divisor_bytes_def outb_def inb_def Let_def)
qed

text \<open>A clock that never goes back and gains at most one tick between two readings.\<close>

definition steady :: "(nat \<Rightarrow> nat) \<Rightarrow> bool" where
  "steady c \<longleftrightarrow> (\<forall>n. c n \<le> c (Suc n) \<and> c (Suc n) \<le> c n + 1)"

lemma steady_mono: "steady c \<Longrightarrow> m \<le> n \<Longrightarrow> c m \<le> c n"
  by (rule lift_Suc_mono_le) (simp_all add: steady_def)

lemma wait_ticks_step:
  assumes "v \<le> c n" and "c n < 2 ^ 31"
  shows "wait_ticks (\<lambda>n. of_nat (c n)) (of_nat v) n =
    (if c n < v + 100 then wait_ticks (\<lambda>n. of_nat (c n)) (of_nat v) (Suc n) else Some (Inr (Suc n)))"
proof -
  have d: "sint (of_nat (c n) :: s32) - sint (of_nat v :: s32) = int (c n) - int v"
    using assms by (simp add: sint_of_nat_s32)
  show ?thesis
    by (subst wait_ticks.simps) (use assms in \<open>auto simp: d Let_def\<close>)
qed

lemma wait_ticks_ends:
  assumes "steady c" and "v + 100 < 2 ^ 31" and "v + 100 \<le> c m"
  shows "v \<le> c n \<Longrightarrow> c n \<le> v + 100 \<Longrightarrow>
    \<exists>k\<ge>n. wait_ticks (\<lambda>n. of_nat (c n)) (of_nat v) n = Some (Inr (Suc k)) \<and> c k = v + 100"
proof (induction "m - n" arbitrary: n)
  case 0
  then have "c m \<le> c n" by (intro steady_mono [OF assms(1)]) simp
  then have "c n = v + 100" using 0 assms(3) by simp
  then show ?case using wait_ticks_step [where v = v and c = c and n = n] assms(2) by (intro exI [of _ n]) simp
next
  case (Suc j)
  have lt: "c n < 2 ^ 31" using Suc.prems assms(2) by simp
  note step = wait_ticks_step [where v = v and c = c and n = n, OF Suc.prems(1) lt]
  show ?case
  proof (cases "c n = v + 100")
    case True
    then show ?thesis using step by (intro exI [of _ n]) simp
  next
    case False
    have "c n \<le> c (Suc n)" "c (Suc n) \<le> c n + 1" using assms(1) by (simp_all add: steady_def)
    then have "\<exists>k\<ge>Suc n. wait_ticks (\<lambda>n. of_nat (c n)) (of_nat v) (Suc n) = Some (Inr (Suc k)) \<and> c k = v + 100"
      using Suc.hyps(2) Suc.prems False by (intro Suc.hyps(1)) auto
    then show ?thesis using step Suc.prems(2) False by (auto dest: Suc_leD)
  qed
qed

lemma play_note_ends:
  assumes "steady c" and "c n + 100 < 2 ^ 31" and "c n + 100 \<le> c m" and "sounds ! y \<noteq> 0"
  shows "\<exists>n' h'. play_note dev (\<lambda>n. of_nat (c n)) y (n, h) = Some (Inr (n', h')) \<and>
    timer_bytes h' = timer_bytes h @ divisor_bytes (sounds ! y) \<and>
    n < n' \<and> c (n' - 1) = c n + 100"
proof -
  obtain h' where h': "play_sound dev (ucast (sounds ! y)) h = Inr h'"
    "timer_bytes h' = timer_bytes h @ divisor_bytes (sounds ! y)"
    using play_sound_bytes [OF assms(4)] by blast
  have "c n \<le> c (Suc n)" "c (Suc n) \<le> c n + 100"
    using assms(1) by (simp_all add: steady_def trans_le_add1 order_trans [where y = "c n + 1"])
  from wait_ticks_ends [OF assms(1-3) this] obtain k where "Suc n \<le> k"
    "wait_ticks (\<lambda>n. of_nat (c n)) (of_nat (c n)) (Suc n) = Some (Inr (Suc k))" "c k = c n + 100"
    by blast
  then show ?thesis using h' by (auto simp: play_note_def)
qed

lemma processC_pass_ends:
  assumes "steady c"
  shows "c n + k * 101 < 2 ^ 31 \<Longrightarrow> c n + k * 101 \<le> c m \<Longrightarrow> \<forall>j < k. sounds ! (y + j) \<noteq> 0 \<Longrightarrow>
    \<exists>n' h'. processC_pass dev (\<lambda>n. of_nat (c n)) y k (n, h) = Some (Inr (n', h')) \<and>
      timer_bytes h' = timer_bytes h @ concat (map (\<lambda>j. divisor_bytes (sounds ! j)) [y..<y + k]) \<and>
      n \<le> n' \<and> c n + k * 100 \<le> c n' \<and> c n' \<le> c n + k * 101"
proof (induction k arbitrary: y n h)
  case 0
  then show ?case by simp
next
  case (Suc k)
  have "sounds ! y \<noteq> 0" using Suc.prems(3) by (metis add.right_neutral zero_less_Suc)
  then obtain n1 h1 where 1: "play_note dev (\<lambda>n. of_nat (c n)) y (n, h) = Some (Inr (n1, h1))"
    "timer_bytes h1 = timer_bytes h @ divisor_bytes (sounds ! y)" "n < n1" "c (n1 - 1) = c n + 100"
    using play_note_ends [OF assms, of n m y dev h] Suc.prems by auto
  have "c (n1 - 1) \<le> c n1" "c n1 \<le> c (n1 - 1) + 1"
    using assms 1(3) unfolding steady_def by (metis Suc_pred' gr_implies_not_zero not_gr_zero)+
  then have c1: "c n + 100 \<le> c n1" "c n1 \<le> c n + 101" using 1(4) by simp_all
  have "\<exists>n' h'. processC_pass dev (\<lambda>n. of_nat (c n)) (Suc y) k (n1, h1) = Some (Inr (n', h')) \<and>
      timer_bytes h' = timer_bytes h1 @ concat (map (\<lambda>j. divisor_bytes (sounds ! j)) [Suc y..<Suc y + k]) \<and>
      n1 \<le> n' \<and> c n1 + k * 100 \<le> c n' \<and> c n' \<le> c n1 + k * 101"
    using Suc.prems c1 by (intro Suc.IH) auto
  then obtain n' h' where 2: "processC_pass dev (\<lambda>n. of_nat (c n)) (Suc y) k (n1, h1) = Some (Inr (n', h'))"
    "timer_bytes h' = timer_bytes h1 @ concat (map (\<lambda>j. divisor_bytes (sounds ! j)) [Suc y..<Suc y + k])"
    "n1 \<le> n'" "c n1 + k * 100 \<le> c n'" "c n' \<le> c n1 + k * 101" by blast
  have "[y..<y + Suc k] = y # [Suc y..<Suc y + k]" by (simp add: upt_conv_Cons)
  then show ?case using 1 2 c1 by (intro exI [of _ n'] exI [of _ h']) simp
qed

text \<open>C28 processC_plays_tune. On a steady clock that runs far enough before the 32-bit tick counter
  overflows, one pass of the playing process ends: it programs the timer with the divisors of
  the five notes, in order and low byte first, and takes 100 ticks a note, and at most one more
  between two notes. On a clock that stands still, as with interrupts disabled, it never ends.\<close>
theorem processC_plays_tune:
  assumes "steady c" and "c n + 505 < 2 ^ 31" and "c n + 505 \<le> c m"
  shows "(\<exists>n' h'. processC_pass dev (\<lambda>n. of_nat (c n)) 0 5 (n, h) = Some (Inr (n', h')) \<and>
      timer_bytes h' = timer_bytes h @ [0xE9, 0x08, 0x97, 0x0A, 0x43, 0x0C, 0xDA, 0x06, 0xE9, 0x08] \<and>
      c n + 500 \<le> c n' \<and> c n' \<le> c n + 505) \<and>
    processC_pass dev (\<lambda>_. tick) 0 5 (n, h) = None"
proof -
  have "\<forall>j < 5. sounds ! (0 + j) \<noteq> 0"
  proof (intro allI impI)
    fix j :: nat assume "j < 5"
    then consider "j = 0" | "j = 1" | "j = 2" | "j = 3" | "j = 4" by linarith
    then show "sounds ! (0 + j) \<noteq> 0" by cases (simp_all add: sounds_def)
  qed
  from processC_pass_ends [OF assms(1) _ _ this, of n m dev h] assms(2,3) obtain n' h' where 1:
    "processC_pass dev (\<lambda>n. of_nat (c n)) 0 5 (n, h) = Some (Inr (n', h'))"
    "timer_bytes h' = timer_bytes h @ concat (map (\<lambda>j. divisor_bytes (sounds ! j)) [0..<0 + 5])"
    "c n + 500 \<le> c n'" "c n' \<le> c n + 505" by auto
  have b: "concat (map (\<lambda>j. divisor_bytes (sounds ! j)) [0..<0 + 5]) =
      [0xE9, 0x08, 0x97, 0x0A, 0x43, 0x0C, 0xDA, 0x06, 0xE9, 0x08]"
    by (simp add: sounds_def divisor_bytes_def upt_rec)
  have still: "wait_ticks (\<lambda>_. tick) tick k = None" for k
  proof -
    have False if "wait_ticks (\<lambda>_. tick) tick k = Some r" for k r
    proof -
      have "clock = (\<lambda>_. val) \<longrightarrow> False" if "wait_ticks clock val k = Some r" for clock val k r
      proof (rule wait_ticks.raw_induct [where P = "\<lambda>clock val k r. clock = (\<lambda>_. val) \<longrightarrow> False", OF _ that])
        fix f and clock :: "nat \<Rightarrow> s32" and val :: s32 and k :: nat and r :: "nat res"
        assume IH: "\<And>clock val k r. f clock val k = Some r \<Longrightarrow> clock = (\<lambda>_. val) \<longrightarrow> False"
          and eq: "(let d = sint (clock k) - sint val in
              if d < - (2 ^ 31) \<or> 2 ^ 31 \<le> d then Some (Inl Signed_Overflow)
              else if d < 100 then f clock val (Suc k) else Some (Inr (Suc k))) = Some r"
        have "f (\<lambda>_. val) val (Suc k) = Some r" if "clock = (\<lambda>_. val)"
          using eq that by (simp add: Let_def)
        with IH show "clock = (\<lambda>_. val) \<longrightarrow> False" by blast
      qed
      then show False using that by blast
    qed
    then show ?thesis by (cases "wait_ticks (\<lambda>_. tick) tick k") auto
  qed
  obtain h1 where "play_sound dev (ucast (sounds ! 0)) h = Inr h1"
    using play_sound_bytes [of "sounds ! 0" dev h] by (auto simp: sounds_def)
  then have "play_note dev (\<lambda>_. tick) 0 (n, h) = None" by (simp add: play_note_def still)
  then have "processC_pass dev (\<lambda>_. tick) 0 (Suc 4) (n, h) = None" by (simp only: processC_pass.simps oseq_simps)
  then show ?thesis using 1 b by (intro conjI exI [of _ n'] exI [of _ h']) (simp_all add: numeral_eq_Suc)
qed

theorem processC_plays_tune_witness:
  "\<exists>n' h'. processC_pass (\<lambda>h p. 0) (\<lambda>n. of_nat (n div 2)) 0 5 (2, []) = Some (Inr (n', h')) \<and>
     length (timer_bytes h') = 10 \<and> 501 \<le> n' div 2"
proof -
  have "steady (\<lambda>n. n div 2)" unfolding steady_def by (auto intro: div_le_mono)
  from processC_plays_tune [OF this, of 2 2000 "\<lambda>h p. 0" "[]" 0] obtain n' h' where
    "processC_pass (\<lambda>h p. 0) (\<lambda>n. of_nat (n div 2)) 0 5 (2, []) = Some (Inr (n', h'))"
    "length (timer_bytes h') = 10" "501 \<le> n' div 2"
    by (auto simp: timer_bytes_def)
  then show ?thesis by blast
qed

end
