(* ===== verification/System.thy ===== *)
theory System
  imports ArraySizes Processes
begin

text \<open>
  The booted system: the boot sequence \<open>kernel/start.c\<close> followed by the printing processes of
  \<open>kernel/scheduler.c\<close>. The processes print on the terminal the boot code leaves, whose screen is
  the framebuffer part of physical memory.
\<close>

section \<open>The last boot step\<close>

lemma start_processes_keeps:
  assumes "start_processes env k = Some (Inr k')"
  shows "base_of (m_vm k') = base_of (m_vm k)" and "m_con k' = m_con k"
proof -
  have apic: "yields (\<lambda>a'. base_of (space a') = base_of (space a)) (Some (init_apic b c a))" for a b c
    unfolding init_apic_def Let_def
    by (rule yields_seq [where Q = "\<lambda>s. base_of s = base_of (space a)"])
      (auto simp: yields_def write_msr_def APIC_REG_def out_def Let_def dest: map_page_base)
  have "yields (\<lambda>k'. base_of (m_vm k') = base_of (m_vm k) \<and> m_con k' = m_con k) (start_processes env k)"
    unfolding start_processes_def Let_def
    by (rule yields_oseq [where Q = "\<lambda>_. True"], simp add: yields_def, clarsimp,
        rule yields_oseq [OF apic]) (simp add: set_memory_def base_of_def)
  then show "base_of (m_vm k') = base_of (m_vm k)" and "m_con k' = m_con k"
    using assms by (simp_all add: yields_def)
qed

section \<open>Rounds write to the framebuffer only\<close>

lemma print_counter_frame:
  assumes "shows_text H W hist t" and "device_fits H W t" and "text_ok (chars name)" and "length name < 256"
    and "print_counter name x t = Some (Inr t')"
  shows "frame_only H W t t'"
proof -
  let ?t = "t\<lparr>interrupts := False\<rparr>"
  have sh: "shows_text H W hist ?t" using assms(1) by simp
  have f: "device_fits H W ?t" "frame_only H W t ?t" using assms(2) by (simp_all add: device_fits_def)
  have "length (chars name) < 256" using assms(4) by (simp add: chars_def)
  from frame.rel_print [OF sh assms(3) this] obtain h t1 where t1: "print (bytes_of (chars name)) ?t = Some (Inr t1)"
    "shows_text H W h t1" "frame_only H W ?t t1" using f(1) by (auto simp: frame_step_def)
  from frame.rel_print_hex [OF t1(2) refl, of x] obtain t2 where "print_hex x t1 = Some (Inr t2)"
    "frame_only H W t1 t2" using frame_only_fits [OF t1(3)] f(1) by (auto simp: frame_step_def)
  moreover from this t1(1) assms(5) have "t' = t2" by (simp add: print_counter_def)
  ultimately show ?thesis using frame_only_trans [OF frame_only_trans [OF f(2) t1(3)]] by blast
qed

lemma round_frame:
  assumes "shows_text H W hist t" and "device_fits H W t"
  shows "processA_round x t = Some (Inr (y, t')) \<Longrightarrow> frame_only H W t t'"
    and "processB_round x t = Some (Inr (y, t')) \<Longrightarrow> frame_only H W t t'"
  using print_counter_frame [OF assms names_ok(1,2)] print_counter_frame [OF assms names_ok(3,4)]
  by (fastforce simp: processA_round_def processB_round_def oseq_def frame_only_def
      split: option.splits sum.splits)+

lemma run_turns_frame:
  "shows_text H W hist t \<Longrightarrow> device_fits H W t \<Longrightarrow> run_turns ps (xA, xB, t) = Some (Inr (yA, yB, t')) \<Longrightarrow>
     frame_only H W t t'"
proof (induction ps arbitrary: hist t xA xB)
  case Nil
  then show ?case by simp
next
  case (Cons p ps)
  have rest: "frame_only H W t t'" if "frame_only H W t t1" "shows_text H W h1 t1"
    "run_turns ps (x1, x2, t1) = Some (Inr (yA, yB, t'))" for t1 h1 x1 x2
    using Cons.IH [OF that(2) _ that(3)] frame_only_fits [OF that(1)] Cons.prems(2)
      frame_only_trans [OF that(1)] by simp
  show ?case
  proof (cases p)
    case Proc_A
    obtain t1 where t1: "processA_round xA t = Some (Inr (xA + 1, t1))"
      "shows_text H W (foldl (add_char W) hist (counter_line ''EKA '' xA)) t1"
      using round_shows(1) [OF Cons.prems(1)] by blast
    show ?thesis
      using rest [OF round_frame(1) [OF Cons.prems(1,2) t1(1)] t1(2)] Cons.prems(3) Proc_A t1(1) by simp
  next
    case Proc_B
    obtain t1 where t1: "processB_round xB t = Some (Inr (xB + 1, t1))"
      "shows_text H W (foldl (add_char W) hist (counter_line ''TOINEN '' xB)) t1"
      using round_shows(2) [OF Cons.prems(1)] by blast
    show ?thesis
      using rest [OF round_frame(2) [OF Cons.prems(1,2) t1(1)] t1(2)] Cons.prems(3) Proc_B t1(1) by simp
  qed
qed

text \<open>On a screen that is apart from the frame pool the rounds leave the page tables alone.\<close>

lemma run_turns_tables:
  assumes "shows_text H W hist t" and "device_fits H W t" and "vm_inv s" and "screen t = mem s"
    and "\<And>x. in_frame (vesa_info t) (8 * W) (16 * H) x \<Longrightarrow> \<not> pool_range (phys s) x"
    and "run_turns ps (xA, xB, t) = Some (Inr (yA, yB, t'))"
  shows "vm_inv (s\<lparr>mem := screen t'\<rparr>)" and "translate (s\<lparr>mem := screen t'\<rparr>) va = translate s va"
    and "\<not> in_frame (vesa_info t) (8 * W) (16 * H) x \<Longrightarrow> screen t' x = mem s x"
proof -
  have out: "screen t' x = mem s x" if "\<not> in_frame (vesa_info t) (8 * W) (16 * H) x" for x
    using run_turns_frame [OF assms(1,2,6)] that assms(4) by (simp add: frame_only_def)
  then have "screen t' x = mem s x" if "pool_range (phys s) x" for x
    using that assms(5) by blast
  from vm_inv_memory(1,3) [OF assms(3) this] out
  show "vm_inv (s\<lparr>mem := screen t'\<rparr>)" "translate (s\<lparr>mem := screen t'\<rparr>) va = translate s va"
    "\<not> in_frame (vesa_info t) (8 * W) (16 * H) x \<Longrightarrow> screen t' x = mem s x" by blast+
qed

section \<open>Properties\<close>



end
