(* ===== verification/Spec2Isabelle.thy ===== *)
theory Spec2Isabelle
  imports LongMode Vga Vesa16 Spinlock System
begin

text \<open>
  A model of paskakasaOS, a small 64-bit kernel, and of its boot loader. Source paths are below
  \<open>src/\<close>; every definition keeps the name of the C function or type it translates, or names it
  in the text in front of it.

  \<^bold>\<open>The program.\<close> The boot sector loads \<open>bootloader/stage2.c\<close>, which reads the kernel from a FAT32
  volume, builds page tables and enters it. \<open>kernel/start.c\<close> then brings up the frame allocator,
  the screen mode, the interrupt table, the file system and the font, paging, the heap, the ACPI
  walk that finds the interrupt controllers, the scheduler and the timer. From there on the
  timer interrupt rotates four register contexts: the boot code and three processes.

  \<^bold>\<open>Conventions.\<close> Machine integers are words of their width; C \<open>int\<close>s whose overflow is reached are
  \<open>Signed_Overflow\<close>. Memory is a function from 64-bit addresses to bytes (\<open>ByteMemory\<close>); arrays
  of the kernel image are lists, and an index outside them is the value \<open>Inl Out_Of_Bounds\<close>. A
  result \<open>None\<close> of an option means that the code does not return: such loops are partial
  functions, and no fuel is used anywhere. Ports are a history of accesses with the device as a
  parameter, a function from the history to the value read; \<open>ata_drive\<close> says what the code relies
  on of a disk, and \<open>drive\<close> is a device that meets it. Writes to controller registers, \<open>hlt\<close> and
  \<open>sti\<close> are a list of effects.

  \<^bold>\<open>Theories, components and what is shown.\<close>
  \<^item> \<open>Prelude\<close>: faults, results and their sequencing (\<open>seq\<close>, \<open>oseq\<close>), words and lists.
  \<^item> \<open>ByteMemory\<close> (\<open>kernel/utils/mem.c\<close>): typed access to bytes, \<open>memmove\<close> as a parallel copy,
    \<open>memset\<close>, \<open>strcmp\<close>, \<open>strlen\<close>. The locale \<open>word_access\<close> of a value stored in some bytes gives the
    frame laws for 16, 32 and 64 bits.
  \<^item> \<open>Pmm\<close> (\<open>kernel/memory/pmm.c\<close>): the memory-map scan and the frame bitmap; frames are fresh and
    served in order (locale \<open>frame_source\<close>), the bitmap is overrun after 100 frames, the pool
    overruns its region.
  \<^item> \<open>PageTables\<close>, \<open>Vmm\<close>, \<open>VmmInit\<close>, \<open>VmmFrame\<close> (\<open>kernel/memory/vmm.c\<close>): trees of tables, abstractly (locale \<open>entry_store\<close>)
    and as \<open>map_page\<close> builds them; the invariant \<open>vm_inv\<close>, the mapping a page has afterwards, and
    the ranges \<open>init_paging\<close> maps with at most 55 frames.
  \<^item> \<open>Heap\<close> (\<open>kernel/memory/alloc.c\<close>): block headers in memory, the invariant \<open>heap_ok\<close>; regions
    granted are disjoint. The locale of an allocator is interpreted on \<open>kalloc\<close>.
  \<^item> \<open>PortIO\<close>, \<open>Ata\<close>, \<open>Fat32\<close> (\<open>kernel/utils/portio.c\<close>, \<open>kernel/storage/\<close>): polling, reading
    a sector, mounting, and loading a cluster chain; the locale \<open>sector_source\<close> is what the file
    system relies on of the driver, interpreted on \<open>read_sector\<close>.
  \<^item> \<open>Sched\<close>, \<open>Interrupts\<close>, \<open>Apic\<close> (\<open>kernel/scheduler.c\<close>, \<open>kernel/interrupts/\<close>, \<open>kernel/apic.c\<close>):
    contexts, descriptors, handlers and the stub around them, the two 8259 controllers and the
    local controller's timer; runs of the machine under any list of interrupts.
  \<^item> \<open>Vesa\<close>, \<open>Vesa16\<close>, \<open>Terminal\<close>, \<open>Itoa\<close>, \<open>TerminalText\<close>, \<open>PrintStep\<close>, \<open>TerminalScreen\<close>,
    \<open>TerminalFrame\<close> (\<open>kernel/utils/vesa.c\<close>, \<open>kernel/utils/text_terminal.c\<close>): pixels of 32 and of 16
    bits as numbered cells (locale \<open>cell_store\<close>), the terminal's operations, number conversion, the
    refinement of an unbounded list of rows by the row buffer, and of the buffer by the pixels;
    drawing leaves memory outside the framebuffer alone. \<open>Vga\<close> (\<open>kernel/utils/vga.c\<close>): the text
    mode routines.
  \<^item> \<open>Processes\<close> (\<open>kernel/scheduler.c\<close>): the three process bodies, their output and timing, and
    the interrupt flag inside their protected section.
  \<^item> \<open>Spinlock\<close> (\<open>kernel/spinlock.c\<close>): the lock alone and as a step relation of any number of
    threads.
  \<^item> \<open>Acpi\<close>, \<open>AcpiTerminal\<close>, \<open>AcpiWalk\<close> (\<open>kernel/acpi.c\<close>): the search for the root pointer, the
    table walks with the pages they map and the text they print, and that the walk over either
    version finds both controllers and keeps page tables, terminal and the rest of memory.
  \<^item> \<open>BootPaging\<close>, \<open>Stage2\<close>, \<open>LongMode\<close> (\<open>bootloader/setup_longmode.c\<close>, \<open>bootloader/stage2.c\<close>,
    \<open>bootloader/switch64.asm\<close>): the loader's tables, as a processor walks them, its parser and
    directory scan compared with the kernel's, the loading of the kernel over low memory, and the
    calls from protected mode that end in the loader with the two addresses in order.
  \<^item> \<open>Boot\<close>, \<open>BootMemory\<close>, \<open>BootWhole\<close> (\<open>kernel/start.c\<close>, \<open>kernel/linker.ld\<close>): the boot sequence on
    one machine state, whose memory is physical and seen through \<open>kernel_view\<close> at the kernel base;
    that page tables, heap and screen leave each other intact, that the font overruns its frame,
    that the heap covers the boot stack, and, for a machine as the boot loader hands it over
    (\<open>handed_over\<close>), that the whole sequence runs to its end and the timer enters the processes.
  \<^item> \<open>ArraySizes\<close>: the lengths of the arrays of the kernel image as a typing (\<open>machine_typed\<close>) that
    every operation of the boot sequence and every interrupt keeps.
  \<^item> \<open>System\<close>: the printing processes on the machine the boot sequence leaves; they write nothing but
    the framebuffer.

  \<^bold>\<open>Bounds.\<close> The bitmap has 100 frames and the file table five entries, as in the code; screens of
  at most 95 rows and 128 columns are those the terminal's buffer can hold; heap requests of at
  least three words are those whose headers do not overlap.

  \<^bold>\<open>Not modelled.\<close> The boot sector and the BIOS calls of \<open>setup_pmode.asm\<close>, segment registers and
  descriptor tables (\<open>load_gdt\<close>, the mode switches' far jumps), the vector stubs except the common
  one, and \<open>context_switch\<close>, an endless loop nothing reaches: assembly without C to translate.
  \<open>kernel/utils/font.c\<close> is not built, and would not compile: it uses variables declared nowhere;
  the terminal has the same routine. A read through an unmapped page is not a fault of the model:
  kernel pointers are read in physical memory. Code inside comments, such as \<open>unmap_page\<close>, is
  not code.
\<close>

end
